(* ===== verification/Prelude.thy ===== *)
theory Prelude
  imports Main "HOL-Library.Word" "HOL-Library.Signed_Division"
begin

text \<open>
  Shared vocabulary of the development: the names of Go's machine types, the result type that
  carries every error return as a value, big- and little-endian integer codecs of
  \<^verbatim>\<open>encoding/binary\<close>, two's complement wrap-around of Go's \<^verbatim>\<open>int\<close> and \<^verbatim>\<open>int64\<close>, and the
  generic list, option and map lemmas the components use. Every component theory imports this
  one, directly or through \<open>GoStd\<close>.
\<close>

unbundle bit_operations_syntax

named_theorems result_simps \<open>evaluation of the result monad\<close>
named_theorems codec_simps \<open>lengths and round trips of byte encodings\<close>
named_theorems inv_intros \<open>preservation of component invariants\<close>

section \<open>Machine types\<close>

type_synonym byte = "8 word"
type_synonym bytes = "byte list"
type_synonym u16 = "16 word"
type_synonym u32 = "32 word"
type_synonym u64 = "64 word"

text \<open>A Go function with an error return: \<open>Inl\<close> is the non-nil error, \<open>Inr\<close> the value.\<close>

type_synonym ('e, 'a) result = "'e + 'a"

definition bind_result :: "('e, 'a) result \<Rightarrow> ('a \<Rightarrow> ('e, 'b) result) \<Rightarrow> ('e, 'b) result" where
  "bind_result r f = (case r of Inl e \<Rightarrow> Inl e | Inr a \<Rightarrow> f a)"

definition guard :: "bool \<Rightarrow> 'e \<Rightarrow> ('e, 'a) result \<Rightarrow> ('e, 'a) result" where
  "guard c e r = (if c then r else Inl e)"

definition map_error :: "('e \<Rightarrow> 'f) \<Rightarrow> ('e, 'a) result \<Rightarrow> ('f, 'a) result" where
  "map_error g r = (case r of Inl e \<Rightarrow> Inl (g e) | Inr a \<Rightarrow> Inr a)"

definition of_option :: "'e \<Rightarrow> 'a option \<Rightarrow> ('e, 'a) result" where
  "of_option e r = (case r of None \<Rightarrow> Inl e | Some a \<Rightarrow> Inr a)"

definition is_ok :: "('e, 'a) result \<Rightarrow> bool" where
  "is_ok r = (case r of Inl _ \<Rightarrow> False | Inr _ \<Rightarrow> True)"

lemma bind_result_simps [simp, result_simps]:
  "bind_result (Inl e) f = Inl e"
  "bind_result (Inr a) f = f a"
  by (simp_all add: bind_result_def)

lemma guard_simps [simp, result_simps]:
  "guard True e r = r"
  "guard False e r = Inl e"
  by (simp_all add: guard_def)

lemma map_error_simps [simp, result_simps]:
  "map_error g (Inl e) = Inl (g e)"
  "map_error g (Inr a) = Inr a"
  by (simp_all add: map_error_def)

lemma of_option_simps [simp, result_simps]:
  "of_option e None = Inl e"
  "of_option e (Some a) = Inr a"
  by (simp_all add: of_option_def)

lemma is_ok_simps [simp, result_simps]: "\<not> is_ok (Inl e)" "is_ok (Inr a)"
  by (simp_all add: is_ok_def)

lemma bind_result_Inr_iff [result_simps]:
  "bind_result r f = Inr b \<longleftrightarrow> (\<exists>a. r = Inr a \<and> f a = Inr b)"
  by (cases r) auto

lemma guard_Inr_iff [result_simps]: "guard c e r = Inr b \<longleftrightarrow> c \<and> r = Inr b"
  by (simp add: guard_def)

lemma map_error_Inr_iff [result_simps]: "map_error g r = Inr b \<longleftrightarrow> r = Inr b"
  by (cases r) auto

lemma of_option_Inr_iff [result_simps]: "of_option e r = Inr b \<longleftrightarrow> r = Some b"
  by (cases r) auto

text \<open>A loop that stops at the first element whose body returns an error.\<close>

fun traverse :: "('a \<Rightarrow> ('e, 'b) result) \<Rightarrow> 'a list \<Rightarrow> ('e, 'b list) result" where
  "traverse f [] = Inr []"
| "traverse f (x # xs) = bind_result (f x) (\<lambda>y. bind_result (traverse f xs) (\<lambda>ys. Inr (y # ys)))"

lemma traverse_Inr_iff [result_simps]:
  "traverse f xs = Inr ys \<longleftrightarrow> list_all2 (\<lambda>x y. f x = Inr y) xs ys"
  by (induction xs arbitrary: ys) (auto simp: bind_result_Inr_iff list_all2_Cons1)

lemma traverse_ok_iff: "(\<exists>ys. traverse f xs = Inr ys) \<longleftrightarrow> (\<forall>x \<in> set xs. \<exists>y. f x = Inr y)"
  by (induction xs) (auto simp: bind_result_Inr_iff)

lemma traverse_set:
  "traverse f xs = Inr ys \<Longrightarrow> set ys = {y. \<exists>x \<in> set xs. f x = Inr y}"
  by (induction xs arbitrary: ys) (fastforce simp: bind_result_Inr_iff)+

lemma traverse_in:
  assumes "traverse f xs = Inr ys" "y \<in> set ys"
  obtains x where "x \<in> set xs" "f x = Inr y"
  using traverse_set [OF assms(1)] assms(2) by blast

lemma traverse_reorder:
  assumes "traverse f xs = Inr ys" "set xs' = set xs"
  obtains ys' where "traverse f xs' = Inr ys'" "set ys' = set ys"
proof -
  have "\<forall>x \<in> set xs'. \<exists>y. f x = Inr y" using assms traverse_ok_iff [of f xs] by auto
  then obtain ys' where ys': "traverse f xs' = Inr ys'" using traverse_ok_iff [of f xs'] by blast
  moreover have "set ys' = set ys"
    using traverse_set [OF ys'] traverse_set [OF assms(1)] assms(2) by simp
  ultimately show ?thesis using that by blast
qed

lemma traverse_keys:
  assumes "\<And>x y. f x = Inr y \<Longrightarrow> fst y = fst x"
  shows "traverse f xs = Inr ys \<Longrightarrow> map fst ys = map fst xs"
  by (induction xs arbitrary: ys) (auto simp: bind_result_Inr_iff dest!: assms)

section \<open>Two's complement wrap-around of Go's int and int64\<close>

definition wrap64 :: "int \<Rightarrow> int" where
  "wrap64 x = (x + 2 ^ 63) mod 2 ^ 64 - 2 ^ 63"

definition is_int64 :: "int \<Rightarrow> bool" where
  "is_int64 x \<longleftrightarrow> - (2 ^ 63) \<le> x \<and> x < 2 ^ 63"

lemma wrap64_id: "is_int64 x \<Longrightarrow> wrap64 x = x"
  by (simp add: wrap64_def is_int64_def)

lemma is_int64_wrap64 [simp]: "is_int64 (wrap64 x)"
proof -
  have "0 \<le> (x + 2 ^ 63) mod 2 ^ 64" "(x + 2 ^ 63) mod 2 ^ 64 < (2::int) ^ 64"
    by simp_all
  then show ?thesis by (auto simp: wrap64_def is_int64_def)
qed

text \<open>Go's integer division truncates towards zero: \<open>sdiv\<close>.\<close>

lemma sdiv_nonneg: "0 \<le> a \<Longrightarrow> 0 < b \<Longrightarrow> a sdiv b = a div (b :: int)"
  by (cases "a = 0") (simp_all add: signed_divide_int_def)

lemma sdiv_neg_le: "a < 0 \<Longrightarrow> 0 < b \<Longrightarrow> a sdiv b \<le> (0 :: int)"
  by (simp add: signed_divide_int_def pos_imp_zdiv_nonneg_iff)

lemma sdiv_le_self: "0 \<le> a \<Longrightarrow> 0 < b \<Longrightarrow> a sdiv b \<le> (a :: int)"
  using zdiv_mono2 [of a 1 b] by (simp add: sdiv_nonneg)

section \<open>Fixed-width integers as byte strings\<close>

text \<open>
  \<open>be_bytes n w\<close> is what \<^verbatim>\<open>binary.BigEndian.AppendUint\<close>\<open>8n\<close> appends, \<open>le_bytes n w\<close> the
  little-endian variant; \<open>be_word\<close> is \<^verbatim>\<open>binary.BigEndian.Uint\<close>\<open>8n\<close>.
\<close>

primrec be_bytes :: "nat \<Rightarrow> 'a::len word \<Rightarrow> bytes" where
  "be_bytes 0 w = []"
| "be_bytes (Suc n) w = ucast (drop_bit (8 * n) w) # be_bytes n w"

definition le_bytes :: "nat \<Rightarrow> 'a::len word \<Rightarrow> bytes" where
  "le_bytes n w = rev (be_bytes n w)"

fun be_acc :: "'a::len word \<Rightarrow> bytes \<Rightarrow> 'a word" where
  "be_acc a [] = a"
| "be_acc a (b # bs) = be_acc (push_bit 8 a OR ucast b) bs"

definition be_word :: "bytes \<Rightarrow> 'a::len word" where
  "be_word bs = be_acc 0 bs"

lemma length_be_bytes [simp, codec_simps]: "length (be_bytes n w) = n"
  by (induction n) simp_all

lemma length_le_bytes [simp, codec_simps]: "length (le_bytes n w) = n"
  by (simp add: le_bytes_def)

lemma be_acc_bytes:
  "8 * n \<le> LENGTH('a) \<Longrightarrow>
   be_acc a (be_bytes n (w :: 'a::len word)) = push_bit (8 * n) a OR take_bit (8 * n) w"
proof (induction n arbitrary: a)
  case 0
  then show ?case by simp
next
  case (Suc n)
  then have len: "8 * n + 8 \<le> LENGTH('a)" by simp
  have "be_acc a (be_bytes (Suc n) w) =
      push_bit (8 * n) (push_bit 8 a OR ucast (ucast (drop_bit (8 * n) w) :: byte))
        OR take_bit (8 * n) w"
    using Suc by simp
  also have "\<dots> = push_bit (8 * Suc n) a OR take_bit (8 * Suc n) w"
    by (rule bit_word_eqI)
      (use len in \<open>auto simp: bit_or_iff bit_push_bit_iff bit_take_bit_iff bit_ucast_iff
        bit_drop_bit_eq not_less le_diff_conv2 add.commute [of 8]\<close>)
  finally show ?case .
qed

lemma be_word_be_bytes [simp, codec_simps]:
  "8 * n = LENGTH('a) \<Longrightarrow> be_word (be_bytes n (w :: 'a::len word)) = w"
  using be_acc_bytes [of n 0 w] by (simp add: be_word_def)

lemma be_acc_or:
  "be_acc a bs = push_bit (8 * length bs) a OR be_acc 0 bs"
proof (induction bs arbitrary: a)
  case Nil
  then show ?case by simp
next
  case (Cons b bs)
  show ?case
    by (simp add: Cons [of "push_bit 8 a OR ucast b"] Cons [of "ucast b"] push_bit_or or.assoc
        push_bit_push_bit add.commute)
qed

lemma bit_be_acc: "bit (be_acc 0 bs :: 'a::len word) k \<Longrightarrow> k < 8 * length bs"
proof (induction bs)
  case Nil
  then show ?case by simp
next
  case (Cons b bs)
  then show ?case
    using bit_imp_le_length [of b]
    by (auto simp: be_acc_or [of "ucast b" bs] bit_or_iff bit_push_bit_iff bit_ucast_iff dest: bit_imp_le_length)
qed

lemma be_bytes_high:
  "n \<le> m \<Longrightarrow> be_bytes n (push_bit (8 * m) x OR y :: 'a::len word) = be_bytes n y"
proof (induction n)
  case 0
  then show ?case by simp
next
  case (Suc n)
  have "(ucast (drop_bit (8 * n) (push_bit (8 * m) x OR y)) :: byte) = ucast (drop_bit (8 * n) y)"
    using Suc.prems
    by (auto simp: bit_eq_iff bit_ucast_iff bit_drop_bit_eq bit_or_iff bit_push_bit_iff)
  then show ?case using Suc by simp
qed

lemma be_bytes_be_word:
  "8 * length bs \<le> LENGTH('a) \<Longrightarrow> be_bytes (length bs) (be_word bs :: 'a::len word) = bs"
  unfolding be_word_def
proof (induction bs)
  case Nil
  then show ?case by simp
next
  case (Cons b bs)
  let ?n = "8 * length bs"
  have "(ucast (drop_bit ?n (push_bit ?n (ucast b) OR be_acc 0 bs :: 'a word)) :: byte) = b"
    using Cons.prems bit_be_acc [of bs]
    by (auto simp: bit_eq_iff bit_ucast_iff bit_drop_bit_eq bit_or_iff bit_push_bit_iff
        dest: bit_imp_le_length)
  then show ?case
    using Cons be_bytes_high [of "length bs" "length bs" "ucast b" "be_acc 0 bs :: 'a word"]
    by (simp add: be_acc_or [of "ucast b" bs])
qed
lemma be_bytes_inject [simp]:
  assumes "8 * n = LENGTH('a)"
  shows "be_bytes n (v :: 'a::len word) = be_bytes n w \<longleftrightarrow> v = w"
  by (metis assms be_word_be_bytes)

lemma le_bytes_inject [simp]:
  assumes "8 * n = LENGTH('a)"
  shows "le_bytes n (v :: 'a::len word) = le_bytes n w \<longleftrightarrow> v = w"
  using assms by (simp add: le_bytes_def)

section \<open>Lists, words and maps\<close>

lemma append_eq_same_length:
  "length a = length c \<Longrightarrow> a @ b = c @ d \<longleftrightarrow> a = c \<and> b = d"
  by simp

lemma append_fixed_iff:
  "length a = n \<Longrightarrow> length c = n \<Longrightarrow> a @ b = c @ d \<longleftrightarrow> a = c \<and> b = d"
  by simp

lemma of_nat_word_inject:
  assumes "m < 2 ^ LENGTH('a)" "n < 2 ^ LENGTH('a)"
  shows "(of_nat m :: 'a::len word) = of_nat n \<longleftrightarrow> m = n"
  using assms by (metis of_nat_inverse)

text \<open>
  A field preceded by its length in four bytes. \<^verbatim>\<open>uint32(len(b))\<close> wraps, so the prefix determines
  the length only below 4 GiB.
\<close>

definition len32 :: "'a list \<Rightarrow> u32" where
  "len32 b = of_nat (length b)"

definition lp_le :: "bytes \<Rightarrow> bytes" where
  "lp_le b = le_bytes 4 (len32 b) @ b"

definition lp_be :: "bytes \<Rightarrow> bytes" where
  "lp_be b = be_bytes 4 (len32 b) @ b"

lemma len32_inject:
  "length a < 2 ^ 32 \<Longrightarrow> length b < 2 ^ 32 \<Longrightarrow> len32 a = len32 b \<longleftrightarrow> length a = length b"
  unfolding len32_def using of_nat_word_inject [where 'a = 32] by simp

lemma le_bytes_append_inject [codec_simps]:
  "8 * n = LENGTH('a) \<Longrightarrow> le_bytes n (v :: 'a::len word) @ r = le_bytes n w @ r' \<longleftrightarrow> v = w \<and> r = r'"
  by simp

lemma be_bytes_append_inject [codec_simps]:
  "8 * n = LENGTH('a) \<Longrightarrow> be_bytes n (v :: 'a::len word) @ r = be_bytes n w @ r' \<longleftrightarrow> v = w \<and> r = r'"
  by simp

lemma lp_le_append_inject:
  assumes "length a < 2 ^ 32" "length b < 2 ^ 32"
  shows "lp_le a @ r = lp_le b @ r' \<longleftrightarrow> a = b \<and> r = r'"
  unfolding lp_le_def append_assoc
  by (auto simp: le_bytes_append_inject len32_inject [OF assms])

lemma lp_be_append_inject:
  assumes "length a < 2 ^ 32" "length b < 2 ^ 32"
  shows "lp_be a @ r = lp_be b @ r' \<longleftrightarrow> a = b \<and> r = r'"
  unfolding lp_be_def append_assoc
  by (auto simp: be_bytes_append_inject len32_inject [OF assms])

lemma lp_le_inject:
  assumes "length a < 2 ^ 32" "length b < 2 ^ 32"
  shows "lp_le a = lp_le b \<longleftrightarrow> a = b"
  using lp_le_append_inject [OF assms, of "[]" "[]"] by simp

lemma lp_be_inject:
  assumes "length a < 2 ^ 32" "length b < 2 ^ 32"
  shows "lp_be a = lp_be b \<longleftrightarrow> a = b"
  using lp_be_append_inject [OF assms, of "[]" "[]"] by simp

text \<open>Deleting the entries of a Go map that satisfy a test, in any iteration order.\<close>

definition delete_where :: "('k \<Rightarrow> 'v \<Rightarrow> bool) \<Rightarrow> ('k \<rightharpoonup> 'v) \<Rightarrow> ('k \<rightharpoonup> 'v)" where
  "delete_where P m = (\<lambda>k. case m k of None \<Rightarrow> None | Some v \<Rightarrow> if P k v then None else Some v)"

lemma delete_where_Some [simp]:
  "delete_where P m k = Some v \<longleftrightarrow> m k = Some v \<and> \<not> P k v"
  by (auto simp: delete_where_def split: option.splits)

lemma delete_where_None:
  "delete_where P m k = None \<longleftrightarrow> (\<forall>v. m k = Some v \<longrightarrow> P k v)"
  by (auto simp: delete_where_def split: option.splits)

lemma dom_delete_where: "dom (delete_where P m) \<subseteq> dom m"
  by (auto simp: dom_def)

end
