(* ===== verification/GoStd.thy ===== *)
theory GoStd
  imports Prelude "HOL-Library.Sublist"
begin

text \<open>
  The parts of Go's standard library the program calls, modelled on byte strings: \<^verbatim>\<open>strings\<close>
  (TrimSpace, Cut, CutPrefix, Split, HasSuffix, TrimSuffix, LastIndex, Count, ToLower,
  EqualFold), \<^verbatim>\<open>encoding/hex\<close>, \<^verbatim>\<open>encoding/base64\<close> (RawURLEncoding and StdEncoding) and \<^verbatim>\<open>time\<close>.
  A Go string is a sequence of bytes and is modelled as a HOL \<open>string\<close>, whose characters are
  bytes. ASCII behaviour is spelt out; what depends on the Unicode tables (case mapping and
  case folding of strings with a byte above 127) is the parameter \<open>utables\<close>.
\<close>

section \<open>Strings and byte slices\<close>

definition bytes_of :: "string \<Rightarrow> bytes" where
  "bytes_of s = map of_char s"

definition string_of :: "bytes \<Rightarrow> string" where
  "string_of bs = map (\<lambda>b. char_of (unat b)) bs"

lemma length_bytes_of [simp, codec_simps]: "length (bytes_of s) = length s"
  by (simp add: bytes_of_def)

lemma length_string_of [simp, codec_simps]: "length (string_of s) = length s"
  by (simp add: string_of_def)

lemma of_char_byte: "(of_char c :: byte) = of_nat (of_char c)"
  by (simp only: of_nat_of_char)

lemma unat_of_char_byte: "unat (of_char c :: byte) = of_char c"
  unfolding of_char_byte by (rule of_nat_inverse [OF refl]) simp

lemma string_of_bytes_of [simp]: "string_of (bytes_of s) = s"
  by (induction s) (simp_all add: string_of_def bytes_of_def unat_of_char_byte)

lemma of_char_char_of_unat: "(of_char (char_of (unat b) :: char) :: byte) = b"
proof -
  have "unat b < 256" using unsigned_less [of b] by simp
  then have "(of_char (char_of (unat b) :: char) :: nat) = unat b" by simp
  then show ?thesis unfolding of_char_byte by simp
qed

lemma bytes_of_string_of [simp]: "bytes_of (string_of bs) = bs"
  by (induction bs) (simp_all add: string_of_def bytes_of_def of_char_char_of_unat del: of_char_of)

lemma bytes_of_inject [simp]: "bytes_of s = bytes_of t \<longleftrightarrow> s = t"
  by (metis string_of_bytes_of)

lemma bytes_of_append [simp]: "bytes_of (s @ t) = bytes_of s @ bytes_of t"
  by (simp add: bytes_of_def)

lemma string_of_append [simp]: "string_of (s @ t) = string_of s @ string_of t"
  by (simp add: string_of_def)

lemma string_of_inject [simp]: "string_of s = string_of t \<longleftrightarrow> s = t"
  by (metis bytes_of_string_of)

section \<open>Package strings\<close>

definition is_ascii :: "char \<Rightarrow> bool" where
  "is_ascii c \<longleftrightarrow> (of_char c :: nat) < 128"

definition is_graph :: "char \<Rightarrow> bool" where
  "is_graph c \<longleftrightarrow> 32 < (of_char c :: nat) \<and> (of_char c :: nat) < 127"

definition ascii_lower :: "char \<Rightarrow> char" where
  "ascii_lower c =
     (if 65 \<le> (of_char c :: nat) \<and> (of_char c :: nat) \<le> 90 then char_of ((of_char c :: nat) + 32) else c)"

text \<open>The UTF-8 encodings of the runes for which \<^verbatim>\<open>unicode.IsSpace\<close> holds.\<close>

definition space_seqs :: "string list" where
  "space_seqs = map (map char_of)
     [[9], [10], [11], [12], [13], [32], [194, 133], [194, 160], [225, 154, 128],
      [226, 128, 128], [226, 128, 129], [226, 128, 130], [226, 128, 131], [226, 128, 132],
      [226, 128, 133], [226, 128, 134], [226, 128, 135], [226, 128, 136], [226, 128, 137],
      [226, 128, 138], [226, 128, 168], [226, 128, 169], [226, 128, 175], [226, 129, 159],
      [227, 128, 128 :: nat]]"

text \<open>Removing, as long as possible, a leading member of a list of non-empty strings.\<close>

function strip_prefixes :: "'a list list \<Rightarrow> 'a list \<Rightarrow> 'a list" where
  "strip_prefixes ws s =
     (case find (\<lambda>w. w \<noteq> [] \<and> prefix w s) ws of
        None \<Rightarrow> s
      | Some w \<Rightarrow> strip_prefixes ws (drop (length w) s))"
  by pat_completeness auto
termination
  by (relation "measure (\<lambda>(ws, s). length s)")
    (auto simp: find_Some_iff prefix_def)

declare strip_prefixes.simps [simp del]

definition trim_left :: "string \<Rightarrow> string" where
  "trim_left s = strip_prefixes space_seqs s"

definition trim_right :: "string \<Rightarrow> string" where
  "trim_right s = rev (strip_prefixes (map rev space_seqs) (rev s))"

definition trim_space :: "string \<Rightarrow> string" where
  "trim_space s = trim_right (trim_left s)"

lemma strip_prefixes_id:
  assumes "\<And>w. w \<in> set ws \<Longrightarrow> w \<noteq> [] \<Longrightarrow> \<not> prefix w s"
  shows "strip_prefixes ws s = s"
proof -
  have "find (\<lambda>w. w \<noteq> [] \<and> prefix w s) ws = None"
    using assms by (auto simp: find_None_iff)
  then show ?thesis by (subst strip_prefixes.simps) simp
qed

lemma strip_prefixes_no_prefix:
  "w \<in> set ws \<Longrightarrow> w \<noteq> [] \<Longrightarrow> \<not> prefix w (strip_prefixes ws s)"
proof (induction ws s rule: strip_prefixes.induct)
  case (1 ws s)
  show ?case
  proof (cases "find (\<lambda>w. w \<noteq> [] \<and> prefix w s) ws")
    case None
    then have "strip_prefixes ws s = s" by (subst strip_prefixes.simps) simp
    with None show ?thesis using 1(2,3) by (auto simp: find_None_iff)
  next
    case (Some v)
    then show ?thesis using 1(1) [OF Some 1(2,3)]
      by (subst strip_prefixes.simps) simp
  qed
qed

lemma suffix_strip_prefixes: "suffix (strip_prefixes ws s) s"
proof (induction ws s rule: strip_prefixes.induct)
  case (1 ws s)
  show ?case
  proof (cases "find (\<lambda>w. w \<noteq> [] \<and> prefix w s) ws")
    case None
    then show ?thesis by (subst strip_prefixes.simps) simp
  next
    case (Some v)
    from 1 [OF Some] show ?thesis
      using Some by (subst strip_prefixes.simps) (auto intro: suffix_order.trans suffix_drop)
  qed
qed

lemma space_seqs_ends_not_graph:
  "w \<in> set space_seqs \<Longrightarrow> w \<noteq> [] \<and> \<not> is_graph (hd w) \<and> \<not> is_graph (last w)"
  by (auto simp: space_seqs_def is_graph_def)

lemma trim_left_id: "s = [] \<or> is_graph (hd s) \<Longrightarrow> trim_left s = s"
  unfolding trim_left_def
  by (rule strip_prefixes_id) (auto dest!: space_seqs_ends_not_graph simp: prefix_def hd_append)

lemma trim_right_id: "s = [] \<or> is_graph (last s) \<Longrightarrow> trim_right s = s"
proof -
  assume *: "s = [] \<or> is_graph (last s)"
  have "strip_prefixes (map rev space_seqs) (rev s) = rev s"
  proof (rule strip_prefixes_id)
    fix w assume "w \<in> set (map rev space_seqs)" "w \<noteq> []"
    then obtain v where v: "v \<in> set space_seqs" "w = rev v" by auto
    show "\<not> prefix w (rev s)"
    proof
      assume "prefix w (rev s)"
      then have "suffix v s" using v by (simp add: suffix_to_prefix)
      then show False using * space_seqs_ends_not_graph [OF v(1)]
        by (auto simp: suffix_def)
    qed
  qed
  then show ?thesis by (simp add: trim_right_def)
qed

lemma trim_space_id:
  "s = [] \<or> is_graph (hd s) \<and> is_graph (last s) \<Longrightarrow> trim_space s = s"
  by (auto simp: trim_space_def trim_left_id trim_right_id)

lemma trim_space_graph: "list_all is_graph s \<Longrightarrow> trim_space s = s"
  by (rule trim_space_id) (auto simp: list_all_iff)

text \<open>
  The Unicode tables: lower-casing of a string with a non-ASCII byte, and case-folded
  comparison from the first non-ASCII byte on.
\<close>

record utables =
  ulower :: "string \<Rightarrow> string"
  ufold :: "string \<Rightarrow> string \<Rightarrow> bool"

definition to_lower :: "utables \<Rightarrow> string \<Rightarrow> string" where
  "to_lower u s = (if list_all is_ascii s then map ascii_lower s else ulower u s)"

fun equal_fold :: "utables \<Rightarrow> string \<Rightarrow> string \<Rightarrow> bool" where
  "equal_fold u (c # s) (d # t) =
     (if \<not> is_ascii c \<or> \<not> is_ascii d then ufold u (c # s) (d # t)
      else ascii_lower c = ascii_lower d \<and> equal_fold u s t)"
| "equal_fold u s t = (s = [] \<and> t = [])"

lemma equal_fold_ascii:
  "list_all is_ascii s \<Longrightarrow> list_all is_ascii t \<Longrightarrow>
   equal_fold u s t \<longleftrightarrow> map ascii_lower s = map ascii_lower t"
  by (induction u s t rule: equal_fold.induct) auto

text \<open>\<^verbatim>\<open>strings.Cut\<close>: the text before and after the first separator.\<close>

fun cut :: "string \<Rightarrow> string \<Rightarrow> (string \<times> string) option" where
  "cut sep s =
     (if prefix sep s then Some ([], drop (length sep) s)
      else case s of [] \<Rightarrow> None
           | c # s' \<Rightarrow> map_option (\<lambda>(a, b). (c # a, b)) (cut sep s'))"

declare cut.simps [simp del]

definition cut_prefix :: "string \<Rightarrow> string \<Rightarrow> string option" where
  "cut_prefix p s = (if prefix p s then Some (drop (length p) s) else None)"

definition has_suffix :: "string \<Rightarrow> string \<Rightarrow> bool" where
  "has_suffix s x = suffix x s"

definition trim_suffix :: "string \<Rightarrow> string \<Rightarrow> string" where
  "trim_suffix s x = (if suffix x s then take (length s - length x) s else s)"

lemma trim_suffix_append [simp]: "trim_suffix (s @ x) x = s"
  by (simp add: trim_suffix_def suffix_def)

lemma has_suffix_append [simp]: "has_suffix (s @ x) x"
  by (simp add: has_suffix_def suffix_def)

text \<open>\<^verbatim>\<open>strings.Split\<close> on a one-character separator, and \<^verbatim>\<open>strings.Count\<close> of one.\<close>

fun split_char :: "char \<Rightarrow> string \<Rightarrow> string list" where
  "split_char d [] = [[]]"
| "split_char d (c # s) =
     (if c = d then [] # split_char d s
      else case split_char d s of [] \<Rightarrow> [[c]] | p # ps \<Rightarrow> (c # p) # ps)"

definition count_char :: "string \<Rightarrow> char \<Rightarrow> nat" where
  "count_char s c = length (filter (\<lambda>x. x = c) s)"

lemma split_char_nonempty [simp]: "split_char d s \<noteq> []"
  by (induction s) (auto split: list.splits)

lemma split_char_no_sep: "d \<notin> set s \<Longrightarrow> split_char d s = [s]"
  by (induction s) auto

lemma split_char_append:
  "d \<notin> set s \<Longrightarrow> split_char d (s @ d # t) = s # split_char d t"
  by (induction s) auto

text \<open>\<^verbatim>\<open>strings.Cut\<close> at a single character, the form most callers use.\<close>

lemma cut_char_append:
  "d \<notin> set s \<Longrightarrow> cut [d] (s @ d # t) = Some (s, t)"
proof (induction s)
  case Nil
  then show ?case by (subst cut.simps) simp
next
  case (Cons c s)
  then show ?case by (subst cut.simps) simp
qed

lemma cut_char_None: "d \<notin> set s \<Longrightarrow> cut [d] s = None"
proof (induction s)
  case Nil
  then show ?case by (subst cut.simps) simp
next
  case (Cons c s)
  then show ?case by (subst cut.simps) simp
qed

lemma cut_char_Some:
  "cut [d] s = Some (a, b) \<longleftrightarrow> s = a @ d # b \<and> d \<notin> set a"
proof
  assume c: "cut [d] s = Some (a, b)"
  have "d \<in> set s"
    using c cut_char_None by fastforce
  then obtain x y where "s = x @ d # y" "d \<notin> set x"
    by (metis split_list_first)
  with c show "s = a @ d # b \<and> d \<notin> set a"
    by (simp add: cut_char_append)
next
  assume "s = a @ d # b \<and> d \<notin> set a"
  then show "cut [d] s = Some (a, b)" by (simp add: cut_char_append)
qed

section \<open>Package encoding/hex\<close>

definition hex_digit :: "nat \<Rightarrow> char" where
  "hex_digit n = ''0123456789abcdef'' ! n"

definition hex_val :: "char \<Rightarrow> nat option" where
  "hex_val c = (let n = (of_char c :: nat) in
     if 48 \<le> n \<and> n \<le> 57 then Some (n - 48)
     else if 97 \<le> n \<and> n \<le> 102 then Some (n - 87)
     else if 65 \<le> n \<and> n \<le> 70 then Some (n - 55) else None)"

definition hex_encode :: "bytes \<Rightarrow> string" where
  "hex_encode bs = concat (map (\<lambda>b. [hex_digit (unat b div 16), hex_digit (unat b mod 16)]) bs)"

fun hex_decode :: "string \<Rightarrow> bytes option" where
  "hex_decode [] = Some []"
| "hex_decode [c] = None"
| "hex_decode (c # d # s) =
     (case (hex_val c, hex_val d) of
        (Some h, Some l) \<Rightarrow> map_option (Cons (of_nat (16 * h + l))) (hex_decode s)
      | _ \<Rightarrow> None)"

lemma hex_digits_ok: "\<forall>n < 16. hex_val (hex_digit n) = Some n \<and> is_graph (hex_digit n)"
  by code_simp

lemma hex_val_digit: "n < 16 \<Longrightarrow> hex_val (hex_digit n) = Some n"
  using hex_digits_ok by blast

lemma hex_digit_graph: "n < 16 \<Longrightarrow> is_graph (hex_digit n)"
  using hex_digits_ok by blast

lemma length_hex_encode [simp, codec_simps]: "length (hex_encode bs) = 2 * length bs"
  by (induction bs) (simp_all add: hex_encode_def)

lemma unat_byte_bound: "unat (b :: byte) < 256"
  using unsigned_less [of b] by simp

lemma hex_decode_encode [simp, codec_simps]: "hex_decode (hex_encode bs) = Some bs"
proof (induction bs)
  case Nil
  then show ?case by (simp add: hex_encode_def)
next
  case (Cons b bs)
  have b: "unat b div 16 < 16" "unat b mod 16 < 16"
    using unat_byte_bound [of b] by auto
  have "hex_encode (b # bs) = hex_digit (unat b div 16) # hex_digit (unat b mod 16) # hex_encode bs"
    by (simp add: hex_encode_def)
  with Cons b show ?case
    by (simp add: hex_val_digit del: of_nat_add of_nat_mult)
qed

lemma hex_encode_graph: "list_all is_graph (hex_encode bs)"
  using unat_byte_bound
  by (induction bs) (auto simp: hex_encode_def less_mult_imp_div_less intro!: hex_digit_graph)

lemma trim_space_hex_encode [simp, codec_simps]: "trim_space (hex_encode bs) = hex_encode bs"
  by (rule trim_space_graph [OF hex_encode_graph])

lemma hex_encode_inject [simp]: "hex_encode a = hex_encode b \<longleftrightarrow> a = b"
  by (metis hex_decode_encode option.inject)

section \<open>Package encoding/base64\<close>

text \<open>
  Encoders map three bytes to four sextets. The decoders skip carriage returns and line feeds
  and do not require the unused low bits of a final partial group to be zero, as Go's
  non-strict encodings do.
\<close>

definition url_alphabet :: string where
  "url_alphabet = ''ABCDEFGHIJKLMNOPQRSTUVWXYZabcdefghijklmnopqrstuvwxyz0123456789-_''"

definition std_alphabet :: string where
  "std_alphabet = ''ABCDEFGHIJKLMNOPQRSTUVWXYZabcdefghijklmnopqrstuvwxyz0123456789+/''"

definition b64_val :: "string \<Rightarrow> char \<Rightarrow> nat option" where
  "b64_val alpha c = map_of (zip alpha [0..<64]) c"

fun sextets :: "bytes \<Rightarrow> nat list" where
  "sextets [] = []"
| "sextets [a] = [unat a div 4, unat a mod 4 * 16]"
| "sextets [a, b] = [unat a div 4, unat a mod 4 * 16 + unat b div 16, unat b mod 16 * 4]"
| "sextets (a # b # c # r) =
     [unat a div 4, unat a mod 4 * 16 + unat b div 16,
      unat b mod 16 * 4 + unat c div 64, unat c mod 64] @ sextets r"

fun unsextets :: "nat list \<Rightarrow> bytes option" where
  "unsextets [] = Some []"
| "unsextets [s] = None"
| "unsextets [s, t] = Some [of_nat (s * 4 + t div 16)]"
| "unsextets [s, t, v] = Some [of_nat (s * 4 + t div 16), of_nat (t mod 16 * 16 + v div 4)]"
| "unsextets (s # t # v # w # r) =
     map_option (\<lambda>bs. of_nat (s * 4 + t div 16) # of_nat (t mod 16 * 16 + v div 4)
                       # of_nat (v mod 4 * 64 + w) # bs) (unsextets r)"

fun b64_vals :: "string \<Rightarrow> string \<Rightarrow> nat list option" where
  "b64_vals alpha [] = Some []"
| "b64_vals alpha (c # s) =
     (case b64_val alpha c of None \<Rightarrow> None
      | Some v \<Rightarrow> map_option (Cons v) (b64_vals alpha s))"

definition drop_newlines :: "string \<Rightarrow> string" where
  "drop_newlines s = filter (\<lambda>c. c \<noteq> CHR 0x0A \<and> c \<noteq> CHR 0x0D) s"

definition b64url_encode :: "bytes \<Rightarrow> string" where
  "b64url_encode bs = map (\<lambda>n. url_alphabet ! n) (sextets bs)"

definition b64url_decode :: "string \<Rightarrow> bytes option" where
  "b64url_decode s = Option.bind (b64_vals url_alphabet (drop_newlines s)) unsextets"

text \<open>StdEncoding pads the last group to four characters with the equals sign.\<close>

definition std_pad :: "bytes \<Rightarrow> string" where
  "std_pad bs = replicate ((3 - length bs mod 3) mod 3) (CHR ''='')"

definition b64std_encode :: "bytes \<Rightarrow> string" where
  "b64std_encode bs = map (\<lambda>n. std_alphabet ! n) (sextets bs) @ std_pad bs"

fun b64std_groups :: "string \<Rightarrow> nat list option" where
  "b64std_groups [] = Some []"
| "b64std_groups [c, d, e, f] =
     (if e = CHR ''='' then (if f = CHR ''='' then b64_vals std_alphabet [c, d] else None)
      else if f = CHR ''='' then b64_vals std_alphabet [c, d, e]
      else b64_vals std_alphabet [c, d, e, f])"
| "b64std_groups (c # d # e # f # s) =
     (case b64_vals std_alphabet [c, d, e, f] of None \<Rightarrow> None
      | Some vs \<Rightarrow> map_option (\<lambda>r. vs @ r) (b64std_groups s))"
| "b64std_groups s = None"

definition b64std_decode :: "string \<Rightarrow> bytes option" where
  "b64std_decode s = Option.bind (b64std_groups (drop_newlines s)) unsextets"

subsection \<open>Round trips\<close>

lemma byte_div_bounds:
  fixes b :: byte
  shows "unat b div 4 < 64" "unat b div 16 < 16" "unat b div 64 < 4"
  using unat_byte_bound [of b] by (simp_all add: less_mult_imp_div_less)

lemma byte_div_simps:
  fixes b :: byte
  shows "unat b div 16 div 16 = 0" "unat b div 16 mod 16 = unat b div 16"
    "unat b div 64 div 4 = 0" "unat b div 64 mod 4 = unat b div 64"
  using byte_div_bounds [of b] by simp_all

lemma mod_mult_add_less:
  fixes a c m k :: nat
  assumes "c < k" "0 < m"
  shows "a mod m * k + c < m * k"
proof -
  have "a mod m + 1 \<le> m" using assms by (simp add: Suc_leI)
  then have "(a mod m + 1) * k \<le> m * k" by (rule mult_le_mono1)
  then show ?thesis using assms by (simp add: algebra_simps)
qed

lemma byte_sextet_bounds:
  fixes a b c :: byte
  shows "unat a div 4 < 64" "unat a mod 4 * 16 + unat b div 16 < 64"
    "unat b mod 16 * 4 + unat c div 64 < 64" "unat a mod 4 * 16 < 64"
    "unat b mod 16 * 4 < 64" "unat c mod 64 < 64"
  using byte_div_bounds mod_mult_add_less [of "unat b div 16" 16 4 "unat a"]
    mod_mult_add_less [of "unat c div 64" 4 16 "unat b"]
    mod_mult_add_less [of 0 16 4 "unat a"] mod_mult_add_less [of 0 4 16 "unat b"]
  by simp_all

lemma sextets_bound: "list_all (\<lambda>n. n < 64) (sextets bs)"
  by (induction bs rule: sextets.induct) (simp_all add: byte_sextet_bounds)

lemma unsextets_sextets [simp]: "unsextets (sextets bs) = Some bs"
  by (induction bs rule: sextets.induct)
    (simp_all add: byte_div_simps del: of_nat_add of_nat_mult)

lemma length_alphabets [simp]: "length url_alphabet = 64" "length std_alphabet = 64"
  by (simp_all add: url_alphabet_def std_alphabet_def)

lemma distinct_alphabets: "distinct url_alphabet" "distinct std_alphabet"
  by (simp_all add: url_alphabet_def std_alphabet_def)

lemma graph_alphabets:
  "list_all is_graph url_alphabet" "list_all is_graph std_alphabet" "CHR ''='' \<notin> set std_alphabet"
  by (simp_all add: url_alphabet_def std_alphabet_def is_graph_def)

lemma b64_val_nth:
  "distinct alpha \<Longrightarrow> length alpha = 64 \<Longrightarrow> n < 64 \<Longrightarrow> b64_val alpha (alpha ! n) = Some n"
  unfolding b64_val_def by (subst map_of_zip_nth) simp_all

lemma alphabet_facts:
  "\<forall>n < 64. b64_val url_alphabet (url_alphabet ! n) = Some n \<and> is_graph (url_alphabet ! n)"
  "\<forall>n < 64. b64_val std_alphabet (std_alphabet ! n) = Some n \<and> is_graph (std_alphabet ! n)"
  using graph_alphabets by (auto simp: b64_val_nth distinct_alphabets list_all_length)

lemma b64_vals_encode:
  assumes "\<forall>n < 64. b64_val alpha (alpha ! n) = Some n"
  shows "list_all (\<lambda>n. n < 64) ns \<Longrightarrow> b64_vals alpha (map (\<lambda>n. alpha ! n) ns) = Some ns"
  using assms by (induction ns) auto

lemma graph_not_newline: "is_graph c \<Longrightarrow> c \<noteq> CHR 0x0A \<and> c \<noteq> CHR 0x0D"
  by (auto simp: is_graph_def)

lemma drop_newlines_graph: "list_all is_graph s \<Longrightarrow> drop_newlines s = s"
  unfolding drop_newlines_def
  by (rule filter_True) (auto simp: list_all_iff dest: graph_not_newline)

lemma b64url_encode_graph: "list_all is_graph (b64url_encode bs)"
  using alphabet_facts(1) sextets_bound [of bs]
  by (auto simp: b64url_encode_def list_all_iff)

lemma b64url_encode_alphabet: "set (b64url_encode bs) \<subseteq> set url_alphabet"
  using sextets_bound [of bs] by (auto simp: b64url_encode_def list_all_iff)

lemma b64url_decode_encode [simp, codec_simps]: "b64url_decode (b64url_encode bs) = Some bs"
proof -
  have "b64_vals url_alphabet (b64url_encode bs) = Some (sextets bs)"
    unfolding b64url_encode_def
    by (rule b64_vals_encode [OF _ sextets_bound]) (use alphabet_facts(1) in blast)
  then show ?thesis
    by (simp add: b64url_decode_def drop_newlines_graph [OF b64url_encode_graph])
qed

lemma b64url_encode_inject [simp]: "b64url_encode a = b64url_encode b \<longleftrightarrow> a = b"
  by (metis b64url_decode_encode option.inject)

lemma b64url_encode_eq_Nil [simp]: "b64url_encode bs = [] \<longleftrightarrow> bs = []"
  by (cases bs rule: sextets.cases) (simp_all add: b64url_encode_def)

lemma trim_space_b64url_encode [simp, codec_simps]:
  "trim_space (b64url_encode bs) = b64url_encode bs"
  by (rule trim_space_graph [OF b64url_encode_graph])

lemma b64std_encode_graph: "list_all is_graph (b64std_encode bs)"
  using alphabet_facts(2) sextets_bound [of bs]
  by (auto simp: b64std_encode_def std_pad_def list_all_iff is_graph_def)

lemma length_mod_3_Cons3: "length (a # b # c # r) mod 3 = length r mod 3"
  by simp

lemma b64std_groups_append4:
  assumes "b64_vals std_alphabet [c, d, e, f] = Some vs" "e \<noteq> CHR ''=''" "f \<noteq> CHR ''=''"
  shows "b64std_groups (c # d # e # f # s) = map_option (\<lambda>r. vs @ r) (b64std_groups s)"
  using assms by (cases s) auto

lemma std_val: "n < 64 \<Longrightarrow> b64_val std_alphabet (std_alphabet ! n) = Some n"
  using alphabet_facts(2) by blast

lemma std_not_pad: "n < 64 \<Longrightarrow> std_alphabet ! n \<noteq> CHR ''=''"
  by (metis graph_alphabets(3) length_alphabets(2) nth_mem)

lemma b64std_groups_encode: "b64std_groups (b64std_encode bs) = Some (sextets bs)"
proof (induction bs rule: sextets.induct)
  case (4 a b c r)
  have "b64std_encode (a # b # c # r) =
    map (\<lambda>n. std_alphabet ! n) (take 4 (sextets (a # b # c # r))) @ b64std_encode r"
    by (simp add: b64std_encode_def std_pad_def length_mod_3_Cons3)
  then show ?case
    using 4 by (simp add: b64std_groups_append4 std_val std_not_pad byte_sextet_bounds)
qed (simp_all add: b64std_encode_def std_pad_def std_val std_not_pad byte_sextet_bounds
      numeral_2_eq_2)

lemma b64std_decode_encode [simp, codec_simps]: "b64std_decode (b64std_encode bs) = Some bs"
  by (simp add: b64std_decode_def drop_newlines_graph [OF b64std_encode_graph]
      b64std_groups_encode)

lemma trim_space_b64std_encode [simp, codec_simps]:
  "trim_space (b64std_encode bs) = b64std_encode bs"
  by (rule trim_space_graph [OF b64std_encode_graph])

section \<open>The codec interface\<close>

text \<open>
  What every text encoding of the program promises its callers: decoding undoes encoding, and
  the encoded text is plain graphic ASCII, so trimming or embedding it loses nothing.
\<close>

locale text_codec =
  fixes enc :: "bytes \<Rightarrow> string" and dec :: "string \<Rightarrow> bytes option"
  assumes dec_enc: "dec (enc bs) = Some bs"
    and enc_graph: "list_all is_graph (enc bs)"
begin

lemma enc_eq_iff: "enc a = enc b \<longleftrightarrow> a = b"
  by (metis dec_enc option.inject)

lemma dec_trim_enc: "dec (trim_space (enc bs)) = Some bs"
  by (simp add: trim_space_graph [OF enc_graph] dec_enc)

lemma enc_no_char: "\<not> is_graph c \<Longrightarrow> c \<notin> set (enc bs)"
  using enc_graph [of bs] by (auto simp: list_all_iff)

end

interpretation hex: text_codec hex_encode hex_decode
  by unfold_locales (simp_all add: hex_encode_graph)

interpretation b64url: text_codec b64url_encode b64url_decode
  by unfold_locales (simp_all add: b64url_encode_graph)

interpretation b64std: text_codec b64std_encode b64std_decode
  by unfold_locales (simp_all add: b64std_encode_graph)

section \<open>Package time\<close>

text \<open>
  A \<^verbatim>\<open>time.Time\<close> is the number of nanoseconds since the Unix epoch; the zero \<^verbatim>\<open>Time\<close> is
  January 1 of year 1. A \<^verbatim>\<open>time.Duration\<close> is an int64 count of nanoseconds: its products wrap,
  and \<^verbatim>\<open>Time.Sub\<close> saturates. \<^verbatim>\<open>time.Unix\<close> shifts its argument to the internal epoch in
  wrapping int64 arithmetic.
\<close>

type_synonym gotime = int
type_synonym duration = int

definition second :: duration where "second = 1000000000"

definition unix_to_internal :: int where "unix_to_internal = 62135596800"

definition zero_time :: gotime where "zero_time = - (unix_to_internal * second)"

definition unix :: "gotime \<Rightarrow> int" where "unix t = t div second"

definition time_unix :: "int \<Rightarrow> gotime" where
  "time_unix s = (wrap64 (s + unix_to_internal) - unix_to_internal) * second"

definition seconds :: "int \<Rightarrow> duration" where
  "seconds n = wrap64 (n * second)"

definition time_sub :: "gotime \<Rightarrow> gotime \<Rightarrow> duration" where
  "time_sub t u = max (- (2 ^ 63)) (min (2 ^ 63 - 1) (t - u))"

lemma second_pos [simp]: "0 < second" by (simp add: second_def)

lemma unix_mono: "s \<le> t \<Longrightarrow> unix s \<le> unix t"
  by (simp add: unix_def zdiv_mono1)

lemma time_unix_small: "\<bar>s\<bar> < 2 ^ 62 \<Longrightarrow> time_unix s = s * second"
  using wrap64_id [of "s + unix_to_internal"]
  by (simp add: time_unix_def unix_to_internal_def is_int64_def abs_less_iff)

lemma is_int64_unix: "\<bar>t\<bar> < 2 ^ 92 \<Longrightarrow> is_int64 (unix t)"
proof -
  assume t: "\<bar>t\<bar> < 2 ^ 92"
  have 1: "- (2 ^ 63) * second \<le> t" and 2: "t < 2 ^ 63 * second" using t by (simp_all add: second_def)
  have "- (2 ^ 63) \<le> t div second" using zdiv_mono1 [OF 1, of second] by (simp add: second_def)
  moreover have "t div second < 2 ^ 63"
  proof (rule ccontr)
    assume "\<not> t div second < 2 ^ 63"
    then have "2 ^ 63 * second \<le> t div second * second" by simp
    also have "\<dots> \<le> t" using div_mult_mod_eq [of t second] pos_mod_sign [OF second_pos, of t] by linarith
    finally show False using 2 by simp
  qed
  ultimately show ?thesis
    unfolding is_int64_def unix_def by simp
qed
text \<open>Finding a separator behind a part of the text that does not contain its last character.\<close>

lemma cut_found:
  assumes "\<And>k. k < length a \<Longrightarrow> \<not> prefix sep (drop k (a @ sep @ b))"
  shows "cut sep (a @ sep @ b) = Some (a, b)"
  using assms
proof (induction a)
  case Nil
  then show ?case by (subst cut.simps) simp
next
  case (Cons c a)
  have "\<not> prefix sep (drop k (a @ sep @ b))" if "k < length a" for k
    using Cons.prems [of "Suc k"] that by simp
  with Cons.IH have "cut sep (a @ sep @ b) = Some (a, b)" by blast
  moreover have "\<not> prefix sep (c # a @ sep @ b)" using Cons.prems [of 0] by simp
  ultimately show ?case by (subst cut.simps) simp
qed

lemma not_prefix_last:
  assumes "sep = w @ [d]" "d \<notin> set (take (Suc (length w)) x)"
  shows "\<not> prefix sep x"
proof
  assume "prefix sep x"
  then have "take (Suc (length w)) x = w @ [d]" using assms(1) by (auto simp: prefix_def)
  then show False using assms(2) by simp
qed

lemma cut_found_char:
  assumes "d \<notin> set a" "d \<notin> set w"
  shows "cut (w @ [d]) (a @ (w @ [d]) @ b) = Some (a, b)"
proof (rule cut_found)
  fix k
  assume k: "k < length a"
  have "drop k (a @ (w @ [d]) @ b) = (drop k a @ w) @ d # b" using k by simp
  moreover have "take (Suc (length w)) ((drop k a @ w) @ d # b) = take (Suc (length w)) (drop k a @ w)"
    using k by simp
  moreover have "d \<notin> set (take (Suc (length w)) (drop k a @ w))"
    using assms in_set_takeD [of d _ "drop k a @ w"] in_set_dropD [of d k a] by auto
  ultimately have "d \<notin> set (take (Suc (length w)) (drop k (a @ (w @ [d]) @ b)))" by simp
  then show "\<not> prefix (w @ [d]) (drop k (a @ (w @ [d]) @ b))"
    using not_prefix_last [of "w @ [d]" w d] by blast
qed

lemma cut_skip:
  "c \<notin> set pre \<Longrightarrow> cut (c # w) (pre @ s) = map_option (\<lambda>(a, b). (pre @ a, b)) (cut (c # w) s)"
proof (induction pre)
  case Nil
  then show ?case by (cases "cut (c # w) s") auto
next
  case (Cons d pre)
  then show ?case by (subst cut.simps) (cases "cut (c # w) s"; simp split: prod.splits)
qed

end
