(* ===== verification/Machine.thy ===== *)
theory Machine
  imports Prelude
begin

text \<open>
  Sequences of operations on a component with state. The stores and servers of the program
  guard their state with a mutex, so an execution is a sequence of complete operations in the
  order in which they took the lock; \<open>run_io\<close> replays such a sequence and records what each
  operation answered. The locale states what a component owes to reason about all its
  executions, and proves the two arguments the components share: invariants along a run, and
  potential (amortised counting) arguments.
\<close>

fun run_io :: "('s \<Rightarrow> 'i \<Rightarrow> 's \<times> 'o) \<Rightarrow> 's \<Rightarrow> 'i list \<Rightarrow> 's \<times> ('i \<times> 'o) list" where
  "run_io step s [] = (s, [])"
| "run_io step s (i # is) =
     (case step s i of (s', out) \<Rightarrow>
        (case run_io step s' is of (s'', tr) \<Rightarrow> (s'', (i, out) # tr)))"

definition run_state :: "('s \<Rightarrow> 'i \<Rightarrow> 's \<times> 'o) \<Rightarrow> 's \<Rightarrow> 'i list \<Rightarrow> 's" where
  "run_state step s is = fst (run_io step s is)"

definition run_trace :: "('s \<Rightarrow> 'i \<Rightarrow> 's \<times> 'o) \<Rightarrow> 's \<Rightarrow> 'i list \<Rightarrow> ('i \<times> 'o) list" where
  "run_trace step s is = snd (run_io step s is)"

lemma run_state_simps [simp]:
  "run_state step s [] = s"
  "run_state step s (i # is) = run_state step (fst (step s i)) is"
  by (simp_all add: run_state_def split: prod.splits)

lemma run_trace_simps [simp]:
  "run_trace step s [] = []"
  "run_trace step s (i # is) = (i, snd (step s i)) # run_trace step (fst (step s i)) is"
  by (simp_all add: run_trace_def split: prod.splits)

lemma run_state_append [simp]:
  "run_state step s (is @ js) = run_state step (run_state step s is) js"
  by (induction "is" arbitrary: s) simp_all

lemma run_trace_append [simp]:
  "run_trace step s (is @ js) = run_trace step s is @ run_trace step (run_state step s is) js"
  by (induction "is" arbitrary: s) simp_all

lemma length_run_trace [simp]: "length (run_trace step s is) = length is"
  by (induction "is" arbitrary: s) simp_all

lemma run_trace_entry:
  "(i, out) \<in> set (run_trace step s is) \<Longrightarrow>
   \<exists>pre post. is = pre @ i # post \<and> out = snd (step (run_state step s pre) i)"
proof (induction "is" arbitrary: s)
  case (Cons j "is")
  show ?case
  proof (cases "(i, out) = (j, snd (step s j))")
    case True
    show ?thesis by (rule exI [of _ "[]"], rule exI [of _ "is"]) (use True in simp)
  next
    case False
    then obtain pre post where split: "is = pre @ i # post" "out = snd (step (run_state step (fst (step s j)) pre) i)"
      using Cons.IH [of "fst (step s j)"] Cons.prems by auto
    show ?thesis by (rule exI [of _ "j # pre"], rule exI [of _ post]) (use split in simp)
  qed
qed simp

text \<open>The number of entries of a trace that satisfy a test.\<close>

definition count_io :: "('i \<Rightarrow> 'o \<Rightarrow> bool) \<Rightarrow> ('i \<times> 'o) list \<Rightarrow> nat" where
  "count_io P tr = length (filter (\<lambda>(i, out). P i out) tr)"

lemma count_io_simps [simp]:
  "count_io P [] = 0"
  "count_io P ((i, out) # tr) = (if P i out then 1 else 0) + count_io P tr"
  by (simp_all add: count_io_def)

lemma count_io_append [simp]: "count_io P (tr @ tr') = count_io P tr + count_io P tr'"
  by (simp add: count_io_def)

text \<open>
  A machine keeps its invariant under the inputs that satisfy a side condition (well-formed requests,
  clean writes). Along a run of such inputs the invariant holds throughout, and if each operation's
  cost and the new potential are paid for by the old potential and the operation's income, then so
  it is for the whole run.
\<close>

locale guarded_machine =
  fixes step :: "'s \<Rightarrow> 'i \<Rightarrow> 's \<times> 'o"
    and sane :: "'i \<Rightarrow> bool"
    and invar :: "'s \<Rightarrow> bool"
  assumes invar_sane_step: "invar s \<Longrightarrow> sane i \<Longrightarrow> invar (fst (step s i))"
begin

lemma invar_sane_run: "invar s \<Longrightarrow> list_all sane is \<Longrightarrow> invar (run_state step s is)"
  by (induction "is" arbitrary: s) (simp_all add: invar_sane_step)

lemma sane_run_potential:
  fixes cost income :: "'i \<Rightarrow> 'o \<Rightarrow> int" and pot :: "'s \<Rightarrow> int"
  assumes pay: "\<And>s i. invar s \<Longrightarrow> sane i \<Longrightarrow>
      cost i (snd (step s i)) + pot (fst (step s i)) \<le> pot s + income i (snd (step s i))"
    and "invar s" "list_all sane is"
  shows "sum_list (map (\<lambda>(i, out). cost i out) (run_trace step s is)) + pot (run_state step s is)
      \<le> pot s + sum_list (map (\<lambda>(i, out). income i out) (run_trace step s is))"
  using assms(2,3)
proof (induction "is" arbitrary: s)
  case Nil
  then show ?case by simp
next
  case (Cons i "is")
  from Cons.prems have i: "sane i" "list_all sane is" by simp_all
  from Cons.IH [OF invar_sane_step [OF Cons.prems(1) i(1)] i(2)] pay [OF Cons.prems(1) i(1)]
  show ?case by simp
qed

text \<open>A fact that every operation other than the excluded ones keeps survives a run of others.\<close>

lemma sane_run_stable:
  assumes "\<And>s i. invar s \<Longrightarrow> sane i \<Longrightarrow> Q s \<Longrightarrow> \<not> R i (snd (step s i)) \<Longrightarrow> Q (fst (step s i))"
  shows "invar s \<Longrightarrow> list_all sane is \<Longrightarrow> Q s \<Longrightarrow> (\<forall>(i, out) \<in> set (run_trace step s is). \<not> R i out) \<Longrightarrow>
    Q (run_state step s is)"
  by (induction "is" arbitrary: s) (auto simp: invar_sane_step assms)

end

text \<open>A machine without a side condition.\<close>

locale io_machine =
  fixes step :: "'s \<Rightarrow> 'i \<Rightarrow> 's \<times> 'o"
    and invar :: "'s \<Rightarrow> bool"
  assumes invar_step: "invar s \<Longrightarrow> invar (fst (step s i))"
begin

sublocale total: guarded_machine step "\<lambda>_. True" invar
  by unfold_locales (rule invar_step)

lemma invar_run: "invar s \<Longrightarrow> invar (run_state step s is)"
  by (rule total.invar_sane_run) (simp_all add: list_all_iff)

lemma run_potential:
  fixes cost income :: "'i \<Rightarrow> 'o \<Rightarrow> int" and pot :: "'s \<Rightarrow> int"
  assumes pay: "\<And>s i. invar s \<Longrightarrow>
      cost i (snd (step s i)) + pot (fst (step s i)) \<le> pot s + income i (snd (step s i))"
    and "invar s"
  shows "sum_list (map (\<lambda>(i, out). cost i out) (run_trace step s is)) + pot (run_state step s is)
      \<le> pot s + sum_list (map (\<lambda>(i, out). income i out) (run_trace step s is))"
  by (rule total.sane_run_potential) (simp_all add: assms list_all_iff)

lemma run_stable:
  assumes "\<And>s i. invar s \<Longrightarrow> Q s \<Longrightarrow> \<not> R i (snd (step s i)) \<Longrightarrow> Q (fst (step s i))"
    and "invar s" "Q s" "\<forall>(i, out) \<in> set (run_trace step s is). \<not> R i out"
  shows "Q (run_state step s is)"
  by (rule total.sane_run_stable [where R = R]) (use assms in \<open>simp_all add: list_all_iff\<close>)

end

lemma sum_list_of_bool_count:
  "sum_list (map (\<lambda>(i, out). of_bool (P i out) :: int) tr) = int (count_io P tr)"
  by (induction tr) auto

lemma sum_list_scaled_count:
  "sum_list (map (\<lambda>(i, out). k * of_bool (P i out) :: int) tr) = k * int (count_io P tr)"
  by (induction tr) (auto simp: algebra_simps)

section \<open>Simulation\<close>

text \<open>
  A concrete machine whose every input is matched by a run of an abstract one. What the concrete
  outputs are worth is then bounded by what the abstract outputs are worth: \<open>pays\<close> relates an input
  and output to the abstract run that matches it.
\<close>

locale simulation =
  fixes cstep :: "'s \<Rightarrow> 'i \<Rightarrow> 's \<times> 'o"
    and astep :: "'t \<Rightarrow> 'j \<Rightarrow> 't \<times> 'p"
    and abstr :: "'s \<Rightarrow> 't"
    and cinv :: "'s \<Rightarrow> bool"
    and csane :: "'i \<Rightarrow> bool"
    and asane :: "'j \<Rightarrow> bool"
    and pays :: "'i \<Rightarrow> 'o \<Rightarrow> ('j \<times> 'p) list \<Rightarrow> bool"
  assumes matched: "cinv s \<Longrightarrow> csane i \<Longrightarrow>
      \<exists>js. list_all asane js \<and> abstr (fst (cstep s i)) = run_state astep (abstr s) js
        \<and> pays i (snd (cstep s i)) (run_trace astep (abstr s) js)"
    and cinv_step: "cinv s \<Longrightarrow> csane i \<Longrightarrow> cinv (fst (cstep s i))"
begin

sublocale concrete: guarded_machine cstep csane cinv
  by unfold_locales (rule cinv_step)

lemma simulated_run:
  fixes f :: "'i \<Rightarrow> 'o \<Rightarrow> int" and g :: "'j \<Rightarrow> 'p \<Rightarrow> int"
  assumes "cinv s" "list_all csane is"
    and worth: "\<And>i out tr. pays i out tr \<Longrightarrow> f i out \<le> sum_list (map (\<lambda>(j, p). g j p) tr)"
  shows "\<exists>js. list_all asane js \<and> abstr (run_state cstep s is) = run_state astep (abstr s) js
    \<and> sum_list (map (\<lambda>(i, out). f i out) (run_trace cstep s is))
        \<le> sum_list (map (\<lambda>(j, p). g j p) (run_trace astep (abstr s) js))"
  using assms(1,2)
proof (induction "is" arbitrary: s)
  case Nil
  show ?case by (rule exI [of _ "[]"]) simp
next
  case (Cons i "is")
  from Cons.prems have i: "csane i" "list_all csane is" by simp_all
  obtain js where js: "list_all asane js" "abstr (fst (cstep s i)) = run_state astep (abstr s) js"
    "pays i (snd (cstep s i)) (run_trace astep (abstr s) js)"
    using matched [OF Cons.prems(1) i(1)] by blast
  obtain ks where ks: "list_all asane ks"
    "abstr (run_state cstep (fst (cstep s i)) is) = run_state astep (abstr (fst (cstep s i))) ks"
    "sum_list (map (\<lambda>(i, out). f i out) (run_trace cstep (fst (cstep s i)) is))
        \<le> sum_list (map (\<lambda>(j, p). g j p) (run_trace astep (abstr (fst (cstep s i))) ks))"
    using Cons.IH [OF cinv_step [OF Cons.prems(1) i(1)] i(2)] by blast
  show ?case
    using js ks worth [OF js(3)] by (intro exI [of _ "js @ ks"]) (simp add: js(2) [symmetric])
qed

end

end
