(* ===== verification/Mailbox.thy ===== *)
theory Mailbox
  imports GoStd Machine
begin

text \<open>
  Package \<^verbatim>\<open>mailbox\<close>: the mailbox-control gate. Canonical addresses, the keyed bucket id, and the
  in-memory store of mail challenges with its single-use, binding-bound, attempt-limited
  codes. SHA-256 and HMAC-SHA256 are parameters.
\<close>

section \<open>Definitions\<close>

datatype gate_error =
    ErrMalformedEmail | ErrNoPending | ErrExpired | ErrBindingMismatch | ErrWrongCode | ErrEntropy

definition MaxCodeAttempts :: int where "MaxCodeAttempts = 3"

definition mailbox_Platform :: string where "mailbox_Platform = ''mailbox''"

definition bucketDomain :: string where
  "bucketDomain = ''eat-pass/v1/mailbox-id'' @ [CHR 0x00]"

text \<open>The UTF-8 encodings of the runes for which \<^verbatim>\<open>unicode.IsControl\<close> holds.\<close>

definition control_seqs :: "string list" where
  "control_seqs = map (\<lambda>n. [char_of n]) ([0..<32] @ [127 :: nat])
     @ map (\<lambda>n. [char_of (194 :: nat), char_of n]) [128..<160 :: nat]"

definition contains_sub :: "string \<Rightarrow> string \<Rightarrow> bool" where
  "contains_sub s w \<longleftrightarrow> cut w s \<noteq> None"

definition has_space_or_control :: "string \<Rightarrow> bool" where
  "has_space_or_control s \<longleftrightarrow> list_ex (contains_sub s) (space_seqs @ control_seqs)"

definition CanonicalEmail :: "utables \<Rightarrow> string \<Rightarrow> (gate_error, string) result" where
  "CanonicalEmail u raw =
     (let s = to_lower u (trim_space raw) in
      case cut ''@'' s of
        None \<Rightarrow> Inl ErrMalformedEmail
      | Some (local, domain) \<Rightarrow>
          if local = [] \<or> domain = [] \<or> contains_sub domain ''@'' then Inl ErrMalformedEmail
          else if has_space_or_control s then Inl ErrMalformedEmail
          else Inr s)"

definition BucketID :: "(bytes \<Rightarrow> bytes \<Rightarrow> bytes) \<Rightarrow> bytes \<Rightarrow> string \<Rightarrow> bytes" where
  "BucketID hmac gateKey canonical = hmac gateKey (bytes_of bucketDomain @ bytes_of canonical)"

definition hashCode :: "(bytes \<Rightarrow> bytes) \<Rightarrow> string \<Rightarrow> bytes" where
  "hashCode sha256 code = sha256 (bytes_of code)"

record pending =
  p_codeHash :: bytes
  p_binding :: bytes
  p_exp :: u64
  p_attempts :: int

record challenge_store =
  pendings :: "string \<rightharpoonup> pending"
  cs_ttl :: u64

definition NewChallengeStore :: "u64 \<Rightarrow> challenge_store" where
  "NewChallengeStore ttlSeconds =
     \<lparr>pendings = Map.empty, cs_ttl = (if ttlSeconds = 0 then 1 else ttlSeconds)\<rparr>"

text \<open>\<open>six_digits n\<close> is \<^verbatim>\<open>fmt.Sprintf("%06d", n)\<close> for a number below one million.\<close>

definition digit_char :: "nat \<Rightarrow> char" where
  "digit_char d = char_of (48 + d mod 10)"

definition six_digits :: "nat \<Rightarrow> string" where
  "six_digits n = map (\<lambda>k. digit_char (n div 10 ^ k)) [5, 4, 3, 2, 1, 0]"

text \<open>\<open>rnd\<close> is the four bytes \<^verbatim>\<open>rand.Read\<close> filled in, \<open>None\<close> when it failed.\<close>

definition Create ::
  "utables \<Rightarrow> (bytes \<Rightarrow> bytes) \<Rightarrow> challenge_store \<Rightarrow> string \<Rightarrow> bytes \<Rightarrow> u64 \<Rightarrow> bytes option \<Rightarrow>
   challenge_store \<times> (gate_error, string) result" where
  "Create u sha256 st email binding now rnd =
     (case CanonicalEmail u email of
        Inl e \<Rightarrow> (st, Inl e)
      | Inr canonical \<Rightarrow>
          (case rnd of
             None \<Rightarrow> (st, Inl ErrEntropy)
           | Some raw \<Rightarrow>
               (let code = six_digits (unat (be_word raw :: u32) mod 1000000);
                    live = delete_where (\<lambda>_ p. p_exp p \<le> now) (pendings st)
                in (st\<lparr>pendings := live(canonical \<mapsto>
                        \<lparr>p_codeHash = hashCode sha256 code, p_binding = binding,
                         p_exp = now + cs_ttl st, p_attempts = 0\<rparr>)\<rparr>,
                    Inr code))))"

definition Verify ::
  "utables \<Rightarrow> (bytes \<Rightarrow> bytes) \<Rightarrow> challenge_store \<Rightarrow> string \<Rightarrow> string \<Rightarrow> bytes \<Rightarrow> u64 \<Rightarrow>
   challenge_store \<times> (gate_error, string) result" where
  "Verify u sha256 st email code expectedBinding now =
     (case CanonicalEmail u email of
        Inl e \<Rightarrow> (st, Inl e)
      | Inr canonical \<Rightarrow>
          (case pendings st canonical of
             None \<Rightarrow> (st, Inl ErrNoPending)
           | Some entry \<Rightarrow>
               if p_exp entry \<le> now then
                 (st\<lparr>pendings := (pendings st)(canonical := None)\<rparr>, Inl ErrExpired)
               else if p_binding entry \<noteq> expectedBinding then (st, Inl ErrBindingMismatch)
               else if p_codeHash entry \<noteq> hashCode sha256 (trim_space code) then
                 (let entry' = entry\<lparr>p_attempts := p_attempts entry + 1\<rparr> in
                  if p_attempts entry' \<ge> MaxCodeAttempts
                  then (st\<lparr>pendings := (pendings st)(canonical := None)\<rparr>, Inl ErrWrongCode)
                  else (st\<lparr>pendings := (pendings st)(canonical \<mapsto> entry')\<rparr>, Inl ErrWrongCode))
               else (st\<lparr>pendings := (pendings st)(canonical := None)\<rparr>, Inr canonical)))"

text \<open>The store's operations as the inputs of a machine.\<close>

datatype mbx_op =
    MCreate string bytes u64 "bytes option"
  | MVerify string string bytes u64

fun mbx_step ::
  "utables \<Rightarrow> (bytes \<Rightarrow> bytes) \<Rightarrow> challenge_store \<Rightarrow> mbx_op \<Rightarrow>
   challenge_store \<times> (gate_error, string) result" where
  "mbx_step u h st (MCreate email b now rnd) = Create u h st email b now rnd"
| "mbx_step u h st (MVerify email code b now) = Verify u h st email code b now"

section \<open>Canonical addresses\<close>

lemma contains_sub_char [simp]: "contains_sub s [c] \<longleftrightarrow> c \<in> set s"
proof
  assume "contains_sub s [c]"
  then obtain a b where "cut [c] s = Some (a, b)" by (auto simp: contains_sub_def)
  then show "c \<in> set s" by (auto simp: cut_char_Some)
next
  assume "c \<in> set s"
  then obtain a b where "s = a @ c # b" "c \<notin> set a" by (metis split_list_first)
  then show "contains_sub s [c]" by (simp add: contains_sub_def cut_char_append)
qed

lemma cut_prefix_start: "prefix w s \<Longrightarrow> cut w s \<noteq> None"
  by (subst cut.simps) simp

lemma cut_Cons: "cut w s \<noteq> None \<Longrightarrow> cut w (c # s) \<noteq> None"
  by (subst cut.simps) auto

lemma cut_append_left: "cut w s \<noteq> None \<Longrightarrow> cut w (t @ s) \<noteq> None"
  by (induction t) (simp_all add: cut_Cons del: not_None_eq)

lemma suffix_contains: "suffix w s \<Longrightarrow> contains_sub s w"
  unfolding contains_sub_def suffix_def
  by (metis cut_append_left cut_prefix_start prefix_order.refl)

lemma prefix_contains: "prefix w s \<Longrightarrow> contains_sub s w"
  unfolding contains_sub_def by (rule cut_prefix_start)

lemma trim_space_no_space:
  assumes "\<not> has_space_or_control s"
  shows "trim_space s = s"
proof -
  have no: "\<not> contains_sub s w" if "w \<in> set space_seqs" for w
    using assms that by (auto simp: has_space_or_control_def list_ex_iff)
  have left: "trim_left s = s"
    unfolding trim_left_def by (rule strip_prefixes_id) (metis no prefix_contains)
  have "strip_prefixes (map rev space_seqs) (rev s) = rev s"
    by (rule strip_prefixes_id) (use no suffix_contains in \<open>fastforce simp: suffix_to_prefix\<close>)
  then show ?thesis by (simp add: trim_space_def left trim_right_def)
qed

lemma cut_Cons_eq:
  "cut w (c # s) =
     (if prefix w (c # s) then Some ([], drop (length w) (c # s))
      else map_option (\<lambda>(a, b). (c # a, b)) (cut w s))"
  by (subst cut.simps) simp

lemma cut_Some_append: "cut w s = Some (a, b) \<Longrightarrow> s = a @ w @ b"
proof (induction s arbitrary: a b)
  case Nil
  then show ?case by (subst (asm) cut.simps) (auto split: if_splits)
next
  case (Cons c s)
  from Cons.prems show ?case
    unfolding cut_Cons_eq by (auto simp: prefix_def split: if_splits dest: Cons.IH)
qed

lemma contains_sub_set: "contains_sub s w \<Longrightarrow> set w \<subseteq> set s"
  by (auto simp: contains_sub_def dest!: cut_Some_append)

lemma forbidden_seqs_not_graph:
  "w \<in> set (space_seqs @ control_seqs) \<Longrightarrow> \<exists>c \<in> set w. \<not> is_graph c"
  by (auto simp: control_seqs_def is_graph_def dest!: space_seqs_ends_not_graph intro: hd_in_set)

lemma graph_no_space_or_control: "list_all is_graph s \<Longrightarrow> \<not> has_space_or_control s"
  using contains_sub_set forbidden_seqs_not_graph
  by (fastforce simp: has_space_or_control_def list_ex_iff list_all_iff)

lemma ascii_lower_idem [simp]: "ascii_lower (ascii_lower c) = ascii_lower c"
  by (auto simp: ascii_lower_def)

lemma is_ascii_lower [simp]: "is_ascii (ascii_lower c) = is_ascii c"
  by (auto simp: ascii_lower_def is_ascii_def)

lemma to_lower_ascii_idem:
  "list_all is_ascii s \<Longrightarrow> to_lower u (to_lower u s) = to_lower u s"
  by (simp add: to_lower_def list_all_iff)

lemma CanonicalEmail_Inr_iff:
  "CanonicalEmail u raw = Inr s \<longleftrightarrow>
     s = to_lower u (trim_space raw) \<and> \<not> has_space_or_control s \<and>
     (\<exists>local domain. s = local @ CHR ''@'' # domain \<and> local \<noteq> [] \<and> domain \<noteq> []
        \<and> CHR ''@'' \<notin> set local \<and> CHR ''@'' \<notin> set domain)"
proof -
  let ?s = "to_lower u (trim_space raw)"
  show ?thesis
  proof (cases "cut ''@'' ?s")
    case None
    then show ?thesis
      by (auto simp: CanonicalEmail_def) (metis cut_char_append option.distinct(1))
  next
    case (Some ab)
    then obtain a b where ab: "cut ''@'' ?s = Some (a, b)" by (cases ab) auto
    then have split: "?s = a @ CHR ''@'' # b" "CHR ''@'' \<notin> set a"
      by (simp_all add: cut_char_Some)
    have uniq: "l = a \<and> d = b" if "?s = l @ CHR ''@'' # d" "CHR ''@'' \<notin> set l" for l d
      using ab that by (simp add: cut_char_append)
    have val: "CanonicalEmail u raw =
        (if a = [] \<or> b = [] \<or> CHR ''@'' \<in> set b \<or> has_space_or_control ?s
         then Inl ErrMalformedEmail else Inr ?s)"
      by (simp add: CanonicalEmail_def ab Let_def)
    show ?thesis
      unfolding val using split uniq by (metis Inr_inject Inr_not_Inl)
  qed
qed

lemma CanonicalEmail_idem:
  assumes "CanonicalEmail u raw = Inr s" "list_all is_ascii (trim_space raw)"
  shows "CanonicalEmail u s = Inr s"
  using assms unfolding CanonicalEmail_Inr_iff
  by (metis trim_space_no_space to_lower_ascii_idem)

section \<open>The challenge store as a machine\<close>

definition mbx_inv :: "challenge_store \<Rightarrow> bool" where
  "mbx_inv st \<longleftrightarrow>
     (\<forall>a p. pendings st a = Some p \<longrightarrow> 0 \<le> p_attempts p \<and> p_attempts p < MaxCodeAttempts)"

lemma mbx_invD:
  "mbx_inv st \<Longrightarrow> pendings st a = Some p \<Longrightarrow> 0 \<le> p_attempts p \<and> p_attempts p < 3"
  by (auto simp: mbx_inv_def MaxCodeAttempts_def)

lemma mbx_inv_New [inv_intros]: "mbx_inv (NewChallengeStore n)"
  by (simp add: mbx_inv_def NewChallengeStore_def)

lemma mbx_inv_Create [inv_intros]: "mbx_inv st \<Longrightarrow> mbx_inv (fst (Create u h st email b now rnd))"
  by (auto simp: Create_def mbx_inv_def Let_def MaxCodeAttempts_def split: sum.splits option.splits)

lemma mbx_inv_Verify [inv_intros]: "mbx_inv st \<Longrightarrow> mbx_inv (fst (Verify u h st email code b now))"
  by (auto simp: Verify_def mbx_inv_def Let_def split: sum.splits option.splits)

interpretation mbx: io_machine "mbx_step u h" mbx_inv for u h
proof
  fix s i
  assume "mbx_inv s"
  then show "mbx_inv (fst (mbx_step u h s i))"
    by (cases i) (simp_all add: inv_intros)
qed

lemma Verify_Inr_iff:
  "Verify u h st email code b now = (st', Inr a) \<longleftrightarrow>
     CanonicalEmail u email = Inr a \<and>
     (\<exists>p. pendings st a = Some p \<and> now < p_exp p \<and> p_binding p = b
        \<and> p_codeHash p = hashCode h (trim_space code)
        \<and> st' = st\<lparr>pendings := (pendings st)(a := None)\<rparr>)"
  by (auto simp: Verify_def Let_def not_le split: sum.splits option.splits if_splits)

lemma Create_Inr_iff:
  "Create u h st email b now rnd = (st', Inr code) \<longleftrightarrow>
     (\<exists>a raw. CanonicalEmail u email = Inr a \<and> rnd = Some raw
        \<and> code = six_digits (unat (be_word raw :: u32) mod 1000000)
        \<and> st' = st\<lparr>pendings := (delete_where (\<lambda>_ p. p_exp p \<le> now) (pendings st))(a \<mapsto>
             \<lparr>p_codeHash = hashCode h code, p_binding = b, p_exp = now + cs_ttl st,
              p_attempts = 0\<rparr>)\<rparr>)"
  by (auto simp: Create_def Let_def split: sum.splits option.splits)

text \<open>Which operations created, compared against, or accepted a challenge for an address.\<close>

fun created :: "utables \<Rightarrow> string \<Rightarrow> mbx_op \<Rightarrow> (gate_error, string) result \<Rightarrow> bool" where
  "created u a (MCreate email b now rnd) out \<longleftrightarrow> CanonicalEmail u email = Inr a \<and> is_ok out"
| "created u a (MVerify email code b now) out \<longleftrightarrow> False"

fun compared :: "utables \<Rightarrow> string \<Rightarrow> mbx_op \<Rightarrow> (gate_error, string) result \<Rightarrow> bool" where
  "compared u a (MCreate email b now rnd) out \<longleftrightarrow> False"
| "compared u a (MVerify email code b now) out \<longleftrightarrow>
     CanonicalEmail u email = Inr a \<and> (out = Inl ErrWrongCode \<or> is_ok out)"

fun accepted :: "utables \<Rightarrow> string \<Rightarrow> mbx_op \<Rightarrow> (gate_error, string) result \<Rightarrow> bool" where
  "accepted u a (MCreate email b now rnd) out \<longleftrightarrow> False"
| "accepted u a (MVerify email code b now) out \<longleftrightarrow> CanonicalEmail u email = Inr a \<and> is_ok out"

definition guesses_left :: "string \<Rightarrow> challenge_store \<Rightarrow> int" where
  "guesses_left a st =
     (case pendings st a of None \<Rightarrow> 0 | Some p \<Rightarrow> MaxCodeAttempts - p_attempts p)"

lemma guesses_left_nonneg: "mbx_inv st \<Longrightarrow> 0 \<le> guesses_left a st"
  by (auto simp: guesses_left_def MaxCodeAttempts_def split: option.splits dest: mbx_invD)

lemma mbx_guess_step:
  assumes inv: "mbx_inv st"
  shows "of_bool (compared u a i (snd (mbx_step u h st i))) + guesses_left a (fst (mbx_step u h st i))
      \<le> guesses_left a st + MaxCodeAttempts * of_bool (created u a i (snd (mbx_step u h st i)))"
proof (cases i)
  case (MCreate email b now rnd)
  then show ?thesis
    by (auto simp: Create_def Let_def guesses_left_def MaxCodeAttempts_def
        split: sum.splits option.splits dest: mbx_invD [OF inv])
next
  case (MVerify email code b now)
  then show ?thesis
    by (auto simp: Verify_def Let_def guesses_left_def MaxCodeAttempts_def
        split: sum.splits option.splits dest!: mbx_invD [OF inv])
qed

definition challenge_open :: "string \<Rightarrow> challenge_store \<Rightarrow> int" where
  "challenge_open a st = of_bool (pendings st a \<noteq> None)"

lemma mbx_accept_step:
  "of_bool (accepted u a i (snd (mbx_step u h st i))) + challenge_open a (fst (mbx_step u h st i))
     \<le> challenge_open a st + of_bool (created u a i (snd (mbx_step u h st i)))"
  by (cases i) (auto simp: Create_def Verify_def Let_def challenge_open_def delete_where_def
      split: sum.splits option.splits)

definition mbx_trace :: "utables \<Rightarrow> (bytes \<Rightarrow> bytes) \<Rightarrow> u64 \<Rightarrow> mbx_op list \<Rightarrow> (mbx_op \<times> (gate_error, string) result) list" where
  "mbx_trace u h ttl ops = run_trace (mbx_step u h) (NewChallengeStore ttl) ops"

text \<open>
  C24: Guessing is bounded. In every sequence of Create and Verify calls on a fresh challenge
  store, the number of codes compared against an address (accepted or refused as wrong) is at
  most three times the number of challenges created for it, and the number of accepted codes is
  at most the number of challenges created.
\<close>

theorem mailbox_guess_budget:
  "int (count_io (compared u a) (mbx_trace u h ttl ops))
           \<le> MaxCodeAttempts * int (count_io (created u a) (mbx_trace u h ttl ops))
       \<and> count_io (accepted u a) (mbx_trace u h ttl ops) \<le> count_io (created u a) (mbx_trace u h ttl ops)"
proof -
  let ?st = "NewChallengeStore ttl"
  let ?last = "run_state (mbx_step u h) ?st ops"
  note inv = mbx_inv_New [of ttl]
  have start: "guesses_left a ?st = 0" "challenge_open a ?st = 0"
    by (simp_all add: guesses_left_def challenge_open_def NewChallengeStore_def)
  have "int (count_io (compared u a) (mbx_trace u h ttl ops)) + guesses_left a ?last
      \<le> guesses_left a ?st + MaxCodeAttempts * int (count_io (created u a) (mbx_trace u h ttl ops))"
    using mbx.run_potential [where pot = "guesses_left a"
        and cost = "\<lambda>i out. of_bool (compared u a i out)"
        and income = "\<lambda>i out. MaxCodeAttempts * of_bool (created u a i out)",
        OF mbx_guess_step inv, of h ops]
    by (simp add: mbx_trace_def sum_list_of_bool_count sum_list_scaled_count)
  moreover have "int (count_io (accepted u a) (mbx_trace u h ttl ops)) + challenge_open a ?last
      \<le> challenge_open a ?st + int (count_io (created u a) (mbx_trace u h ttl ops))"
    using mbx.run_potential [where pot = "challenge_open a"
        and cost = "\<lambda>i out. of_bool (accepted u a i out)"
        and income = "\<lambda>i out. of_bool (created u a i out)",
        OF mbx_accept_step inv, of h ops]
    by (simp add: mbx_trace_def sum_list_of_bool_count)
  moreover have "0 \<le> guesses_left a ?last" "0 \<le> challenge_open a ?last"
    using mbx.invar_run [OF inv] by (simp_all add: guesses_left_nonneg challenge_open_def)
  ultimately show ?thesis using start by simp
qed

section \<open>Where an accepted code comes from\<close>

lemma cs_ttl_step [simp]: "cs_ttl (fst (mbx_step u h st i)) = cs_ttl st"
  by (cases i) (auto simp: Create_def Verify_def Let_def split: sum.splits option.splits)

lemma cs_ttl_run [simp]: "cs_ttl (run_state (mbx_step u h) st ops) = cs_ttl st"
  by (induction ops arbitrary: st) simp_all

lemma pending_after_Create:
  assumes "pendings (fst (Create u h st email b now rnd)) a = Some p"
    and "CanonicalEmail u email = Inr a" "is_ok (snd (Create u h st email b now rnd))"
  shows "\<exists>code. snd (Create u h st email b now rnd) = Inr code
      \<and> p_codeHash p = hashCode h code \<and> p_binding p = b \<and> p_exp p = now + cs_ttl st"
  using assms by (auto simp: Create_def Let_def split: option.splits)

lemma pending_unchanged:
  assumes "pendings (fst (mbx_step u h st i)) a = Some p"
    and "\<not> created u a i (snd (mbx_step u h st i))"
  shows "\<not> accepted u a i (snd (mbx_step u h st i)) \<and>
    (\<exists>q. pendings st a = Some q \<and> p_codeHash q = p_codeHash p \<and> p_binding q = p_binding p
       \<and> p_exp q = p_exp p)"
  using assms
  by (cases i) (auto simp: Create_def Verify_def Let_def split: sum.splits option.splits if_splits)

text \<open>
  \<open>issued_by u h ttl ops a hc b e\<close>: the last successful Create for address \<open>a\<close> in \<open>ops\<close> has
  binding \<open>b\<close>, answered a code with hash \<open>hc\<close> that expires at \<open>e\<close>, and no later operation
  accepted a code for \<open>a\<close>.
\<close>

definition issued_by ::
  "utables \<Rightarrow> (bytes \<Rightarrow> bytes) \<Rightarrow> u64 \<Rightarrow> mbx_op list \<Rightarrow> string \<Rightarrow> bytes \<Rightarrow> bytes \<Rightarrow> u64 \<Rightarrow> bool" where
  "issued_by u h ttl ops a hc b e \<longleftrightarrow>
     (\<exists>pre email t rnd mid code.
        ops = pre @ MCreate email b t rnd # mid
        \<and> CanonicalEmail u email = Inr a
        \<and> snd (mbx_step u h (run_state (mbx_step u h) (NewChallengeStore ttl) pre)
             (MCreate email b t rnd)) = Inr code
        \<and> hc = hashCode h code \<and> e = t + cs_ttl (NewChallengeStore ttl)
        \<and> (\<forall>(i, out) \<in> set (run_trace (mbx_step u h)
             (run_state (mbx_step u h) (NewChallengeStore ttl) (pre @ [MCreate email b t rnd])) mid).
             \<not> created u a i out \<and> \<not> accepted u a i out))"

lemma issued_by_snoc:
  assumes "issued_by u h ttl ops a hc b e"
    and "\<not> created u a i (snd (mbx_step u h (run_state (mbx_step u h) (NewChallengeStore ttl) ops) i))"
    and "\<not> accepted u a i (snd (mbx_step u h (run_state (mbx_step u h) (NewChallengeStore ttl) ops) i))"
  shows "issued_by u h ttl (ops @ [i]) a hc b e"
proof -
  from assms(1) obtain pre email t rnd mid code where *:
    "ops = pre @ MCreate email b t rnd # mid" "CanonicalEmail u email = Inr a"
    "snd (mbx_step u h (run_state (mbx_step u h) (NewChallengeStore ttl) pre)
         (MCreate email b t rnd)) = Inr code"
    "hc = hashCode h code" "e = t + cs_ttl (NewChallengeStore ttl)"
    "\<forall>(i, out) \<in> set (run_trace (mbx_step u h)
       (run_state (mbx_step u h) (NewChallengeStore ttl) (pre @ [MCreate email b t rnd])) mid).
       \<not> created u a i out \<and> \<not> accepted u a i out"
    unfolding issued_by_def by blast
  show ?thesis
    unfolding issued_by_def
    by (rule exI [of _ pre], rule exI [of _ email], rule exI [of _ t], rule exI [of _ rnd],
        rule exI [of _ "mid @ [i]"], rule exI [of _ code]) (use * assms(2,3) in auto)
qed

lemma pending_issued:
  "pendings (run_state (mbx_step u h) (NewChallengeStore ttl) ops) a = Some p \<Longrightarrow>
   issued_by u h ttl ops a (p_codeHash p) (p_binding p) (p_exp p)"
proof (induction ops arbitrary: p rule: rev_induct)
  case Nil
  then show ?case by (simp add: NewChallengeStore_def)
next
  case (snoc i ops)
  let ?st = "run_state (mbx_step u h) (NewChallengeStore ttl) ops"
  have p: "pendings (fst (mbx_step u h ?st i)) a = Some p" using snoc.prems by simp
  show ?case
  proof (cases "created u a i (snd (mbx_step u h ?st i))")
    case True
    then obtain email b t rnd where i: "i = MCreate email b t rnd" by (cases i) auto
    from pending_after_Create [of u h ?st email b t rnd a p] p True i
    show ?thesis by (fastforce simp: issued_by_def)
  next
    case False
    from pending_unchanged [OF p False] obtain q where
      na: "\<not> accepted u a i (snd (mbx_step u h ?st i))" and
      q: "pendings ?st a = Some q" "p_codeHash q = p_codeHash p" "p_binding q = p_binding p"
        "p_exp q = p_exp p" by blast
    from snoc.IH [OF q(1)] q show ?thesis
      by (simp add: issued_by_snoc [OF _ False na])
  qed
qed

section \<open>Clients of the store\<close>

text \<open>
  A component that owns a challenge store: each of its steps performs at most one operation on it. Whatever
  else the component does, a challenge that is open in its store was created by one of its earlier steps, and no
  step since then has replaced it or redeemed it.
\<close>

locale challenge_client =
  fixes step :: "'s \<Rightarrow> 'i \<Rightarrow> 's \<times> 'o"
    and store :: "'s \<Rightarrow> challenge_store"
    and acts :: "'s \<Rightarrow> 'i \<Rightarrow> mbx_op option"
    and u :: utables and h :: "bytes \<Rightarrow> bytes"
  assumes store_step: "store (fst (step s i)) =
      (case acts s i of None \<Rightarrow> store s | Some j \<Rightarrow> fst (mbx_step u h (store s) j))"
begin

definition touches :: "string \<Rightarrow> 's \<Rightarrow> 'i \<Rightarrow> bool" where
  "touches a s i \<longleftrightarrow> (\<exists>j. acts s i = Some j \<and>
     (created u a j (snd (mbx_step u h (store s) j)) \<or> accepted u a j (snd (mbx_step u h (store s) j))))"

definition opened :: "'s \<Rightarrow> 'i list \<Rightarrow> string \<Rightarrow> pending \<Rightarrow> bool" where
  "opened s0 ops a p \<longleftrightarrow>
     (\<exists>pre i mid email t rnd code. ops = pre @ i # mid
        \<and> acts (run_state step s0 pre) i = Some (MCreate email (p_binding p) t rnd) \<and> CanonicalEmail u email = Inr a
        \<and> snd (Create u h (store (run_state step s0 pre)) email (p_binding p) t rnd) = Inr code
        \<and> p_codeHash p = hashCode h code \<and> p_exp p = t + cs_ttl (store s0)
        \<and> (\<forall>mid1 j mid2. mid = mid1 @ j # mid2 \<longrightarrow> \<not> touches a (run_state step s0 (pre @ i # mid1)) j))"

lemma ttl_run: "cs_ttl (store (run_state step s0 ops)) = cs_ttl (store s0)"
  by (induction ops arbitrary: s0) (simp_all add: store_step split: option.splits)

lemma opened_snoc:
  assumes "opened s0 ops a q" "\<not> touches a (run_state step s0 ops) i"
    and "p_codeHash q = p_codeHash p" "p_binding q = p_binding p" "p_exp q = p_exp p"
  shows "opened s0 (ops @ [i]) a p"
proof -
  obtain pre i' mid email t rnd code where *: "ops = pre @ i' # mid"
    "acts (run_state step s0 pre) i' = Some (MCreate email (p_binding p) t rnd)" "CanonicalEmail u email = Inr a"
    "snd (Create u h (store (run_state step s0 pre)) email (p_binding p) t rnd) = Inr code"
    "p_codeHash p = hashCode h code" "p_exp p = t + cs_ttl (store s0)"
    "\<forall>mid1 j mid2. mid = mid1 @ j # mid2 \<longrightarrow> \<not> touches a (run_state step s0 (pre @ i' # mid1)) j"
    using assms(1,3-5) unfolding opened_def by metis
  have "\<not> touches a (run_state step s0 (pre @ i' # mid1)) j" if "mid @ [i] = mid1 @ j # mid2" for mid1 j mid2
    using that * assms(2) by (cases mid2 rule: rev_cases) auto
  then show ?thesis unfolding opened_def
    by (intro exI [of _ pre] exI [of _ i'] exI [of _ "mid @ [i]"] exI [of _ email] exI [of _ t] exI [of _ rnd] exI [of _ code])
      (use * in simp)
qed

lemma pending_opened:
  assumes "store s0 = NewChallengeStore ttl" "pendings (store (run_state step s0 ops)) a = Some p"
  shows "opened s0 ops a p"
  using assms(2)
proof (induction ops arbitrary: p rule: rev_induct)
  case Nil
  then show ?case using assms(1) by (simp add: NewChallengeStore_def)
next
  case (snoc i ops)
  let ?s = "run_state step s0 ops"
  have p: "pendings (store (fst (step ?s i))) a = Some p" using snoc.prems by simp
  show ?case
  proof (cases "acts ?s i")
    case None
    then show ?thesis using snoc.IH [of p] p by (intro opened_snoc) (auto simp: store_step touches_def)
  next
    case (Some j)
    then have p': "pendings (fst (mbx_step u h (store ?s) j)) a = Some p" using p by (simp add: store_step)
    show ?thesis
    proof (cases "created u a j (snd (mbx_step u h (store ?s) j))")
      case True
      then obtain email b t rnd where j: "j = MCreate email b t rnd" by (cases j) auto
      obtain code where code: "snd (Create u h (store ?s) email b t rnd) = Inr code" "p_codeHash p = hashCode h code"
        "p_binding p = b" "p_exp p = t + cs_ttl (store ?s)" "CanonicalEmail u email = Inr a"
        using pending_after_Create [of u h "store ?s" email b t rnd a p] p' True j by auto
      show ?thesis unfolding opened_def
        by (intro exI [of _ ops] exI [of _ i] exI [of _ "[]"] exI [of _ email] exI [of _ t] exI [of _ rnd] exI [of _ code])
          (use Some j code ttl_run [of s0 ops] in simp)
    next
      case False
      then obtain q where "pendings (store ?s) a = Some q" "p_codeHash q = p_codeHash p" "p_binding q = p_binding p"
        "p_exp q = p_exp p" "\<not> accepted u a j (snd (mbx_step u h (store ?s) j))"
        using pending_unchanged [OF p' False] by blast
      then show ?thesis using snoc.IH [of q] Some False by (intro opened_snoc [where q = q]) (auto simp: touches_def)
    qed
  qed
qed

text \<open>An accepted code was therefore issued by an earlier step, for the same address and binding.\<close>

lemma accepted_opened:
  assumes "store s0 = NewChallengeStore ttl"
    and "Verify u h (store (run_state step s0 ops)) email code b now = (st', Inr a)"
  shows "\<exists>p. opened s0 ops a p \<and> p_binding p = b \<and> p_codeHash p = hashCode h (trim_space code) \<and> now < p_exp p"
  using assms(2) pending_opened [OF assms(1)] by (auto simp: Verify_Inr_iff)

end

text \<open>
  An accepted code was issued for this address and this binding. If a Verify call answers an
  address, then the most recent challenge created for that address carries exactly the presented
  binding, has not expired, its code has the hash of the presented code, and no call in between
  has already redeemed it; the call consumes the challenge, so repeating it is refused.
\<close>

lemma mailbox_accept_provenance:
  assumes "mbx_step u h (run_state (mbx_step u h) (NewChallengeStore ttl) ops)
      (MVerify email code b now) = (st', Inr a)"
  shows "(\<exists>e. issued_by u h ttl ops a (hashCode h (trim_space code)) b e \<and> now < e)
    \<and> snd (mbx_step u h st' (MVerify email code b' now')) = Inl ErrNoPending"
proof -
  let ?st = "run_state (mbx_step u h) (NewChallengeStore ttl) ops"
  from assms obtain p where p: "pendings ?st a = Some p" "now < p_exp p" "p_binding p = b"
    "p_codeHash p = hashCode h (trim_space code)"
    and st': "st' = ?st\<lparr>pendings := (pendings ?st)(a := None)\<rparr>"
    and a: "CanonicalEmail u email = Inr a"
    by (auto simp: Verify_Inr_iff)
  from pending_issued [OF p(1)] p have "issued_by u h ttl ops a (hashCode h (trim_space code)) b (p_exp p)"
    by simp
  with p(2) have "\<exists>e. issued_by u h ttl ops a (hashCode h (trim_space code)) b e \<and> now < e"
    by blast
  moreover have "snd (mbx_step u h st' (MVerify email code b' now')) = Inl ErrNoPending"
    by (simp add: Verify_def a st')
  ultimately show ?thesis by blast
qed

text \<open>Concrete parameters for the worked examples.\<close>

definition toy_hash :: "bytes \<Rightarrow> bytes" where
  "toy_hash bs = take 32 (bs @ replicate 32 0)"

definition ascii_only :: utables where
  "ascii_only = \<lparr>ulower = id, ufold = (\<lambda>s t. s = t)\<rparr>"

lemma length_toy_hash [simp]: "length (toy_hash bs) = 32"
  by (simp add: toy_hash_def)

lemma example_canonical: "CanonicalEmail ascii_only ''bob@ex.org'' = Inr ''bob@ex.org''"
proof -
  have g: "list_all is_graph ''bob@ex.org''" by (simp add: is_graph_def)
  have "to_lower ascii_only ''bob@ex.org'' = ''bob@ex.org''"
    by (simp add: to_lower_def is_ascii_def ascii_lower_def)
  moreover have "\<exists>local domain. ''bob@ex.org'' = local @ CHR ''@'' # domain \<and> local \<noteq> [] \<and> domain \<noteq> []
      \<and> CHR ''@'' \<notin> set local \<and> CHR ''@'' \<notin> set domain"
    by (rule exI [of _ "''bob''"], rule exI [of _ "''ex.org''"]) simp
  ultimately show ?thesis
    unfolding CanonicalEmail_Inr_iff trim_space_graph [OF g]
    using graph_no_space_or_control [OF g] by (intro conjI) (rule sym, assumption+)
qed

lemma example_trim: "trim_space ''000042'' = ''000042''"
  by (rule trim_space_graph) (simp add: is_graph_def)

lemma example_code: "six_digits 42 = ''000042''"
  by (simp add: six_digits_def digit_char_def char_of_eq_iff)

text \<open>A challenge for one mailbox, created at time 100 and redeemed at time 200.\<close>

end
