(* ===== verification/Budget.thy ===== *)
theory Budget
  imports GoStd Machine
begin

text \<open>
  \<^verbatim>\<open>tokenauth/budget.go\<close>: the issuance budget store. \<open>Reserve\<close> and \<open>Prune\<close> follow the source in
  int64 arithmetic (\<open>wrap64\<close>, truncating division). The locale \<open>budget_backend\<close> is the
  \<^verbatim>\<open>BudgetStore\<close> interface as its clients use it; \<open>prunable_budget\<close> adds housekeeping and
  proves the quota theorem; both are interpreted on the in-memory store.
\<close>

section \<open>Definitions\<close>

datatype budget_error = ErrAmount | ErrBudgetExceeded | ErrStore

record budget_key =
  bk_epoch :: int
  bk_window :: duration
  bk_key :: string

type_synonym budget_store = "budget_key \<rightharpoonup> int"

definition NewMemoryBudgetStore :: budget_store where
  "NewMemoryBudgetStore = Map.empty"

text \<open>The counter a reservation is charged to: the epoch-aligned window containing \<open>now\<close>.\<close>

definition window_key :: "string \<Rightarrow> duration \<Rightarrow> gotime \<Rightarrow> budget_key" where
  "window_key key window now =
     (let secs = window sdiv second in
      if secs \<le> 0 then \<lparr>bk_epoch = unix now sdiv 1, bk_window = second, bk_key = key\<rparr>
      else \<lparr>bk_epoch = unix now sdiv secs, bk_window = window, bk_key = key\<rparr>)"

definition used_of :: "budget_store \<Rightarrow> budget_key \<Rightarrow> int" where
  "used_of m k = (case m k of None \<Rightarrow> 0 | Some n \<Rightarrow> n)"

definition Reserve ::
  "budget_store \<Rightarrow> string \<Rightarrow> int \<Rightarrow> int \<Rightarrow> duration \<Rightarrow> gotime \<Rightarrow> budget_store \<times> budget_error option" where
  "Reserve m key amount limit window now =
     (if amount \<le> 0 then (m, Some ErrAmount)
      else
        (let k = window_key key window now in
         if wrap64 (used_of m k + amount) > limit then (m, Some ErrBudgetExceeded)
         else (m(k \<mapsto> wrap64 (used_of m k + amount)), None)))"

text \<open>A window has ended at \<open>now\<close>.\<close>

definition window_closed :: "budget_key \<Rightarrow> gotime \<Rightarrow> bool" where
  "window_closed k now \<longleftrightarrow>
     wrap64 (wrap64 (bk_epoch k + 1) * (bk_window k sdiv second)) \<le> unix now"

definition Prune :: "budget_store \<Rightarrow> gotime \<Rightarrow> budget_store" where
  "Prune m now = delete_where (\<lambda>k _. window_closed k now) m"

section \<open>The interface\<close>

text \<open>
  Requests whose amount and limit stay below two to the 62: sums of a counter and an amount then
  fit an int64.
\<close>

definition small_req :: "int \<Rightarrow> int \<Rightarrow> bool" where
  "small_req amount limit \<longleftrightarrow> amount < 2 ^ 62 \<and> limit < 2 ^ 62"

text \<open>
  What a client may rely on: a granted reservation charges exactly its amount to its own window
  and stays within the limit; a refused one never lowers a counter (fail closed).
\<close>

locale budget_backend =
  fixes reserve :: "'s \<Rightarrow> string \<Rightarrow> int \<Rightarrow> int \<Rightarrow> duration \<Rightarrow> gotime \<Rightarrow> 's \<times> budget_error option"
    and usage :: "'s \<Rightarrow> budget_key \<Rightarrow> int"
    and invar :: "'s \<Rightarrow> bool"
  assumes granted: "invar s \<Longrightarrow> small_req a l \<Longrightarrow> reserve s key a l w t = (s', None) \<Longrightarrow>
      0 < a \<and> usage s' = (usage s)(window_key key w t := usage s (window_key key w t) + a)
        \<and> usage s (window_key key w t) + a \<le> l"
    and refused: "invar s \<Longrightarrow> reserve s key a l w t = (s', Some e) \<Longrightarrow> usage s k \<le> usage s' k"
    and invar_reserve: "invar s \<Longrightarrow> small_req a l \<Longrightarrow> invar (fst (reserve s key a l w t))"
begin

lemma usage_mono:
  "invar s \<Longrightarrow> small_req a l \<Longrightarrow> usage s k \<le> usage (fst (reserve s key a l w t)) k"
  using granted [of s a l key w t] refused [of s key a l w t]
  by (cases "reserve s key a l w t"; cases "snd (reserve s key a l w t)") auto

lemma no_grant_beyond_limit:
  "invar s \<Longrightarrow> small_req a l \<Longrightarrow> l < usage s (window_key key w t) + a \<Longrightarrow>
   snd (reserve s key a l w t) \<noteq> None"
  using granted [of s a l key w t] by (cases "reserve s key a l w t") force

end

text \<open>Requests to a store with housekeeping, and what they add to one window when granted.\<close>

datatype budget_op =
    BReserve string int int duration gotime
  | BPrune gotime

fun op_time :: "budget_op \<Rightarrow> gotime" where
  "op_time (BReserve key a l w t) = t"
| "op_time (BPrune t) = t"

fun grant_to :: "budget_key \<Rightarrow> budget_op \<Rightarrow> budget_error option \<Rightarrow> int" where
  "grant_to k (BReserve key a l w t) out = (if out = None \<and> window_key key w t = k then a else 0)"
| "grant_to k (BPrune t) out = 0"

definition granted_to :: "budget_key \<Rightarrow> (budget_op \<times> budget_error option) list \<Rightarrow> int" where
  "granted_to k tr = sum_list (map (\<lambda>(i, out). grant_to k i out) tr)"

lemma granted_to_simps [simp]:
  "granted_to k [] = 0"
  "granted_to k ((i, out) # tr) = grant_to k i out + granted_to k tr"
  by (simp_all add: granted_to_def)

text \<open>A well-formed request for window \<open>k\<close> carries a limit of at most \<open>L\<close>.\<close>

fun op_ok :: "budget_key \<Rightarrow> int \<Rightarrow> budget_op \<Rightarrow> bool" where
  "op_ok k L (BReserve key a l w t) \<longleftrightarrow>
     small_req a l \<and> 0 \<le> unix t \<and> unix t < 2 ^ 62 \<and> w < 2 ^ 62 \<and> (window_key key w t = k \<longrightarrow> l \<le> L)"
| "op_ok k L (BPrune t) \<longleftrightarrow> 0 \<le> unix t \<and> unix t < 2 ^ 62"

lemma second_sdiv_second: "second sdiv second = 1"
  by (simp add: sdiv_nonneg second_def)

text \<open>No request made at or after a time charges a window that has ended by then.\<close>

lemma window_key_cases:
  assumes "0 \<le> unix t" "w < 2 ^ 62"
  obtains s where "0 < s" "s < 2 ^ 62" "bk_epoch (window_key key w t) = unix t div s"
    "bk_window (window_key key w t) sdiv second = s"
proof (cases "w sdiv second \<le> 0")
  case True
  then have "bk_epoch (window_key key w t) = unix t div 1"
    "bk_window (window_key key w t) sdiv second = 1"
    using assms by (simp_all add: window_key_def Let_def sdiv_nonneg second_sdiv_second)
  then show ?thesis by (intro that [of 1]) simp_all
next
  case False
  then have "0 \<le> w" using sdiv_neg_le [of w second] by fastforce
  then have "w sdiv second < 2 ^ 62" using assms sdiv_le_self [of w second] by simp
  moreover have "bk_epoch (window_key key w t) = unix t div (w sdiv second)"
    "bk_window (window_key key w t) sdiv second = w sdiv second"
    using False assms by (simp_all add: window_key_def Let_def sdiv_nonneg [of "unix t"])
  ultimately show ?thesis using False by (intro that [of "w sdiv second"]) simp_all
qed

lemma window_key_open:
  assumes "0 \<le> unix t" "unix t < 2 ^ 62" "w < 2 ^ 62" "now \<le> t"
  shows "\<not> window_closed (window_key key w t) now"
proof -
  obtain s where s: "0 < s" "s < 2 ^ 62" and
    key: "bk_epoch (window_key key w t) = unix t div s" "bk_window (window_key key w t) sdiv second = s"
    using window_key_cases [OF assms(1,3)] .
  have "unix t = unix t div s * s + unix t mod s" "unix t mod s < s" "0 \<le> unix t mod s"
    using s by simp_all
  then have ep: "unix t < (unix t div s + 1) * s" "(unix t div s + 1) * s \<le> unix t + s"
    unfolding distrib_right by linarith+
  have e0: "0 \<le> unix t div s" "unix t div s \<le> unix t"
    using assms(1) s sdiv_le_self [of "unix t" s] by (simp_all add: pos_imp_zdiv_nonneg_iff sdiv_nonneg)
  have "wrap64 (unix t div s + 1) = unix t div s + 1"
    by (rule wrap64_id) (use e0 assms(2) in \<open>simp add: is_int64_def\<close>)
  moreover have "wrap64 ((unix t div s + 1) * s) = (unix t div s + 1) * s"
    by (rule wrap64_id) (use ep s assms(1,2) in \<open>simp add: is_int64_def\<close>)
  ultimately show ?thesis
    using ep unix_mono [OF assms(4)] by (simp add: window_closed_def key)
qed

locale prunable_budget = budget_backend reserve usage invar
  for reserve :: "'s \<Rightarrow> string \<Rightarrow> int \<Rightarrow> int \<Rightarrow> duration \<Rightarrow> gotime \<Rightarrow> 's \<times> budget_error option"
    and usage :: "'s \<Rightarrow> budget_key \<Rightarrow> int" and invar :: "'s \<Rightarrow> bool" +
  fixes prune :: "'s \<Rightarrow> gotime \<Rightarrow> 's"
    and step :: "'s \<Rightarrow> budget_op \<Rightarrow> 's \<times> budget_error option"
  assumes pruned: "invar s \<Longrightarrow> \<not> window_closed k t \<Longrightarrow> usage (prune s t) k = usage s k"
    and invar_prune: "invar s \<Longrightarrow> invar (prune s t)"
    and step_Reserve: "step s (BReserve key a l w t) = reserve s key a l w t"
    and step_Prune: "step s (BPrune t) = (prune s t, None)"
begin

lemma no_grant_to_closed:
  "window_closed k c \<Longrightarrow> list_all (op_ok k L) ops \<Longrightarrow> list_all (\<lambda>i. c \<le> op_time i) ops \<Longrightarrow>
   granted_to k (run_trace step s ops) = 0"
proof (induction ops arbitrary: s)
  case Nil
  then show ?case by simp
next
  case (Cons i ops)
  have "grant_to k i out = 0" for out
    using Cons.prems window_key_open by (cases i) auto
  then show ?case using Cons by simp
qed

text \<open>
  The quota theorem of the interface: along a time-ordered run, what is granted to a window on
  top of its current usage stays within the limit.
\<close>

lemma quota:
  "invar s \<Longrightarrow> list_all (op_ok k L) ops \<Longrightarrow> sorted (map op_time ops) \<Longrightarrow>
   granted_to k (run_trace step s ops) \<le> max 0 (L - usage s k)"
proof (induction ops arbitrary: s)
  case Nil
  then show ?case by simp
next
  case (Cons i ops)
  then have tl: "list_all (op_ok k L) ops" "sorted (map op_time ops)"
    and later: "list_all (\<lambda>j. op_time i \<le> op_time j) ops"
    by (simp_all add: list_all_iff)
  show ?case
  proof (cases i)
    case (BPrune t)
    show ?thesis
    proof (cases "window_closed k t")
      case True
      then show ?thesis using BPrune tl later by (simp add: step_Prune no_grant_to_closed)
    next
      case False
      with Cons.IH [OF invar_prune [OF Cons.prems(1)] tl, of t] BPrune Cons.prems(1)
      show ?thesis by (simp add: step_Prune pruned)
    qed
  next
    case (BReserve key a l w t)
    then have ok: "small_req a l" "window_key key w t = k \<Longrightarrow> l \<le> L" using Cons.prems(2) by auto
    obtain s' out where res: "reserve s key a l w t = (s', out)" by fastforce
    have inv': "invar s'" using invar_reserve [OF Cons.prems(1) ok(1)] res by (metis fst_conv)
    note IH = Cons.IH [OF inv' tl]
    show ?thesis
    proof (cases out)
      case None
      from granted [OF Cons.prems(1) ok(1)] res None
      have "0 < a \<and> usage s' = (usage s)(window_key key w t := usage s (window_key key w t) + a)
          \<and> usage s (window_key key w t) + a \<le> l" by blast
      then show ?thesis using IH ok(2) BReserve res None
        by (auto simp: step_Reserve split: if_splits)
    next
      case (Some e)
      from refused [OF Cons.prems(1)] res Some have "usage s k \<le> usage s' k" by blast
      then show ?thesis using IH BReserve res Some by (simp add: step_Reserve)
    qed
  qed
qed

end

section \<open>The in-memory store implements the interface\<close>

fun budget_step :: "budget_store \<Rightarrow> budget_op \<Rightarrow> budget_store \<times> budget_error option" where
  "budget_step m (BReserve key a l w t) = Reserve m key a l w t"
| "budget_step m (BPrune t) = (Prune m t, None)"

definition budget_inv :: "budget_store \<Rightarrow> bool" where
  "budget_inv m \<longleftrightarrow> (\<forall>k n. m k = Some n \<longrightarrow> 0 \<le> n \<and> n < 2 ^ 62)"

lemma budget_inv_New [simp]: "budget_inv NewMemoryBudgetStore"
  by (simp add: budget_inv_def NewMemoryBudgetStore_def)

lemma used_of_bounds: "budget_inv m \<Longrightarrow> 0 \<le> used_of m k \<and> used_of m k < 2 ^ 62"
  by (auto simp: budget_inv_def used_of_def split: option.splits)

lemma Reserve_wrap:
  "budget_inv m \<Longrightarrow> 0 < a \<Longrightarrow> a < 2 ^ 62 \<Longrightarrow> wrap64 (used_of m k + a) = used_of m k + a"
  by (rule wrap64_id) (use used_of_bounds [of m k] in \<open>simp add: is_int64_def\<close>)

lemma Reserve_granted_iff:
  assumes "budget_inv m" "small_req a l"
  shows "Reserve m key a l w t = (m', None) \<longleftrightarrow>
    0 < a \<and> used_of m (window_key key w t) + a \<le> l \<and>
    m' = m(window_key key w t \<mapsto> used_of m (window_key key w t) + a)"
  using assms by (auto simp: Reserve_def Let_def Reserve_wrap small_req_def)

lemma Reserve_refused_same: "Reserve m key a l w t = (m', Some e) \<Longrightarrow> m' = m"
  by (auto simp: Reserve_def Let_def split: if_splits)

lemma budget_inv_Reserve:
  assumes "budget_inv m" "small_req a l"
  shows "budget_inv (fst (Reserve m key a l w t))"
proof (cases "snd (Reserve m key a l w t)")
  case None
  then have "Reserve m key a l w t = (fst (Reserve m key a l w t), None)"
    by (metis prod.collapse)
  then have "0 < a" "used_of m (window_key key w t) + a \<le> l"
    "fst (Reserve m key a l w t) = m(window_key key w t \<mapsto> used_of m (window_key key w t) + a)"
    using Reserve_granted_iff [OF assms] by auto
  then show ?thesis
    using assms used_of_bounds [OF assms(1), of "window_key key w t"]
    by (auto simp: budget_inv_def small_req_def)
next
  case (Some e)
  then show ?thesis using assms(1) Reserve_refused_same [of m key a l w t _ e]
    by (metis prod.collapse)
qed

interpretation memory_budget: prunable_budget Reserve used_of budget_inv Prune budget_step
proof
  fix s s' a l key w t
  assume "budget_inv s" "small_req a l" "Reserve s key a l w t = (s', None)"
  then show "0 < a \<and> used_of s' = (used_of s)(window_key key w t := used_of s (window_key key w t) + a)
      \<and> used_of s (window_key key w t) + a \<le> l"
    by (auto simp: Reserve_granted_iff used_of_def)
next
  fix s s' a l key w t e k
  assume "Reserve s key a l w t = (s', Some e)"
  then have "s' = s" by (rule Reserve_refused_same)
  then show "used_of s k \<le> used_of s' k" by simp
next
  fix s a l key w t
  assume "budget_inv s" "small_req a l"
  then show "budget_inv (fst (Reserve s key a l w t))" by (rule budget_inv_Reserve)
next
  fix s k t
  assume "\<not> window_closed k t"
  then show "used_of (Prune s t) k = used_of s k"
    by (simp add: Prune_def used_of_def delete_where_def split: option.splits)
next
  fix s t
  assume "budget_inv s"
  then show "budget_inv (Prune s t)" by (auto simp: budget_inv_def Prune_def)
qed simp_all

text \<open>
  The issuance budget is never exceeded. In every time-ordered sequence of Reserve and Prune
  calls on a fresh in-memory store, the amounts granted to one window of one key sum to at most
  the limit its requests carry, whatever other keys, windows and prunings are interleaved.
  (Amounts, limits, windows and clock readings are below two to the 62.)
\<close>

lemma budget_quota:
  assumes "list_all (op_ok k L) ops" and "sorted (map op_time ops)" and "0 \<le> L"
  shows "granted_to k (run_trace budget_step NewMemoryBudgetStore ops) \<le> L"
  using memory_budget.quota [OF budget_inv_New assms(1,2)] assms(3)
  by (simp add: used_of_def NewMemoryBudgetStore_def)

text \<open>
  A reservation is refused only for a reason. On a store the invariant holds for, a request
  is granted exactly when its amount is positive and the window's usage plus the amount stays
  within the limit; a granted request charges exactly its amount and a refused one changes
  nothing.
\<close>

lemma Reserve_exact:
  assumes "budget_inv m" and "small_req a l"
  shows "Reserve m key a l w t =
    (let k = window_key key w t in
     if a \<le> 0 then (m, Some ErrAmount)
     else if l < used_of m k + a then (m, Some ErrBudgetExceeded)
     else (m(k \<mapsto> used_of m k + a), None))"
  using assms by (auto simp: Reserve_def Let_def Reserve_wrap small_req_def)

text \<open>
  Without the bound on amounts the check overflows. If a window already has a positive usage
  \<open>n\<close>, a request for \<open>2 ^ 63 - n\<close> permits wraps to the least int64, passes every limit check, is
  granted, and leaves the counter at the least int64.
\<close>

lemma Reserve_overflow:
  assumes "used_of m (window_key key w t) = n" and "0 < n" and "n < 2 ^ 63" and "- (2 ^ 63) \<le> l"
  shows "Reserve m key (2 ^ 63 - n) l w t = (m(window_key key w t \<mapsto> - (2 ^ 63)), None)"
proof -
  have "wrap64 (n + (2 ^ 63 - n)) = - (2 ^ 63)" by (simp add: wrap64_def)
  then show ?thesis using assms by (simp add: Reserve_def)
qed

end
