(* ===== verification/Policy.thy ===== *)
theory Policy
  imports GoStd "HOL-Library.Multiset"
begin

text \<open>
  \<^verbatim>\<open>tokenauth/types.go\<close> and \<^verbatim>\<open>tokenauth/compile.go\<close>: the policy source, the compiled policy and
  \<open>Compile\<close>. Go maps of the source are association lists, in the order in which \<^verbatim>\<open>range\<close>
  happens to visit them (any order is possible, keys are distinct); the compiled maps are
  partial functions. Each error return is a constructor of \<open>compile_error\<close>.
\<close>

section \<open>Types\<close>

type_synonym token_family = string
type_synonym gate_kind = string

definition TokenBurn :: token_family where "TokenBurn = ''burn''"
definition TokenPrivateIdentity :: token_family where "TokenPrivateIdentity = ''private_identity''"
definition TokenPolicyEmail :: token_family where "TokenPolicyEmail = ''policy_email''"
definition ModeDevelopment :: string where "ModeDevelopment = ''development''"
definition ModeProduction :: string where "ModeProduction = ''production''"
definition BucketSourceClaim :: string where "BucketSourceClaim = ''claim''"
definition BucketSourceCaller :: string where "BucketSourceCaller = ''caller''"

lemmas policy_consts = TokenBurn_def TokenPrivateIdentity_def TokenPolicyEmail_def
  ModeDevelopment_def ModeProduction_def BucketSourceClaim_def BucketSourceCaller_def

record defaults =
  AllowSoftwareWitness :: bool
  MaxBatch :: int
  AuthorizationTTL :: int

record token_rule =
  tr_Enabled :: bool
  tr_AllowedGates :: "string list"
  tr_AllowedOrigins :: "string list"
  tr_BudgetGroup :: string
  tr_MaxBatch :: int
  tr_RequiresAddressClaim :: bool
  tr_RequiresAttestation :: bool
  tr_RequiresOrigin :: bool

record gate_rule =
  gr_Enabled :: bool
  gr_BucketClaim :: string
  gr_BucketSource :: string
  gr_AddressClaim :: string
  gr_AllowedHosts :: "string list"

record measurement_rule =
  mr_ValueX :: string
  mr_Allow :: "string list"

record budget_rule =
  br_Limit :: int
  br_WindowSeconds :: int

record policy_source =
  ps_Version :: int
  ps_Mode :: string
  ps_Defaults :: defaults
  ps_TokenFamilies :: "(string \<times> token_rule) list"
  ps_Gates :: "(string \<times> gate_rule) list"
  ps_Measurements :: "measurement_rule list"
  ps_Budgets :: "(string \<times> budget_rule) list"

record compiled_token =
  ct_name :: token_family
  ct_enabled :: bool
  ct_allowedGates :: "gate_kind set"
  ct_allowedOrigins :: "string set"
  ct_budgetGroup :: string
  ct_maxBatch :: int
  ct_requiresAddressClaim :: bool
  ct_requiresAttestation :: bool
  ct_requiresOrigin :: bool

record compiled_gate =
  cg_name :: gate_kind
  cg_enabled :: bool
  cg_bucketClaim :: string
  cg_bucketSource :: string
  cg_addressClaim :: string
  cg_allowedHosts :: "string set"

record policy =
  po_mode :: string
  po_defaults :: defaults
  po_tokens :: "token_family \<rightharpoonup> compiled_token"
  po_gates :: "gate_kind \<rightharpoonup> compiled_gate"
  po_measurements :: "string \<rightharpoonup> token_family set"
  po_budgets :: "string \<rightharpoonup> budget_rule"

datatype compile_error =
    EVersion int | EMode string | EProdWitness | EMaxBatch | ETTL
  | ENoFamilies | ENoGates | ENoBudgets
  | EBudgetName string | EBudgetLimit string | EBudgetWindow string
  | EGateName string | EGateSource string string | EGateNoClaim string | EGateTwoSources string string
  | EGateHost string
  | EFamily string | EFamilyBatch string | EFamilyNoBudget string | EFamilyBudget string string
  | EFamilyNoGates string | EFamilyGateName string string | EFamilyGate string string
  | EFamilyGateDisabled string string | EFamilyGateAddress string string
  | EFamilyOrigin string | EPolicyEmail
  | EMeasurementEmpty | EMeasurementNone string | EMeasurementFamily string string
  | EMeasurementUndefined string string
  | EAttestation string | EProvenance string

section \<open>Compilation\<close>

definition in_range :: "char \<Rightarrow> char \<Rightarrow> char \<Rightarrow> bool" where
  "in_range lo hi c \<longleftrightarrow> (of_char lo :: nat) \<le> of_char c \<and> (of_char c :: nat) \<le> of_char hi"

text \<open>The pattern \<^verbatim>\<open>^[a-z][a-z0-9_-]{0,63}$\<close>.\<close>

definition name_char :: "char \<Rightarrow> bool" where
  "name_char c \<longleftrightarrow> in_range (CHR ''a'') (CHR ''z'') c \<or> in_range (CHR ''0'') (CHR ''9'') c
     \<or> c = CHR ''_'' \<or> c = CHR ''-''"

definition validName :: "string \<Rightarrow> bool" where
  "validName s = (case s of [] \<Rightarrow> False
     | c # cs \<Rightarrow> in_range (CHR ''a'') (CHR ''z'') c \<and> list_all name_char cs \<and> length cs \<le> 63)"

definition validTokenFamily :: "string \<Rightarrow> bool" where
  "validTokenFamily name \<longleftrightarrow>
     name = TokenBurn \<or> name = TokenPrivateIdentity \<or> name = TokenPolicyEmail"

definition compile_budget ::
  "string \<times> budget_rule \<Rightarrow> (compile_error, string \<times> budget_rule) result" where
  "compile_budget = (\<lambda>(name, b).
     guard (validName name) (EBudgetName name)
     (guard (0 < br_Limit b) (EBudgetLimit name)
     (guard (0 < br_WindowSeconds b) (EBudgetWindow name)
     (Inr (name, b)))))"

text \<open>Trimming each element of a list; an element that trims to nothing is an error.\<close>

definition trimmed :: "'e \<Rightarrow> string \<Rightarrow> ('e, string) result" where
  "trimmed e s = guard (trim_space s \<noteq> []) e (Inr (trim_space s))"

definition compile_gate ::
  "string \<times> gate_rule \<Rightarrow> (compile_error, string \<times> compiled_gate) result" where
  "compile_gate = (\<lambda>(name, b).
     guard (validName name) (EGateName name)
     (guard (gr_BucketSource b \<in> {[], BucketSourceClaim, BucketSourceCaller})
        (EGateSource name (gr_BucketSource b))
     (guard (\<not> (gr_BucketSource b = BucketSourceClaim \<and> gr_BucketClaim b = [])) (EGateNoClaim name)
     (guard (\<not> (gr_BucketSource b = BucketSourceCaller \<and> gr_BucketClaim b \<noteq> []))
        (EGateTwoSources name (gr_BucketClaim b))
     (let bucketSource = (if gr_BucketSource b = [] \<and> gr_BucketClaim b \<noteq> []
                          then BucketSourceClaim else gr_BucketSource b) in
      bind_result (traverse (trimmed (EGateHost name)) (gr_AllowedHosts b)) (\<lambda>hosts.
      Inr (name, \<lparr>cg_name = name, cg_enabled = gr_Enabled b, cg_bucketClaim = gr_BucketClaim b,
                  cg_bucketSource = bucketSource, cg_addressClaim = gr_AddressClaim b,
                  cg_allowedHosts = set hosts\<rparr>)))))))"

text \<open>One iteration of the loop over a family's allowed gates.\<close>

definition check_gate ::
  "string \<Rightarrow> token_rule \<Rightarrow> (gate_kind \<rightharpoonup> compiled_gate) \<Rightarrow> string \<Rightarrow> (compile_error, gate_kind) result" where
  "check_gate name t gates gate =
     guard (validName gate) (EFamilyGateName name gate)
     (case gates gate of
        None \<Rightarrow> Inl (EFamilyGate name gate)
      | Some cb \<Rightarrow>
          guard (\<not> (tr_Enabled t \<and> \<not> cg_enabled cb)) (EFamilyGateDisabled name gate)
          (guard (\<not> (tr_RequiresAddressClaim t \<and> cg_addressClaim cb = [])) (EFamilyGateAddress name gate)
          (Inr gate)))"

definition compile_token ::
  "defaults \<Rightarrow> (string \<rightharpoonup> budget_rule) \<Rightarrow> (gate_kind \<rightharpoonup> compiled_gate) \<Rightarrow>
   string \<times> token_rule \<Rightarrow> (compile_error, string \<times> compiled_token) result" where
  "compile_token dflt budgets gates = (\<lambda>(name, t).
     guard (validTokenFamily name) (EFamily name)
     (let maxBatch = (if tr_MaxBatch t = 0 then MaxBatch dflt else tr_MaxBatch t) in
      guard (0 < maxBatch) (EFamilyBatch name)
     (guard (tr_BudgetGroup t \<noteq> []) (EFamilyNoBudget name)
     (guard (budgets (tr_BudgetGroup t) \<noteq> None) (EFamilyBudget name (tr_BudgetGroup t))
     (guard (\<not> (tr_Enabled t \<and> tr_AllowedGates t = [])) (EFamilyNoGates name)
     (bind_result (traverse (check_gate name t gates) (tr_AllowedGates t)) (\<lambda>gs.
      bind_result (traverse (trimmed (EFamilyOrigin name)) (tr_AllowedOrigins t)) (\<lambda>origins.
      guard (\<not> (name = TokenPolicyEmail \<and> \<not> tr_RequiresAddressClaim t)) EPolicyEmail
      (Inr (name, \<lparr>ct_name = name, ct_enabled = tr_Enabled t, ct_allowedGates = set gs,
                   ct_allowedOrigins = set origins, ct_budgetGroup = tr_BudgetGroup t,
                   ct_maxBatch = maxBatch,
                   ct_requiresAddressClaim = tr_RequiresAddressClaim t,
                   ct_requiresAttestation = tr_RequiresAttestation t,
                   ct_requiresOrigin = (tr_RequiresOrigin t \<or> origins \<noteq> [])\<rparr>))))))))))"

definition check_measurement_family ::
  "string \<Rightarrow> (token_family \<rightharpoonup> compiled_token) \<Rightarrow> string \<Rightarrow> (compile_error, token_family) result" where
  "check_measurement_family x tokens family =
     guard (validTokenFamily family) (EMeasurementFamily x family)
     (guard (tokens family \<noteq> None) (EMeasurementUndefined x family) (Inr family))"

definition compile_measurement ::
  "(token_family \<rightharpoonup> compiled_token) \<Rightarrow> measurement_rule \<Rightarrow> (compile_error, string \<times> token_family list) result" where
  "compile_measurement tokens m =
     guard (trim_space (mr_ValueX m) \<noteq> []) EMeasurementEmpty
     (guard (mr_Allow m \<noteq> []) (EMeasurementNone (mr_ValueX m))
     (bind_result (traverse (check_measurement_family (mr_ValueX m) tokens) (mr_Allow m))
        (\<lambda>fs. Inr (mr_ValueX m, fs))))"

text \<open>The map the loop over the measurements builds: one set per value, entries accumulate.\<close>

definition measurement_map :: "(string \<times> token_family list) list \<Rightarrow> (string \<rightharpoonup> token_family set)" where
  "measurement_map ms x =
     (case filter (\<lambda>(v, _). v = x) ms of [] \<Rightarrow> None
      | es \<Rightarrow> Some (set (concat (map snd es))))"

definition anyMeasurementAllows :: "(string \<times> token_family list) list \<Rightarrow> token_family \<Rightarrow> bool" where
  "anyMeasurementAllows ms family \<longleftrightarrow> list_ex (\<lambda>(_, fs). family \<in> set fs) ms"

definition check_attestation ::
  "(string \<times> token_family list) list \<Rightarrow> string \<times> compiled_token \<Rightarrow> (compile_error, unit) result" where
  "check_attestation ms = (\<lambda>(name, tok).
     guard (\<not> (ct_enabled tok \<and> ct_requiresAttestation tok \<and> \<not> anyMeasurementAllows ms name))
       (EAttestation name) (Inr ()))"

text \<open>Every gate an enabled family mints through states where its bucket comes from.\<close>

definition check_provenance ::
  "(gate_kind \<rightharpoonup> compiled_gate) \<Rightarrow> string \<times> compiled_token \<Rightarrow> (compile_error, unit) result" where
  "check_provenance gates = (\<lambda>(name, tok).
     guard (\<not> ct_enabled tok \<or>
        (\<forall>gk \<in> ct_allowedGates tok.
           (case gates gk of None \<Rightarrow> False | Some gate \<Rightarrow> cg_bucketSource gate \<noteq> [])))
       (EProvenance name) (Inr ()))"

definition Compile :: "policy_source \<Rightarrow> (compile_error, policy) result" where
  "Compile src =
     guard (ps_Version src = 1) (EVersion (ps_Version src))
     (let mode = (if ps_Mode src = [] then ModeProduction else ps_Mode src); dflt = ps_Defaults src in
      guard (mode = ModeDevelopment \<or> mode = ModeProduction) (EMode mode)
     (guard (\<not> (mode = ModeProduction \<and> AllowSoftwareWitness dflt)) EProdWitness
     (guard (0 < MaxBatch dflt) EMaxBatch
     (guard (0 < AuthorizationTTL dflt) ETTL
     (guard (ps_TokenFamilies src \<noteq> []) ENoFamilies
     (guard (ps_Gates src \<noteq> []) ENoGates
     (guard (ps_Budgets src \<noteq> []) ENoBudgets
     (bind_result (traverse compile_budget (ps_Budgets src)) (\<lambda>budgets.
      bind_result (traverse compile_gate (ps_Gates src)) (\<lambda>gates.
      bind_result (traverse (compile_token dflt (map_of budgets) (map_of gates)) (ps_TokenFamilies src))
        (\<lambda>tokens.
      bind_result (traverse (compile_measurement (map_of tokens)) (ps_Measurements src)) (\<lambda>ms.
      bind_result (traverse (check_attestation ms) tokens) (\<lambda>_.
      bind_result (if mode = ModeProduction
          then traverse (check_provenance (map_of gates)) tokens else Inr []) (\<lambda>_.
      Inr \<lparr>po_mode = mode, po_defaults = dflt, po_tokens = map_of tokens, po_gates = map_of gates,
           po_measurements = measurement_map ms, po_budgets = map_of budgets\<rparr>))))))))))))))"

text \<open>\<open>json\<close> is the strict JSON decoder of the policy file (unknown fields are errors).\<close>

definition CompileJSON ::
  "(bytes \<Rightarrow> policy_source option) \<Rightarrow> bytes \<Rightarrow> (compile_error option, policy) result" where
  "CompileJSON json raw =
     bind_result (of_option None (json raw)) (\<lambda>src. map_error Some (Compile src))"

section \<open>What a compiled policy satisfies\<close>

definition wf_gate :: "gate_kind \<Rightarrow> compiled_gate \<Rightarrow> bool" where
  "wf_gate g gate \<longleftrightarrow> cg_name gate = g \<and> validName g
     \<and> cg_bucketSource gate \<in> {[], BucketSourceClaim, BucketSourceCaller}
     \<and> (cg_bucketSource gate = BucketSourceClaim \<longleftrightarrow> cg_bucketClaim gate \<noteq> [])"

definition wf_token :: "policy \<Rightarrow> token_family \<Rightarrow> compiled_token \<Rightarrow> bool" where
  "wf_token p f tok \<longleftrightarrow> ct_name tok = f \<and> validTokenFamily f \<and> 0 < ct_maxBatch tok
     \<and> ct_budgetGroup tok \<in> dom (po_budgets p)
     \<and> (\<forall>g \<in> ct_allowedGates tok. \<exists>gate. po_gates p g = Some gate
          \<and> (ct_enabled tok \<longrightarrow> cg_enabled gate)
          \<and> (ct_requiresAddressClaim tok \<longrightarrow> cg_addressClaim gate \<noteq> [])
          \<and> (po_mode p = ModeProduction \<and> ct_enabled tok \<longrightarrow> cg_bucketSource gate \<noteq> []))
     \<and> (ct_enabled tok \<longrightarrow> ct_allowedGates tok \<noteq> {})
     \<and> (ct_allowedOrigins tok \<noteq> {} \<longrightarrow> ct_requiresOrigin tok)
     \<and> (f = TokenPolicyEmail \<longrightarrow> ct_requiresAddressClaim tok)
     \<and> (ct_enabled tok \<and> ct_requiresAttestation tok \<longrightarrow>
          (\<exists>x fs. po_measurements p x = Some fs \<and> f \<in> fs))"

definition wf_policy :: "policy \<Rightarrow> bool" where
  "wf_policy p \<longleftrightarrow> po_mode p \<in> {ModeDevelopment, ModeProduction}
     \<and> (po_mode p = ModeProduction \<longrightarrow> \<not> AllowSoftwareWitness (po_defaults p))
     \<and> 0 < MaxBatch (po_defaults p) \<and> 0 < AuthorizationTTL (po_defaults p)
     \<and> (\<forall>f tok. po_tokens p f = Some tok \<longrightarrow> wf_token p f tok)
     \<and> (\<forall>g gate. po_gates p g = Some gate \<longrightarrow> wf_gate g gate)
     \<and> (\<forall>b r. po_budgets p b = Some r \<longrightarrow> validName b \<and> 0 < br_Limit r \<and> 0 < br_WindowSeconds r)
     \<and> (\<forall>x fs. po_measurements p x = Some fs \<longrightarrow> fs \<noteq> {} \<and> fs \<subseteq> dom (po_tokens p))"

lemma compile_budget_Inr_iff:
  "compile_budget nb = Inr r \<longleftrightarrow>
     r = nb \<and> validName (fst nb) \<and> 0 < br_Limit (snd nb) \<and> 0 < br_WindowSeconds (snd nb)"
  by (cases nb) (auto simp: compile_budget_def guard_Inr_iff)

lemma compile_gate_Inr:
  "compile_gate nb = Inr r \<Longrightarrow> fst r = fst nb \<and> wf_gate (fst r) (snd r)"
  by (cases nb)
    (auto simp: compile_gate_def result_simps Let_def wf_gate_def policy_consts split: if_splits)

lemma check_gate_Inr:
  "check_gate name t gates g = Inr g' \<Longrightarrow>
     g' = g \<and> (\<exists>gate. gates g = Some gate \<and> (tr_Enabled t \<longrightarrow> cg_enabled gate)
       \<and> (tr_RequiresAddressClaim t \<longrightarrow> cg_addressClaim gate \<noteq> []))"
  by (auto simp: check_gate_def result_simps split: option.splits)

lemma compile_token_fst: "compile_token d b g nt = Inr r \<Longrightarrow> fst r = fst nt"
  by (cases nt) (auto simp: compile_token_def result_simps Let_def)

lemma compile_token_Inr_iff:
  "compile_token d budgets gates (name, t) = Inr (name', tok) \<longleftrightarrow>
   (\<exists>gs origins. validTokenFamily name
     \<and> traverse (check_gate name t gates) (tr_AllowedGates t) = Inr gs
     \<and> traverse (trimmed (EFamilyOrigin name)) (tr_AllowedOrigins t) = Inr origins
     \<and> 0 < (if tr_MaxBatch t = 0 then MaxBatch d else tr_MaxBatch t)
     \<and> tr_BudgetGroup t \<noteq> [] \<and> budgets (tr_BudgetGroup t) \<noteq> None
     \<and> \<not> (tr_Enabled t \<and> tr_AllowedGates t = [])
     \<and> \<not> (name = TokenPolicyEmail \<and> \<not> tr_RequiresAddressClaim t)
     \<and> name' = name
     \<and> tok = \<lparr>ct_name = name, ct_enabled = tr_Enabled t, ct_allowedGates = set gs,
              ct_allowedOrigins = set origins, ct_budgetGroup = tr_BudgetGroup t,
              ct_maxBatch = (if tr_MaxBatch t = 0 then MaxBatch d else tr_MaxBatch t),
              ct_requiresAddressClaim = tr_RequiresAddressClaim t,
              ct_requiresAttestation = tr_RequiresAttestation t,
              ct_requiresOrigin = (tr_RequiresOrigin t \<or> origins \<noteq> [])\<rparr>)"
  unfolding compile_token_def prod.case Let_def bind_result_Inr_iff guard_Inr_iff sum.inject Pair_inject
  by blast

lemma compile_token_Inr:
  assumes "compile_token d budgets gates (name, t) = Inr (name', tok)"
  shows "ct_name tok = name \<and> validTokenFamily name \<and> 0 < ct_maxBatch tok
     \<and> ct_budgetGroup tok \<in> dom budgets
     \<and> (\<forall>g \<in> ct_allowedGates tok. \<exists>gate. gates g = Some gate
          \<and> (ct_enabled tok \<longrightarrow> cg_enabled gate)
          \<and> (ct_requiresAddressClaim tok \<longrightarrow> cg_addressClaim gate \<noteq> []))
     \<and> (ct_enabled tok \<longrightarrow> ct_allowedGates tok \<noteq> {})
     \<and> (ct_allowedOrigins tok \<noteq> {} \<longrightarrow> ct_requiresOrigin tok)
     \<and> (name = TokenPolicyEmail \<longrightarrow> ct_requiresAddressClaim tok)"
proof -
  from assms obtain gs origins where
    gs: "traverse (check_gate name t gates) (tr_AllowedGates t) = Inr gs"
    and tok: "tok = \<lparr>ct_name = name, ct_enabled = tr_Enabled t, ct_allowedGates = set gs,
              ct_allowedOrigins = set origins, ct_budgetGroup = tr_BudgetGroup t,
              ct_maxBatch = (if tr_MaxBatch t = 0 then MaxBatch d else tr_MaxBatch t),
              ct_requiresAddressClaim = tr_RequiresAddressClaim t,
              ct_requiresAttestation = tr_RequiresAttestation t,
              ct_requiresOrigin = (tr_RequiresOrigin t \<or> origins \<noteq> [])\<rparr>"
    and facts: "validTokenFamily name" "0 < (if tr_MaxBatch t = 0 then MaxBatch d else tr_MaxBatch t)"
      "budgets (tr_BudgetGroup t) \<noteq> None" "\<not> (tr_Enabled t \<and> tr_AllowedGates t = [])"
      "\<not> (name = TokenPolicyEmail \<and> \<not> tr_RequiresAddressClaim t)"
    unfolding compile_token_Inr_iff by (elim exE conjE)
  have gate: "\<exists>gate. gates g = Some gate \<and> (tr_Enabled t \<longrightarrow> cg_enabled gate)
       \<and> (tr_RequiresAddressClaim t \<longrightarrow> cg_addressClaim gate \<noteq> [])" if "g \<in> set gs" for g
    using gs that by (rule traverse_in) (use check_gate_Inr in blast)
  have "gs = [] \<longleftrightarrow> tr_AllowedGates t = []"
    using gs by (auto simp: traverse_Inr_iff)
  then show ?thesis using facts gate by (simp add: tok dom_def)
qed

lemma measurement_map_eq:
  "measurement_map ms x = (if x \<in> fst ` set ms then Some (\<Union>e \<in> {e \<in> set ms. fst e = x}. set (snd e)) else None)"
proof (cases "filter (\<lambda>(v, _). v = x) ms")
  case Nil
  then have "x \<notin> fst ` set ms" by (auto simp: filter_empty_conv)
  then show ?thesis using Nil by (simp add: measurement_map_def)
next
  case (Cons e es)
  then have eq: "set (e # es) = {e \<in> set ms. fst e = x}"
    unfolding Cons [symmetric] set_filter by auto
  moreover have "x \<in> fst ` set ms" using eq by force
  moreover have "measurement_map ms x = Some (\<Union>e \<in> set (e # es). set (snd e))"
    by (simp add: measurement_map_def Cons)
  ultimately show ?thesis by simp
qed

lemma Compile_Inr:
  assumes "Compile src = Inr p"
  obtains budgets gates tokens ms where
    "po_mode p = (if ps_Mode src = [] then ModeProduction else ps_Mode src)"
    "po_mode p = ModeDevelopment \<or> po_mode p = ModeProduction"
    "\<not> (po_mode p = ModeProduction \<and> AllowSoftwareWitness (ps_Defaults src))"
    "0 < MaxBatch (ps_Defaults src)" "0 < AuthorizationTTL (ps_Defaults src)"
    "traverse compile_budget (ps_Budgets src) = Inr budgets"
    "traverse compile_gate (ps_Gates src) = Inr gates"
    "traverse (compile_token (ps_Defaults src) (map_of budgets) (map_of gates))
       (ps_TokenFamilies src) = Inr tokens"
    "traverse (compile_measurement (map_of tokens)) (ps_Measurements src) = Inr ms"
    "\<forall>nt \<in> set tokens. \<exists>u. check_attestation ms nt = Inr u"
    "po_mode p = ModeProduction \<longrightarrow> (\<forall>nt \<in> set tokens. \<exists>u. check_provenance (map_of gates) nt = Inr u)"
    "p = \<lparr>po_mode = po_mode p, po_defaults = ps_Defaults src, po_tokens = map_of tokens,
          po_gates = map_of gates, po_measurements = measurement_map ms, po_budgets = map_of budgets\<rparr>"
proof -
  define mode where "mode = (if ps_Mode src = [] then ModeProduction else ps_Mode src)"
  from assms obtain budgets gates tokens ms us vs where
    "mode = ModeDevelopment \<or> mode = ModeProduction"
    "\<not> (mode = ModeProduction \<and> AllowSoftwareWitness (ps_Defaults src))"
    "0 < MaxBatch (ps_Defaults src)" "0 < AuthorizationTTL (ps_Defaults src)"
    "traverse compile_budget (ps_Budgets src) = Inr budgets"
    "traverse compile_gate (ps_Gates src) = Inr gates"
    "traverse (compile_token (ps_Defaults src) (map_of budgets) (map_of gates))
       (ps_TokenFamilies src) = Inr tokens"
    "traverse (compile_measurement (map_of tokens)) (ps_Measurements src) = Inr ms"
    and att: "traverse (check_attestation ms) tokens = Inr us"
    and prov: "(if mode = ModeProduction then traverse (check_provenance (map_of gates)) tokens else Inr []) = Inr vs"
    and p: "\<lparr>po_mode = mode, po_defaults = ps_Defaults src, po_tokens = map_of tokens,
          po_gates = map_of gates, po_measurements = measurement_map ms, po_budgets = map_of budgets\<rparr> = p"
    unfolding Compile_def Let_def mode_def [symmetric] bind_result_Inr_iff guard_Inr_iff sum.inject
    by (elim exE conjE) (rule that; assumption)
  moreover have mode: "po_mode p = mode" using p by auto
  moreover have "p = \<lparr>po_mode = po_mode p, po_defaults = ps_Defaults src, po_tokens = map_of tokens,
      po_gates = map_of gates, po_measurements = measurement_map ms, po_budgets = map_of budgets\<rparr>"
    unfolding mode using p by (rule sym)
  moreover have "\<forall>nt \<in> set tokens. \<exists>u. check_attestation ms nt = Inr u"
    unfolding traverse_ok_iff [symmetric] using att by (rule exI)
  moreover have "\<forall>nt \<in> set tokens. \<exists>u. check_provenance (map_of gates) nt = Inr u"
    if "mode = ModeProduction"
    unfolding traverse_ok_iff [symmetric] using prov that by auto
  ultimately show ?thesis by (intro that [of budgets gates tokens ms]) (simp_all only: mode mode_def, simp_all)
qed

lemma check_measurement_family_Inr_iff:
  "check_measurement_family x tokens f = Inr g \<longleftrightarrow> g = f \<and> validTokenFamily f \<and> tokens f \<noteq> None"
  by (auto simp: check_measurement_family_def guard_Inr_iff)

lemma compile_measurement_Inr:
  assumes "compile_measurement tokens m = Inr e"
  shows "fst e = mr_ValueX m \<and> snd e \<noteq> [] \<and> set (snd e) \<subseteq> dom tokens"
proof -
  from assms obtain fs where fs: "traverse (check_measurement_family (mr_ValueX m) tokens) (mr_Allow m) = Inr fs"
    and e: "e = (mr_ValueX m, fs)" "mr_Allow m \<noteq> []"
    by (auto simp: compile_measurement_def bind_result_Inr_iff guard_Inr_iff)
  from traverse_set [OF fs] have "set fs \<subseteq> dom tokens"
    by (auto simp: check_measurement_family_Inr_iff)
  moreover have "fs \<noteq> []" using fs e(2) by (auto simp: traverse_Inr_iff)
  ultimately show ?thesis using e(1) by simp
qed

lemma map_of_traverse_in:
  assumes "traverse f xs = Inr ys" "map_of ys k = Some v"
  obtains x where "x \<in> set xs" "f x = Inr (k, v)"
  using traverse_in [OF assms(1) map_of_SomeD [OF assms(2)]] by blast

lemma wf_measurements:
  assumes "traverse (compile_measurement tokens) xs = Inr ms" "measurement_map ms x = Some fs"
  shows "fs \<noteq> {} \<and> fs \<subseteq> dom tokens"
proof -
  have each: "snd e \<noteq> [] \<and> set (snd e) \<subseteq> dom tokens" if "e \<in> set ms" for e
    using traverse_in [OF assms(1) that] compile_measurement_Inr by metis
  have "x \<in> fst ` set ms" and fs: "fs = (\<Union>e \<in> {e \<in> set ms. fst e = x}. set (snd e))"
    using assms(2) by (simp_all add: measurement_map_eq split: if_splits)
  then obtain e where "e \<in> set ms" "fst e = x" by auto
  then show ?thesis using each unfolding fs by fastforce
qed

lemma anyMeasurementAllows_map:
  "anyMeasurementAllows ms f \<longleftrightarrow> (\<exists>x fs. measurement_map ms x = Some fs \<and> f \<in> fs)"
  by (auto simp: anyMeasurementAllows_def list_ex_iff measurement_map_eq) force

lemma wf_policy_Compile:
  assumes "Compile src = Inr p"
  shows "wf_policy p"
proof -
  from assms obtain budgets gates tokens ms where mode:
    "po_mode p = ModeDevelopment \<or> po_mode p = ModeProduction"
    "\<not> (po_mode p = ModeProduction \<and> AllowSoftwareWitness (ps_Defaults src))"
    "0 < MaxBatch (ps_Defaults src)" "0 < AuthorizationTTL (ps_Defaults src)"
    and budgets: "traverse compile_budget (ps_Budgets src) = Inr budgets"
    and gates: "traverse compile_gate (ps_Gates src) = Inr gates"
    and tokens: "traverse (compile_token (ps_Defaults src) (map_of budgets) (map_of gates))
       (ps_TokenFamilies src) = Inr tokens"
    and ms: "traverse (compile_measurement (map_of tokens)) (ps_Measurements src) = Inr ms"
    and att: "\<forall>nt \<in> set tokens. \<exists>u. check_attestation ms nt = Inr u"
    and prov: "po_mode p = ModeProduction \<longrightarrow> (\<forall>nt \<in> set tokens. \<exists>u. check_provenance (map_of gates) nt = Inr u)"
    and p: "p = \<lparr>po_mode = po_mode p, po_defaults = ps_Defaults src, po_tokens = map_of tokens,
          po_gates = map_of gates, po_measurements = measurement_map ms, po_budgets = map_of budgets\<rparr>"
    by (rule Compile_Inr) (rule that; assumption)
  have fields: "po_defaults p = ps_Defaults src" "po_tokens p = map_of tokens" "po_gates p = map_of gates"
    "po_measurements p = measurement_map ms" "po_budgets p = map_of budgets"
    by (subst p, simp)+
  have tok: "wf_token p f tok" if "po_tokens p f = Some tok" for f tok
  proof -
    from that have mem: "(f, tok) \<in> set tokens" and look: "map_of tokens f = Some tok"
      by (auto simp: fields dest: map_of_SomeD)
    from map_of_traverse_in [OF tokens look] obtain name t where
      "compile_token (ps_Defaults src) (map_of budgets) (map_of gates) (name, t) = Inr (f, tok)"
      by (metis surj_pair)
    with compile_token_Inr [OF this] compile_token_fst [OF this]
    have base: "ct_name tok = f \<and> validTokenFamily f \<and> 0 < ct_maxBatch tok
     \<and> ct_budgetGroup tok \<in> dom (map_of budgets)
     \<and> (\<forall>g \<in> ct_allowedGates tok. \<exists>gate. map_of gates g = Some gate
          \<and> (ct_enabled tok \<longrightarrow> cg_enabled gate)
          \<and> (ct_requiresAddressClaim tok \<longrightarrow> cg_addressClaim gate \<noteq> []))
     \<and> (ct_enabled tok \<longrightarrow> ct_allowedGates tok \<noteq> {})
     \<and> (ct_allowedOrigins tok \<noteq> {} \<longrightarrow> ct_requiresOrigin tok)
     \<and> (f = TokenPolicyEmail \<longrightarrow> ct_requiresAddressClaim tok)"
      by simp
    have "\<exists>x fs. measurement_map ms x = Some fs \<and> f \<in> fs"
      if "ct_enabled tok" "ct_requiresAttestation tok"
      using att mem that by (force simp: check_attestation_def guard_Inr_iff anyMeasurementAllows_map)
    moreover have "cg_bucketSource gate \<noteq> []"
      if "po_mode p = ModeProduction" "ct_enabled tok" "g \<in> ct_allowedGates tok" "map_of gates g = Some gate"
      for g gate
      using prov mem that by (force simp: check_provenance_def guard_Inr_iff)
    ultimately show ?thesis using base unfolding wf_token_def fields by blast
  qed
  have "wf_gate g gate" if "po_gates p g = Some gate" for g gate
    using map_of_traverse_in [OF gates, of g gate] that compile_gate_Inr by (metis fields(3) fst_conv snd_conv)
  moreover have "validName b \<and> 0 < br_Limit r \<and> 0 < br_WindowSeconds r" if "po_budgets p b = Some r" for b r
    using map_of_traverse_in [OF budgets, of b r] that by (auto simp: fields compile_budget_Inr_iff)
  ultimately show ?thesis using mode tok wf_measurements [OF ms] by (auto simp: wf_policy_def fields)
qed

text \<open>
  C28: Whatever policy file the issuer accepts, the policy it runs on is well formed: its mode is
  one of the two, production never allows the software witness, every token family refers to a
  budget and to gates that exist, an enabled family only to enabled gates, a family that needs an
  address only to gates that prove one, in production every gate an enabled family mints through
  names where its rate-limit bucket comes from, an enabled family that requires attestation has a
  measurement that allows it, and every budget has a positive limit and window.
\<close>

theorem Compile_wf:
  assumes "Compile src = Inr p"
  shows "wf_policy p"
  using assms by (rule wf_policy_Compile)

text \<open>The development policy the issuer daemon is built with.\<close>

definition builtinDevPolicy :: policy_source where
  "builtinDevPolicy = \<lparr>ps_Version = 1, ps_Mode = ''development'',
     ps_Defaults = \<lparr>AllowSoftwareWitness = True, MaxBatch = 4, AuthorizationTTL = 120\<rparr>,
     ps_TokenFamilies = [(''private_identity'',
       \<lparr>tr_Enabled = True, tr_AllowedGates = [''email''], tr_AllowedOrigins = [],
        tr_BudgetGroup = ''mailproof'', tr_MaxBatch = 0, tr_RequiresAddressClaim = False,
        tr_RequiresAttestation = False, tr_RequiresOrigin = False\<rparr>)],
     ps_Gates = [(''email'',
       \<lparr>gr_Enabled = True, gr_BucketClaim = [], gr_BucketSource = ''caller'',
        gr_AddressClaim = [], gr_AllowedHosts = []\<rparr>)],
     ps_Measurements = [],
     ps_Budgets = [(''mailproof'', \<lparr>br_Limit = 8, br_WindowSeconds = 3600\<rparr>)]\<rparr>"

definition dev_policy :: policy where
  "dev_policy = \<lparr>po_mode = ''development'',
     po_defaults = \<lparr>AllowSoftwareWitness = True, MaxBatch = 4, AuthorizationTTL = 120\<rparr>,
     po_tokens = [''private_identity'' \<mapsto>
       \<lparr>ct_name = ''private_identity'', ct_enabled = True, ct_allowedGates = {''email''},
        ct_allowedOrigins = {}, ct_budgetGroup = ''mailproof'', ct_maxBatch = 4,
        ct_requiresAddressClaim = False, ct_requiresAttestation = False, ct_requiresOrigin = False\<rparr>],
     po_gates = [''email'' \<mapsto>
       \<lparr>cg_name = ''email'', cg_enabled = True, cg_bucketClaim = [], cg_bucketSource = ''caller'',
        cg_addressClaim = [], cg_allowedHosts = {}\<rparr>],
     po_measurements = Map.empty,
     po_budgets = [''mailproof'' \<mapsto> \<lparr>br_Limit = 8, br_WindowSeconds = 3600\<rparr>]\<rparr>"

lemma measurement_map_Nil: "measurement_map [] = Map.empty"
  by (simp add: measurement_map_def fun_eq_iff)

lemma Compile_builtinDevPolicy: "Compile builtinDevPolicy = Inr dev_policy"
  by (simp add: Compile_def builtinDevPolicy_def dev_policy_def compile_budget_def compile_gate_def
      compile_token_def check_gate_def check_attestation_def validName_def in_range_def name_char_def
      validTokenFamily_def policy_consts measurement_map_Nil)

theorem Compile_wf_witness: "wf_policy dev_policy"
  by (rule Compile_wf [OF Compile_builtinDevPolicy])

section \<open>Compilation does not depend on the iteration order of the maps\<close>

text \<open>
  Two presentations of one policy source: the same maps, visited in another order. Go leaves the
  order of \<^verbatim>\<open>range\<close> over a map unspecified.
\<close>

definition same_source :: "policy_source \<Rightarrow> policy_source \<Rightarrow> bool" where
  "same_source src src' \<longleftrightarrow>
     ps_Version src' = ps_Version src \<and> ps_Mode src' = ps_Mode src \<and> ps_Defaults src' = ps_Defaults src
     \<and> ps_Measurements src' = ps_Measurements src
     \<and> mset (ps_TokenFamilies src') = mset (ps_TokenFamilies src)
     \<and> mset (ps_Gates src') = mset (ps_Gates src)
     \<and> mset (ps_Budgets src') = mset (ps_Budgets src)
     \<and> distinct (map fst (ps_TokenFamilies src)) \<and> distinct (map fst (ps_Gates src))
     \<and> distinct (map fst (ps_Budgets src))"

lemma traverse_reordered_map:
  assumes tr: "traverse f xs = Inr ys" and keys: "\<And>x y. f x = Inr y \<Longrightarrow> fst y = fst x"
    and perm: "mset xs' = mset xs" and dist: "distinct (map fst xs)"
  obtains ys' where "traverse f xs' = Inr ys'" "map_of ys' = map_of ys" "set ys' = set ys"
proof -
  obtain ys' where ys': "traverse f xs' = Inr ys'" "set ys' = set ys"
    using traverse_reorder [OF tr] mset_eq_setD [OF perm] by metis
  have "mset (map fst xs') = mset (map fst xs)" using perm by simp
  then have "distinct (map fst xs')" using dist by (rule mset_eq_imp_distinct_iff [THEN iffD2])
  then have "distinct (map fst ys')" "distinct (map fst ys)"
    using traverse_keys [of f, OF keys] ys'(1) tr dist by metis+
  then have "map_of ys' = map_of ys" using ys'(2) map_of_inject_set by blast
  then show ?thesis using ys' that by blast
qed

text \<open>
  C29: Compile is deterministic although it ranges over Go maps: if a source compiles, then it
  compiles to the same policy in whatever order its token families, gates and budgets are
  visited.
\<close>

theorem Compile_order_independent:
  assumes "same_source src src'" and ok: "Compile src = Inr p"
  shows "Compile src' = Inr p"
proof -
  note same = assms(1) [unfolded same_source_def]
  have nonempty: "ps_Version src = 1" "ps_TokenFamilies src \<noteq> []" "ps_Gates src \<noteq> []" "ps_Budgets src \<noteq> []"
    using ok unfolding Compile_def Let_def bind_result_Inr_iff guard_Inr_iff by simp_all
  have ne': "ps_TokenFamilies src' \<noteq> []" "ps_Gates src' \<noteq> []" "ps_Budgets src' \<noteq> []"
    using nonempty same by force+
  from ok obtain budgets gates tokens ms where mode:
    "po_mode p = (if ps_Mode src = [] then ModeProduction else ps_Mode src)"
    "po_mode p = ModeDevelopment \<or> po_mode p = ModeProduction"
    "\<not> (po_mode p = ModeProduction \<and> AllowSoftwareWitness (ps_Defaults src))"
    "0 < MaxBatch (ps_Defaults src)" "0 < AuthorizationTTL (ps_Defaults src)"
    and budgets: "traverse compile_budget (ps_Budgets src) = Inr budgets"
    and gates: "traverse compile_gate (ps_Gates src) = Inr gates"
    and tokens: "traverse (compile_token (ps_Defaults src) (map_of budgets) (map_of gates))
       (ps_TokenFamilies src) = Inr tokens"
    and ms: "traverse (compile_measurement (map_of tokens)) (ps_Measurements src) = Inr ms"
    and att: "\<forall>nt \<in> set tokens. \<exists>u. check_attestation ms nt = Inr u"
    and prov: "po_mode p = ModeProduction \<longrightarrow> (\<forall>nt \<in> set tokens. \<exists>u. check_provenance (map_of gates) nt = Inr u)"
    and p: "p = \<lparr>po_mode = po_mode p, po_defaults = ps_Defaults src, po_tokens = map_of tokens,
          po_gates = map_of gates, po_measurements = measurement_map ms, po_budgets = map_of budgets\<rparr>"
    by (rule Compile_Inr) (rule that; assumption)
  obtain budgets' where b': "traverse compile_budget (ps_Budgets src') = Inr budgets'" "map_of budgets' = map_of budgets"
    using traverse_reordered_map [OF budgets, of "ps_Budgets src'"] same by (auto simp: compile_budget_Inr_iff)
  obtain gates' where g': "traverse compile_gate (ps_Gates src') = Inr gates'" "map_of gates' = map_of gates"
    using traverse_reordered_map [OF gates, of "ps_Gates src'"] same compile_gate_Inr by metis
  obtain tokens' where t': "traverse (compile_token (ps_Defaults src) (map_of budgets) (map_of gates))
       (ps_TokenFamilies src') = Inr tokens'" "map_of tokens' = map_of tokens" "set tokens' = set tokens"
    using traverse_reordered_map [OF tokens, of "ps_TokenFamilies src'"] same compile_token_fst by metis
  obtain us where us: "traverse (check_attestation ms) tokens' = Inr us"
    using att t'(3) traverse_ok_iff [of "check_attestation ms" tokens'] by auto
  obtain vs where vs: "po_mode p = ModeProduction \<Longrightarrow>
      traverse (check_provenance (map_of gates)) tokens' = Inr vs"
    using prov t'(3) traverse_ok_iff [of "check_provenance (map_of gates)" tokens']
    by (cases "po_mode p = ModeProduction") auto
  have mode': "(if ps_Mode src' = [] then ModeProduction else ps_Mode src') = po_mode p"
    using same mode(1) by simp
  have "Compile src' = Inr \<lparr>po_mode = po_mode p, po_defaults = ps_Defaults src, po_tokens = map_of tokens,
          po_gates = map_of gates, po_measurements = measurement_map ms, po_budgets = map_of budgets\<rparr>"
    unfolding Compile_def Let_def mode' using same nonempty(1) ne' mode(2-)
    by (simp add: b' g' t' ms us vs guard_Inr_iff)
  then show ?thesis using p by simp
qed

theorem Compile_order_independent_witness:
  "Compile (builtinDevPolicy\<lparr>ps_Budgets := [(''b'', \<lparr>br_Limit = 1, br_WindowSeconds = 1\<rparr>),
      (''mailproof'', \<lparr>br_Limit = 8, br_WindowSeconds = 3600\<rparr>)]\<rparr>) =
   Compile (builtinDevPolicy\<lparr>ps_Budgets := [(''mailproof'', \<lparr>br_Limit = 8, br_WindowSeconds = 3600\<rparr>),
      (''b'', \<lparr>br_Limit = 1, br_WindowSeconds = 1\<rparr>)]\<rparr>)"
proof -
  let ?src = "builtinDevPolicy\<lparr>ps_Budgets := [(''mailproof'', \<lparr>br_Limit = 8, br_WindowSeconds = 3600\<rparr>),
      (''b'', \<lparr>br_Limit = 1, br_WindowSeconds = 1\<rparr>)]\<rparr>"
  have "\<exists>p. Compile ?src = Inr p"
    by (simp add: Compile_def builtinDevPolicy_def compile_budget_def compile_gate_def
      compile_token_def check_gate_def check_attestation_def validName_def in_range_def name_char_def
      validTokenFamily_def policy_consts)
  then obtain p where p: "Compile ?src = Inr p" ..
  show ?thesis unfolding p
    by (rule Compile_order_independent [OF _ p]) (simp add: same_source_def builtinDevPolicy_def add.commute)
qed

end
