(* ===== verification/Authorize.thy ===== *)
theory Authorize
  imports Budget Policy
begin

text \<open>
  \<^verbatim>\<open>tokenauth/evaluate.go\<close>: the mint decision. \<open>AuthorizeMint\<close> runs the checks in the order of
  the source, records each one, and charges the budget store last. The checks before the store
  is touched are a value of the type \<open>checked\<close> (what was recorded, then the denial or the value
  to go on with); the store is whatever \<open>reserve\<close> operation the caller plugs in, or nil.
\<close>

section \<open>Requests and decisions\<close>

definition AssuranceVerified :: string where "AssuranceVerified = ''verified''"

type_synonym claims = "string \<rightharpoonup> string"

text \<open>A missing key of a Go map of strings reads as the empty string.\<close>

definition claim_of :: "claims \<Rightarrow> string \<Rightarrow> string" where
  "claim_of m k = (case m k of None \<Rightarrow> [] | Some v \<Rightarrow> v)"

record subject =
  su_ValueX :: string
  su_Platform :: string
  su_Runtime :: string
  su_Claims :: claims

record eligibility =
  el_GateKind :: gate_kind
  el_BucketID :: string
  el_Assurance :: string
  el_Claims :: claims

record mint_request =
  mq_Subject :: subject
  mq_Eligibility :: "eligibility list"
  mq_TokenFamily :: token_family
  mq_Count :: int
  mq_KeyVersion :: u32
  mq_Origin :: string
  mq_Address :: string
  mq_Binding :: bytes

record mint_constraints =
  mc_TokenFamily :: token_family
  mc_Count :: int
  mc_KeyVersion :: u32
  mc_BindingB64 :: string
  mc_BudgetKey :: string
  mc_Origin :: string
  mc_Address :: string
  mc_ExpiresAt :: int

text \<open>Detail texts: a literal, a \<^verbatim>\<open>fmt.Sprintf\<close> with its arguments, or a store's error.\<close>

datatype fmt_arg = FStr string | FInt int
datatype detail = Msg string | Sprintf string "fmt_arg list" | StoreError budget_error

record check =
  ck_Name :: string
  ck_Pass :: bool
  ck_Detail :: detail

record mint_decision =
  md_Allow :: bool
  md_Reason :: detail
  md_Checks :: "check list"
  md_Constraints :: mint_constraints

definition no_constraints :: mint_constraints where
  "no_constraints = \<lparr>mc_TokenFamily = [], mc_Count = 0, mc_KeyVersion = 0, mc_BindingB64 = [],
     mc_BudgetKey = [], mc_Origin = [], mc_Address = [], mc_ExpiresAt = 0\<rparr>"

section \<open>Recording checks\<close>

type_synonym 'a checked = "check list \<times> (detail, 'a) result"

definition passed :: "string \<Rightarrow> detail \<Rightarrow> unit checked" where
  "passed name d = ([\<lparr>ck_Name = name, ck_Pass = True, ck_Detail = d\<rparr>], Inr ())"

definition failed :: "string \<Rightarrow> detail \<Rightarrow> 'a checked" where
  "failed name d = ([\<lparr>ck_Name = name, ck_Pass = False, ck_Detail = d\<rparr>], Inl d)"

definition proceed :: "'a \<Rightarrow> 'a checked" where
  "proceed a = ([], Inr a)"

definition unless_fail :: "bool \<Rightarrow> string \<Rightarrow> detail \<Rightarrow> unit checked" where
  "unless_fail bad name d = (if bad then failed name d else proceed ())"

definition and_then :: "'a checked \<Rightarrow> ('a \<Rightarrow> 'b checked) \<Rightarrow> 'b checked" where
  "and_then m f = (case m of (cs, Inl d) \<Rightarrow> (cs, Inl d)
     | (cs, Inr a) \<Rightarrow> (case f a of (cs', r) \<Rightarrow> (cs @ cs', r)))"

section \<open>The checks, in the order of the source\<close>

definition short :: "string \<Rightarrow> string" where
  "short s = take 12 s"

fun chooseEligibility ::
  "utables \<Rightarrow> policy \<Rightarrow> eligibility list \<Rightarrow> compiled_token \<Rightarrow> (eligibility \<times> compiled_gate) option" where
  "chooseEligibility u p [] tok = None"
| "chooseEligibility u p (e # es) tok =
     (if el_BucketID e = [] \<or> \<not> equal_fold u (el_Assurance e) AssuranceVerified
      then chooseEligibility u p es tok
      else if el_GateKind e \<notin> ct_allowedGates tok then chooseEligibility u p es tok
      else (case po_gates p (el_GateKind e) of
              None \<Rightarrow> chooseEligibility u p es tok
            | Some gate \<Rightarrow> if \<not> cg_enabled gate then chooseEligibility u p es tok else Some (e, gate)))"

text \<open>The token family, the size of the batch, the key version and the binding.\<close>

definition check_request :: "policy option \<Rightarrow> mint_request \<Rightarrow> gotime \<Rightarrow> (policy \<times> compiled_token) checked" where
  "check_request po req now =
     and_then (case po of None \<Rightarrow> failed ''policy_present'' (Msg ''policy is nil'') | Some p \<Rightarrow> proceed p) (\<lambda>p.
     and_then (passed ''policy_present'' (Msg '''')) (\<lambda>_.
     and_then (unless_fail (now = zero_time) ''time_present'' (Msg ''now is required'')) (\<lambda>_.
     and_then (passed ''time_present'' (Msg '''')) (\<lambda>_.
     and_then (case po_tokens p (mq_TokenFamily req) of
         None \<Rightarrow> failed ''token_family_known''
           (Sprintf ''token family %q is not defined'' [FStr (mq_TokenFamily req)])
       | Some tok \<Rightarrow> proceed tok) (\<lambda>tok.
     and_then (passed ''token_family_known'' (Msg (mq_TokenFamily req))) (\<lambda>_.
     and_then (unless_fail (\<not> ct_enabled tok) ''token_family_enabled''
         (Sprintf ''token family %q is disabled'' [FStr (mq_TokenFamily req)])) (\<lambda>_.
     and_then (passed ''token_family_enabled'' (Msg '''')) (\<lambda>_.
     and_then (unless_fail (mq_Count req \<le> 0) ''count_positive'' (Msg ''count must be > 0'')) (\<lambda>_.
     and_then (passed ''count_positive'' (Msg '''')) (\<lambda>_.
     and_then (unless_fail (mq_Count req > ct_maxBatch tok) ''count_within_max_batch''
         (Sprintf ''count %d exceeds max_batch %d'' [FInt (mq_Count req), FInt (ct_maxBatch tok)])) (\<lambda>_.
     and_then (passed ''count_within_max_batch''
         (Sprintf ''count=%d max=%d'' [FInt (mq_Count req), FInt (ct_maxBatch tok)])) (\<lambda>_.
     and_then (unless_fail (mq_KeyVersion req = 0) ''key_version_present'' (Msg ''key_version must be > 0'')) (\<lambda>_.
     and_then (passed ''key_version_present'' (Sprintf ''v%d'' [FInt (uint (mq_KeyVersion req))])) (\<lambda>_.
     and_then (unless_fail (length (mq_Binding req) \<noteq> 32) ''binding_present''
         (Sprintf ''binding must be 32 bytes, got %d'' [FInt (int (length (mq_Binding req)))])) (\<lambda>_.
     and_then (passed ''binding_present'' (Msg '''')) (\<lambda>_.
     proceed (p, tok)))))))))))))))))"

definition check_origin :: "compiled_token \<Rightarrow> mint_request \<Rightarrow> unit checked" where
  "check_origin tok req =
     (if ct_requiresOrigin tok then
        and_then (unless_fail (trim_space (mq_Origin req) = []) ''origin_present''
            (Msg ''origin is required for this token family'')) (\<lambda>_.
        and_then (unless_fail (ct_allowedOrigins tok \<noteq> {} \<and> mq_Origin req \<notin> ct_allowedOrigins tok)
            ''origin_allowed'' (Sprintf ''origin %q is not allowed for token family %q''
               [FStr (mq_Origin req), FStr (mq_TokenFamily req)])) (\<lambda>_.
        passed ''origin_allowed'' (Msg (mq_Origin req))))
      else proceed ())"

definition check_attested :: "policy \<Rightarrow> compiled_token \<Rightarrow> mint_request \<Rightarrow> unit checked" where
  "check_attested p tok req =
     (if ct_requiresAttestation tok then
        and_then (unless_fail (su_ValueX (mq_Subject req) = []) ''attestation_subject_present''
            (Msg ''token family requires attestation but subject.value_x is empty'')) (\<lambda>_.
        case po_measurements p (su_ValueX (mq_Subject req)) of
          None \<Rightarrow> failed ''measurement_allowed'' (Msg ''subject measurement is not allowlisted'')
        | Some allowed \<Rightarrow>
            and_then (unless_fail (mq_TokenFamily req \<notin> allowed) ''measurement_allows_token_family''
                (Msg ''subject measurement does not allow this token family'')) (\<lambda>_.
            passed ''measurement_allows_token_family'' (Msg (short (su_ValueX (mq_Subject req))))))
      else proceed ())"

definition software_witness :: "utables \<Rightarrow> mint_request \<Rightarrow> bool" where
  "software_witness u req \<longleftrightarrow> equal_fold u (su_Platform (mq_Subject req)) ''software-witness''"

definition check_platform :: "utables \<Rightarrow> policy \<Rightarrow> mint_request \<Rightarrow> unit checked" where
  "check_platform u p req =
     and_then (unless_fail (po_mode p = ModeProduction \<and> software_witness u req)
         ''software_witness_rejected'' (Msg ''production policy rejects software-witness'')) (\<lambda>_.
     and_then (unless_fail (software_witness u req \<and> \<not> AllowSoftwareWitness (po_defaults p))
         ''software_witness_allowed'' (Msg ''software-witness is not allowed'')) (\<lambda>_.
     passed ''platform_allowed'' (Msg (su_Platform (mq_Subject req)))))"

definition check_eligibility ::
  "utables \<Rightarrow> policy \<Rightarrow> compiled_token \<Rightarrow> mint_request \<Rightarrow> (eligibility \<times> compiled_gate) checked" where
  "check_eligibility u p tok req =
     (case chooseEligibility u p (mq_Eligibility req) tok of
        None \<Rightarrow> failed ''eligible_gate'' (Msg ''no verified eligibility gate is allowed for this token family'')
      | Some (elig, gate) \<Rightarrow>
          and_then (passed ''eligible_gate'' (Msg (el_GateKind elig))) (\<lambda>_. proceed (elig, gate)))"

definition check_bucket_claim :: "eligibility \<Rightarrow> compiled_gate \<Rightarrow> unit checked" where
  "check_bucket_claim elig gate =
     (if cg_bucketClaim gate \<noteq> [] then
        (let claim = claim_of (el_Claims elig) (cg_bucketClaim gate) in
         and_then (unless_fail (claim = []) ''gate_bucket_claim''
             (Sprintf ''gate %q requires bucket claim %q'' [FStr (cg_name gate), FStr (cg_bucketClaim gate)])) (\<lambda>_.
         unless_fail (claim \<noteq> el_BucketID elig) ''gate_bucket_matches''
             (Sprintf ''gate %q bucket claim does not match bucket_id'' [FStr (cg_name gate)])))
      else proceed ())"

definition check_address_claim ::
  "utables \<Rightarrow> compiled_token \<Rightarrow> mint_request \<Rightarrow> eligibility \<Rightarrow> compiled_gate \<Rightarrow> unit checked" where
  "check_address_claim u tok req elig gate =
     (if ct_requiresAddressClaim tok then
        (let claim = claim_of (el_Claims elig) (cg_addressClaim gate) in
         and_then (unless_fail (claim = []) ''address_claim_present''
             (Sprintf ''token family %q requires gate address claim %q''
                [FStr (mq_TokenFamily req), FStr (cg_addressClaim gate)])) (\<lambda>_.
         and_then (unless_fail (trim_space (mq_Address req) = []) ''address_present''
             (Sprintf ''token family %q requires request address'' [FStr (mq_TokenFamily req)])) (\<lambda>_.
         unless_fail (\<not> equal_fold u claim (mq_Address req)) ''address_matches_claim''
             (Msg ''request address does not match verified gate address claim''))))
      else proceed ())"

definition claimed_host :: "eligibility \<Rightarrow> string" where
  "claimed_host elig =
     (let host = claim_of (el_Claims elig) ''host'' in
      if host = [] then claim_of (el_Claims elig) ''domain'' else host)"

definition check_host :: "eligibility \<Rightarrow> compiled_gate \<Rightarrow> unit checked" where
  "check_host elig gate =
     (if cg_allowedHosts gate \<noteq> {} then
        and_then (unless_fail (claimed_host elig \<notin> cg_allowedHosts gate) ''gate_host_allowed''
            (Sprintf ''host %q not allowed for gate %q'' [FStr (claimed_host elig), FStr (cg_name gate)])) (\<lambda>_.
        passed ''gate_host_allowed'' (Msg (claimed_host elig)))
      else proceed ())"

definition check_budget_defined :: "policy \<Rightarrow> compiled_token \<Rightarrow> budget_rule checked" where
  "check_budget_defined p tok =
     (case po_budgets p (ct_budgetGroup tok) of
        None \<Rightarrow> failed ''budget_defined'' (Sprintf ''budget group %q is undefined'' [FStr (ct_budgetGroup tok)])
      | Some budget \<Rightarrow> proceed budget)"

text \<open>Everything that is checked before the store is asked.\<close>

definition prechecks ::
  "utables \<Rightarrow> policy option \<Rightarrow> mint_request \<Rightarrow> gotime \<Rightarrow>
   (policy \<times> compiled_token \<times> eligibility \<times> budget_rule) checked" where
  "prechecks u po req now =
     and_then (check_request po req now) (\<lambda>(p, tok).
     and_then (check_origin tok req) (\<lambda>_.
     and_then (check_attested p tok req) (\<lambda>_.
     and_then (check_platform u p req) (\<lambda>_.
     and_then (check_eligibility u p tok req) (\<lambda>(elig, gate).
     and_then (check_bucket_claim elig gate) (\<lambda>_.
     and_then (check_address_claim u tok req elig gate) (\<lambda>_.
     and_then (passed ''gate_claims'' (Msg '''')) (\<lambda>_.
     and_then (check_host elig gate) (\<lambda>_.
     and_then (check_budget_defined p tok) (\<lambda>budget.
     proceed (p, tok, elig, budget)))))))))))"

definition budget_key_of :: "eligibility \<Rightarrow> compiled_token \<Rightarrow> string" where
  "budget_key_of elig tok = el_GateKind elig @ '':'' @ el_BucketID elig @ '':'' @ ct_budgetGroup tok"

type_synonym 's reserve_fun =
  "'s \<Rightarrow> string \<Rightarrow> int \<Rightarrow> int \<Rightarrow> duration \<Rightarrow> gotime \<Rightarrow> 's \<times> budget_error option"

text \<open>The call of the store; a nil store grants everything.\<close>

definition charge :: "'s reserve_fun option \<Rightarrow> 's \<Rightarrow> string \<Rightarrow> int \<Rightarrow> budget_rule \<Rightarrow> gotime \<Rightarrow>
    's \<times> budget_error option" where
  "charge store s key amount budget now =
     (case store of None \<Rightarrow> (s, None)
      | Some reserve \<Rightarrow> reserve s key amount (br_Limit budget) (seconds (br_WindowSeconds budget)) now)"

definition denial :: "check list \<Rightarrow> detail \<Rightarrow> mint_decision" where
  "denial checks d = \<lparr>md_Allow = False, md_Reason = d, md_Checks = checks, md_Constraints = no_constraints\<rparr>"

definition AuthorizeMint ::
  "utables \<Rightarrow> policy option \<Rightarrow> mint_request \<Rightarrow> 's reserve_fun option \<Rightarrow> 's \<Rightarrow> gotime \<Rightarrow> 's \<times> mint_decision" where
  "AuthorizeMint u po req store s now =
     (case prechecks u po req now of
        (checks, Inl d) \<Rightarrow> (s, denial checks d)
      | (checks, Inr (p, tok, elig, budget)) \<Rightarrow>
          (let budgetKey = budget_key_of elig tok in
           case charge store s budgetKey (mq_Count req) budget now of
             (s', Some err) \<Rightarrow>
               (s', denial (checks @ [\<lparr>ck_Name = ''budget_available'', ck_Pass = False, ck_Detail = StoreError err\<rparr>])
                      (StoreError err))
           | (s', None) \<Rightarrow>
               (s', \<lparr>md_Allow = True, md_Reason = Msg ''authorized'',
                  md_Checks = checks @ [\<lparr>ck_Name = ''budget_available'', ck_Pass = True, ck_Detail = Msg budgetKey\<rparr>],
                  md_Constraints = \<lparr>mc_TokenFamily = mq_TokenFamily req, mc_Count = mq_Count req,
                    mc_KeyVersion = mq_KeyVersion req, mc_BindingB64 = b64url_encode (mq_Binding req),
                    mc_BudgetKey = budgetKey, mc_Origin = mq_Origin req, mc_Address = mq_Address req,
                    mc_ExpiresAt = unix (now + seconds (AuthorizationTTL (po_defaults p)))\<rparr>\<rparr>)))"

section \<open>What a permitted mint is\<close>

text \<open>The abstract specification: one condition per rule of the policy, no order, no log.\<close>

definition eligible :: "utables \<Rightarrow> policy \<Rightarrow> compiled_token \<Rightarrow> eligibility \<Rightarrow> bool" where
  "eligible u p tok e \<longleftrightarrow> el_BucketID e \<noteq> [] \<and> equal_fold u (el_Assurance e) AssuranceVerified
     \<and> el_GateKind e \<in> ct_allowedGates tok
     \<and> (\<exists>gate. po_gates p (el_GateKind e) = Some gate \<and> cg_enabled gate)"

definition gate_satisfied ::
  "utables \<Rightarrow> compiled_token \<Rightarrow> mint_request \<Rightarrow> eligibility \<Rightarrow> compiled_gate \<Rightarrow> bool" where
  "gate_satisfied u tok req elig gate \<longleftrightarrow>
     (cg_bucketClaim gate \<noteq> [] \<longrightarrow>
        claim_of (el_Claims elig) (cg_bucketClaim gate) \<noteq> [] \<and>
        claim_of (el_Claims elig) (cg_bucketClaim gate) = el_BucketID elig)
     \<and> (ct_requiresAddressClaim tok \<longrightarrow>
        claim_of (el_Claims elig) (cg_addressClaim gate) \<noteq> [] \<and> trim_space (mq_Address req) \<noteq> [] \<and>
        equal_fold u (claim_of (el_Claims elig) (cg_addressClaim gate)) (mq_Address req))
     \<and> (cg_allowedHosts gate \<noteq> {} \<longrightarrow> claimed_host elig \<in> cg_allowedHosts gate)"

definition request_satisfied :: "utables \<Rightarrow> policy \<Rightarrow> mint_request \<Rightarrow> compiled_token \<Rightarrow> bool" where
  "request_satisfied u p req tok \<longleftrightarrow>
     po_tokens p (mq_TokenFamily req) = Some tok \<and> ct_enabled tok
     \<and> 0 < mq_Count req \<and> mq_Count req \<le> ct_maxBatch tok
     \<and> mq_KeyVersion req \<noteq> 0 \<and> length (mq_Binding req) = 32
     \<and> (ct_requiresOrigin tok \<longrightarrow> trim_space (mq_Origin req) \<noteq> [] \<and>
          (ct_allowedOrigins tok = {} \<or> mq_Origin req \<in> ct_allowedOrigins tok))
     \<and> (ct_requiresAttestation tok \<longrightarrow> su_ValueX (mq_Subject req) \<noteq> [] \<and>
          (\<exists>allowed. po_measurements p (su_ValueX (mq_Subject req)) = Some allowed \<and> mq_TokenFamily req \<in> allowed))
     \<and> (software_witness u req \<longrightarrow> po_mode p \<noteq> ModeProduction \<and> AllowSoftwareWitness (po_defaults p))"

definition mint_permitted ::
  "utables \<Rightarrow> policy \<Rightarrow> mint_request \<Rightarrow> gotime \<Rightarrow> compiled_token \<Rightarrow> eligibility \<Rightarrow> budget_rule \<Rightarrow> bool" where
  "mint_permitted u p req now tok elig budget \<longleftrightarrow>
     now \<noteq> zero_time \<and> request_satisfied u p req tok
     \<and> find (eligible u p tok) (mq_Eligibility req) = Some elig
     \<and> (\<exists>gate. po_gates p (el_GateKind elig) = Some gate \<and> gate_satisfied u tok req elig gate)
     \<and> po_budgets p (ct_budgetGroup tok) = Some budget"

lemma chooseEligibility_find:
  "chooseEligibility u p es tok =
     (case find (eligible u p tok) es of None \<Rightarrow> None
      | Some e \<Rightarrow> map_option (\<lambda>gate. (e, gate)) (po_gates p (el_GateKind e)))"
  by (induction es) (auto simp: eligible_def split: option.splits)

named_theorems checked_simps \<open>outcome of recorded checks\<close>

lemma and_then_Inr [checked_simps]:
  "snd (and_then m f) = Inr b \<longleftrightarrow> (\<exists>a. snd m = Inr a \<and> snd (f a) = Inr b)"
  by (cases m; cases "snd m") (auto simp: and_then_def split: prod.splits)

lemma passed_Inr [checked_simps]: "snd (passed n d) = Inr x \<longleftrightarrow> True"
  by (simp add: passed_def)

lemma failed_Inr [checked_simps]: "snd (failed n d) \<noteq> Inr x"
  by (simp add: failed_def)

lemma proceed_Inr [checked_simps]: "snd (proceed a) = Inr b \<longleftrightarrow> b = a"
  by (auto simp: proceed_def)

lemma unless_fail_Inr [checked_simps]: "snd (unless_fail c n d) = Inr x \<longleftrightarrow> \<not> c"
  by (simp add: unless_fail_def failed_def proceed_def)

lemma check_request_Inr:
  "snd (check_request po req now) = Inr (p, tok) \<longleftrightarrow>
     po = Some p \<and> now \<noteq> zero_time \<and> po_tokens p (mq_TokenFamily req) = Some tok \<and> ct_enabled tok
     \<and> 0 < mq_Count req \<and> mq_Count req \<le> ct_maxBatch tok \<and> mq_KeyVersion req \<noteq> 0
     \<and> length (mq_Binding req) = 32"
  by (cases po; cases "po_tokens p (mq_TokenFamily req)")
    (auto simp: check_request_def checked_simps not_le not_less split: option.splits)

lemma check_origin_Inr [checked_simps]:
  "snd (check_origin tok req) = Inr x \<longleftrightarrow>
     (ct_requiresOrigin tok \<longrightarrow> trim_space (mq_Origin req) \<noteq> [] \<and>
       (ct_allowedOrigins tok = {} \<or> mq_Origin req \<in> ct_allowedOrigins tok))"
  by (auto simp: check_origin_def checked_simps)

lemma check_attested_Inr [checked_simps]:
  "snd (check_attested p tok req) = Inr x \<longleftrightarrow>
     (ct_requiresAttestation tok \<longrightarrow> su_ValueX (mq_Subject req) \<noteq> [] \<and>
       (\<exists>allowed. po_measurements p (su_ValueX (mq_Subject req)) = Some allowed \<and> mq_TokenFamily req \<in> allowed))"
  by (auto simp: check_attested_def checked_simps split: option.splits)

lemma check_platform_Inr [checked_simps]:
  "snd (check_platform u p req) = Inr x \<longleftrightarrow>
     (software_witness u req \<longrightarrow> po_mode p \<noteq> ModeProduction \<and> AllowSoftwareWitness (po_defaults p))"
  by (auto simp: check_platform_def checked_simps)

lemma check_eligibility_Inr [checked_simps]:
  "snd (check_eligibility u p tok req) = Inr (elig, gate) \<longleftrightarrow>
     find (eligible u p tok) (mq_Eligibility req) = Some elig \<and> po_gates p (el_GateKind elig) = Some gate"
  by (auto simp: check_eligibility_def checked_simps chooseEligibility_find split: option.splits)

lemma gate_checks_Inr [checked_simps]:
  "snd (check_bucket_claim elig gate) = Inr x \<longleftrightarrow>
     (cg_bucketClaim gate \<noteq> [] \<longrightarrow>
        claim_of (el_Claims elig) (cg_bucketClaim gate) \<noteq> [] \<and>
        claim_of (el_Claims elig) (cg_bucketClaim gate) = el_BucketID elig)"
  "snd (check_address_claim u tok req elig gate) = Inr x \<longleftrightarrow>
     (ct_requiresAddressClaim tok \<longrightarrow>
        claim_of (el_Claims elig) (cg_addressClaim gate) \<noteq> [] \<and> trim_space (mq_Address req) \<noteq> [] \<and>
        equal_fold u (claim_of (el_Claims elig) (cg_addressClaim gate)) (mq_Address req))"
  "snd (check_host elig gate) = Inr x \<longleftrightarrow>
     (cg_allowedHosts gate \<noteq> {} \<longrightarrow> claimed_host elig \<in> cg_allowedHosts gate)"
  by (simp_all add: check_bucket_claim_def check_address_claim_def check_host_def checked_simps Let_def)

lemma check_budget_defined_Inr [checked_simps]:
  "snd (check_budget_defined p tok) = Inr b \<longleftrightarrow> po_budgets p (ct_budgetGroup tok) = Some b"
  by (auto simp: check_budget_defined_def checked_simps split: option.splits)

lemma prechecks_Inr:
  "snd (prechecks u po req now) = Inr (p, tok, elig, budget) \<longleftrightarrow>
     po = Some p \<and> mint_permitted u p req now tok elig budget"
  unfolding prechecks_def and_then_Inr split_paired_Ex prod.case check_request_Inr checked_simps
    mint_permitted_def request_satisfied_def gate_satisfied_def Pair_inject
  by blast

lemma AuthorizeMint_permitted:
  assumes "mint_permitted u p req now tok elig budget"
  shows "AuthorizeMint u (Some p) req store s now =
    (case charge store s (budget_key_of elig tok) (mq_Count req) budget now of
       (s', Some err) \<Rightarrow>
         (s', denial (fst (prechecks u (Some p) req now) @
            [\<lparr>ck_Name = ''budget_available'', ck_Pass = False, ck_Detail = StoreError err\<rparr>]) (StoreError err))
     | (s', None) \<Rightarrow>
         (s', \<lparr>md_Allow = True, md_Reason = Msg ''authorized'',
            md_Checks = fst (prechecks u (Some p) req now) @
              [\<lparr>ck_Name = ''budget_available'', ck_Pass = True, ck_Detail = Msg (budget_key_of elig tok)\<rparr>],
            md_Constraints = \<lparr>mc_TokenFamily = mq_TokenFamily req, mc_Count = mq_Count req,
              mc_KeyVersion = mq_KeyVersion req, mc_BindingB64 = b64url_encode (mq_Binding req),
              mc_BudgetKey = budget_key_of elig tok, mc_Origin = mq_Origin req, mc_Address = mq_Address req,
              mc_ExpiresAt = unix (now + seconds (AuthorizationTTL (po_defaults p)))\<rparr>\<rparr>))"
proof -
  obtain cs where pre: "prechecks u (Some p) req now = (cs, Inr (p, tok, elig, budget))"
    using assms prechecks_Inr [of u "Some p" req now p tok elig budget]
    by (cases "prechecks u (Some p) req now") auto
  show ?thesis unfolding AuthorizeMint_def Let_def pre fst_conv by simp
qed

lemma AuthorizeMint_refused:
  assumes "\<nexists>tok elig budget. mint_permitted u p req now tok elig budget"
  obtains checks d where "AuthorizeMint u (Some p) req store s now = (s, denial checks d)"
    "prechecks u (Some p) req now = (checks, Inl d)"
proof -
  obtain cs r where pre: "prechecks u (Some p) req now = (cs, r)" by fastforce
  show ?thesis
  proof (cases r)
    case (Inl d)
    then show ?thesis using pre by (intro that [of cs d]) (simp_all add: AuthorizeMint_def)
  next
    case (Inr v)
    moreover obtain p' tok elig budget where "v = (p', tok, elig, budget)" by (cases v)
    ultimately show ?thesis using assms pre prechecks_Inr [of u "Some p" req now p' tok elig budget] by auto
  qed
qed

lemma denial_fields [simp]:
  "\<not> md_Allow (denial cs d)" "md_Reason (denial cs d) = d" "md_Checks (denial cs d) = cs"
  "md_Constraints (denial cs d) = no_constraints"
  by (simp_all add: denial_def)

lemma find_unique: "find P xs = Some x \<Longrightarrow> find P xs = Some y \<Longrightarrow> x = y"
  by simp

text \<open>The specification determines the token, the eligibility and the budget.\<close>

lemma mint_permitted_unique:
  "mint_permitted u p req now tok elig b \<Longrightarrow> mint_permitted u p req now tok' elig' b' \<Longrightarrow>
   tok' = tok \<and> elig' = elig \<and> b' = b"
  by (auto simp: mint_permitted_def request_satisfied_def)

text \<open>
  C1: The mint decision is exactly the policy. AuthorizeMint allows a request if and only if the
  request satisfies the policy's rules for its token family (enabled, batch within bounds, key
  version, 32-byte binding, origin, attestation, platform), the first verified eligibility that
  matches an allowed enabled gate satisfies that gate (bucket claim, address claim, host), the
  budget group exists, and the store grants the count under the key gate:bucket:group.
\<close>

theorem AuthorizeMint_allow_iff:
  "md_Allow (snd (AuthorizeMint u (Some p) req store s now)) \<longleftrightarrow>
     (\<exists>tok elig budget. mint_permitted u p req now tok elig budget \<and>
        snd (charge store s (budget_key_of elig tok) (mq_Count req) budget now) = None)"
proof (cases "\<exists>tok elig budget. mint_permitted u p req now tok elig budget")
  case True
  then obtain tok elig budget where ok: "mint_permitted u p req now tok elig budget" by blast
  obtain s' out where res: "charge store s (budget_key_of elig tok) (mq_Count req) budget now = (s', out)"
    by fastforce
  have "(\<exists>tok elig budget. mint_permitted u p req now tok elig budget \<and>
        snd (charge store s (budget_key_of elig tok) (mq_Count req) budget now) = None) \<longleftrightarrow> out = None"
    using ok mint_permitted_unique [OF ok] res by (metis snd_conv)
  then show ?thesis by (cases out) (simp_all add: AuthorizeMint_permitted [OF ok] res)
next
  case False
  then obtain checks d where "AuthorizeMint u (Some p) req store s now = (s, denial checks d)"
    by (rule AuthorizeMint_refused)
  then show ?thesis using False by simp
qed

section \<open>The recorded checks\<close>

text \<open>
  A log is consistent with its outcome: all checks passed, or all but the last, which failed with
  the reason of the denial.
\<close>

definition log_explains :: "check list \<Rightarrow> detail option \<Rightarrow> bool" where
  "log_explains cs reason = (case reason of
       None \<Rightarrow> list_all ck_Pass cs
     | Some d \<Rightarrow> cs \<noteq> [] \<and> list_all ck_Pass (butlast cs) \<and> \<not> ck_Pass (last cs) \<and> ck_Detail (last cs) = d)"

definition log_ok :: "'a checked \<Rightarrow> bool" where
  "log_ok m = (case snd m of Inl d \<Rightarrow> log_explains (fst m) (Some d) | Inr _ \<Rightarrow> log_explains (fst m) None)"

lemma log_ok_basic [intro!, simp]:
  "log_ok (passed n d)" "log_ok (failed n d)" "log_ok (proceed a)" "log_ok (unless_fail c n d)"
  by (simp_all add: log_ok_def log_explains_def passed_def failed_def proceed_def unless_fail_def)

lemma log_ok_and_then [intro!]:
  assumes "log_ok m" "\<And>a. log_ok (f a)"
  shows "log_ok (and_then m f)"
proof (cases m)
  case (Pair cs r)
  show ?thesis
  proof (cases r)
    case (Inl d)
    then show ?thesis using assms(1) Pair by (simp add: and_then_def log_ok_def)
  next
    case (Inr a)
    then show ?thesis using assms(1) assms(2) [of a] Pair
      by (cases "f a") (auto simp: and_then_def log_ok_def log_explains_def butlast_append split: sum.splits)
  qed
qed

lemma log_ok_prechecks: "log_ok (prechecks u po req now)"
  unfolding prechecks_def check_request_def check_origin_def check_attested_def check_platform_def
    check_eligibility_def check_bucket_claim_def check_address_claim_def check_host_def
    check_budget_defined_def Let_def
  by (auto split: option.split prod.split)

text \<open>
  C30: The check log explains the decision. When a mint is allowed every recorded check passed;
  when it is denied every check but the last passed, the last one failed, and its detail is the
  decision's reason. A denial carries no constraints.
\<close>

theorem AuthorizeMint_log:
  "let d = snd (AuthorizeMint u po req store s now) in
     log_explains (md_Checks d) (if md_Allow d then None else Some (md_Reason d)) \<and>
     (md_Allow d \<or> md_Constraints d = no_constraints)"
proof (cases "prechecks u po req now")
  case (Pair cs r)
  then have ok: "log_ok (cs, r)" using log_ok_prechecks [of u po req now] by simp
  show ?thesis
  proof (cases r)
    case (Inl d)
    then show ?thesis using ok Pair by (simp add: AuthorizeMint_def log_ok_def Let_def)
  next
    case (Inr v)
    obtain p tok elig budget where v: "v = (p, tok, elig, budget)" by (cases v)
    obtain s' out where "charge store s (budget_key_of elig tok) (mq_Count req) budget now = (s', out)"
      by fastforce
    then show ?thesis using ok Pair Inr v
      by (cases out) (simp_all add: AuthorizeMint_def log_ok_def log_explains_def Let_def)
  qed
qed

section \<open>The budget key names gate, bucket and group\<close>

lemma validName_no_colon: "validName s \<Longrightarrow> CHR '':'' \<notin> set s"
  by (auto simp: validName_def name_char_def in_range_def list_all_iff split: list.splits)

lemma append_sep_inject:
  assumes "c \<notin> set a" "c \<notin> set a'" "a @ c # r = a' @ c # r'"
  shows "a = a' \<and> r = r'"
  using assms by (induction a arbitrary: a') (auto simp: append_eq_Cons_conv Cons_eq_append_conv)

lemma append_sep_inject_right:
  assumes "c \<notin> set b" "c \<notin> set b'" "r @ c # b = r' @ c # b'"
  shows "r = r' \<and> b = b'"
proof -
  have "rev b @ c # rev r = rev b' @ c # rev r'" using arg_cong [OF assms(3), of rev] by simp
  then have "rev b = rev b' \<and> rev r = rev r'"
    using append_sep_inject [of c "rev b" "rev b'" "rev r" "rev r'"] assms(1,2) by simp
  then show ?thesis by simp
qed

lemma mint_permitted_names:
  assumes "wf_policy p" "mint_permitted u p req now tok elig budget"
  shows "validName (el_GateKind elig) \<and> validName (ct_budgetGroup tok)"
  using assms unfolding wf_policy_def mint_permitted_def wf_gate_def by blast

lemma budget_key_of_inject:
  assumes "validName g" "validName (el_GateKind e)" "validName b" "validName (ct_budgetGroup tok)"
    and eq: "budget_key_of e tok = g @ '':'' @ x @ '':'' @ b"
  shows "el_GateKind e = g \<and> el_BucketID e = x \<and> ct_budgetGroup tok = b"
proof -
  have "el_GateKind e @ CHR '':'' # (el_BucketID e @ CHR '':'' # ct_budgetGroup tok) =
      g @ CHR '':'' # (x @ CHR '':'' # b)"
    using eq by (simp add: budget_key_of_def)
  from append_sep_inject [OF _ _ this] have "el_GateKind e = g"
    "el_BucketID e @ CHR '':'' # ct_budgetGroup tok = x @ CHR '':'' # b"
    using validName_no_colon assms(1-2) by blast+
  with append_sep_inject_right [OF _ _ this(2)] show ?thesis
    using validName_no_colon assms(3-4) by blast
qed

section \<open>Rate limiting of mints\<close>

text \<open>
  An issuer's run: mint decisions on one policy and one store, with prunings in between. The
  memory store is the one of \<open>Budget\<close>.
\<close>

datatype mint_op = Mint mint_request gotime | MintPrune gotime

fun mint_time :: "mint_op \<Rightarrow> gotime" where
  "mint_time (Mint req t) = t"
| "mint_time (MintPrune t) = t"

fun mint_step ::
  "utables \<Rightarrow> policy \<Rightarrow> budget_store \<Rightarrow> mint_op \<Rightarrow> budget_store \<times> mint_decision option" where
  "mint_step u p m (Mint req t) =
     (case AuthorizeMint u (Some p) req (Some Reserve) m t of (m', d) \<Rightarrow> (m', Some d))"
| "mint_step u p m (MintPrune t) = (Prune m t, None)"

text \<open>The store operations a run performs: the checks before the store do not depend on it.\<close>

fun store_ops :: "utables \<Rightarrow> policy \<Rightarrow> mint_op \<Rightarrow> budget_op list" where
  "store_ops u p (Mint req t) =
     (case snd (prechecks u (Some p) req t) of
        Inl _ \<Rightarrow> []
      | Inr (_, tok, elig, budget) \<Rightarrow>
          [BReserve (budget_key_of elig tok) (mq_Count req) (br_Limit budget)
             (seconds (br_WindowSeconds budget)) t])"
| "store_ops u p (MintPrune t) = [BPrune t]"

text \<open>Tokens granted to one budget key in the window number \<open>e\<close> of length \<open>w\<close> seconds.\<close>

fun minted :: "string \<Rightarrow> int \<Rightarrow> int \<Rightarrow> mint_op \<times> mint_decision option \<Rightarrow> int" where
  "minted key w e (Mint req t, Some d) =
     (if md_Allow d \<and> mc_BudgetKey (md_Constraints d) = key \<and> unix t div w = e
      then mc_Count (md_Constraints d) else 0)"
| "minted key w e _ = 0"

definition total_minted :: "string \<Rightarrow> int \<Rightarrow> int \<Rightarrow> (mint_op \<times> mint_decision option) list \<Rightarrow> int" where
  "total_minted key w e tr = sum_list (map (minted key w e) tr)"

lemma mint_permitted_store_ops:
  "mint_permitted u p req t tok elig budget \<Longrightarrow>
   store_ops u p (Mint req t) =
     [BReserve (budget_key_of elig tok) (mq_Count req) (br_Limit budget) (seconds (br_WindowSeconds budget)) t]"
  using prechecks_Inr [of u "Some p" req t p tok elig budget] by simp

lemma mint_step_state: "fst (mint_step u p m i) = run_state budget_step m (store_ops u p i)"
proof (cases i)
  case (MintPrune t)
  then show ?thesis by simp
next
  case (Mint req t)
  show ?thesis
  proof (cases "\<exists>tok elig budget. mint_permitted u p req t tok elig budget")
    case True
    then obtain tok elig budget where ok: "mint_permitted u p req t tok elig budget" by blast
    obtain m' out where "Reserve m (budget_key_of elig tok) (mq_Count req) (br_Limit budget)
        (seconds (br_WindowSeconds budget)) t = (m', out)" by fastforce
    then show ?thesis unfolding Mint mint_permitted_store_ops [OF ok] mint_step.simps
        AuthorizeMint_permitted [OF ok]
      by (cases out) (simp_all add: charge_def)
  next
    case False
    then obtain cs d where "AuthorizeMint u (Some p) req (Some Reserve) m t = (m, denial cs d)"
      "prechecks u (Some p) req t = (cs, Inl d)" by (rule AuthorizeMint_refused)
    then show ?thesis using Mint by simp
  qed
qed

text \<open>Sizes for which the store's arithmetic is exact (see \<open>Reserve_overflow\<close> for the rest).\<close>

definition small_budgets :: "policy \<Rightarrow> bool" where
  "small_budgets p \<longleftrightarrow>
     (\<forall>b r. po_budgets p b = Some r \<longrightarrow> br_Limit r < 2 ^ 62 \<and> br_WindowSeconds r < 2 ^ 32)"

fun mint_op_ok :: "mint_op \<Rightarrow> bool" where
  "mint_op_ok (Mint req t) \<longleftrightarrow> 0 \<le> unix t \<and> unix t < 2 ^ 62 \<and> mq_Count req < 2 ^ 62"
| "mint_op_ok (MintPrune t) \<longleftrightarrow> 0 \<le> unix t \<and> unix t < 2 ^ 62"

lemma seconds_small: "0 < w \<Longrightarrow> w < 2 ^ 32 \<Longrightarrow> seconds w = w * second \<and> seconds w < 2 ^ 62"
  by (simp add: seconds_def wrap64_id is_int64_def second_def)

lemma window_key_seconds:
  assumes "0 < w" "w < 2 ^ 32" "0 \<le> unix t"
  shows "window_key key (seconds w) t = \<lparr>bk_epoch = unix t div w, bk_window = seconds w, bk_key = key\<rparr>"
proof -
  have "seconds w sdiv second = w"
    using assms seconds_small [of w] by (simp add: sdiv_nonneg second_def)
  then show ?thesis using assms by (simp add: window_key_def Let_def sdiv_nonneg)
qed

definition group_key :: "string \<Rightarrow> string \<Rightarrow> string \<Rightarrow> string" where
  "group_key gate bucket grp = gate @ '':'' @ bucket @ '':'' @ grp"

definition group_window :: "budget_rule \<Rightarrow> string \<Rightarrow> int \<Rightarrow> budget_key" where
  "group_window rule key e = \<lparr>bk_epoch = e, bk_window = seconds (br_WindowSeconds rule), bk_key = key\<rparr>"

lemma granted_to_append: "granted_to k (tr @ tr') = granted_to k tr + granted_to k tr'"
  by (simp add: granted_to_def)

text \<open>One gate, bucket and budget group of a well-formed policy.\<close>

locale budget_group =
  fixes p :: policy and gate bucket grp :: string and rule :: budget_rule
  assumes wf: "wf_policy p" and small: "small_budgets p"
    and gate: "validName gate" and grp: "po_budgets p grp = Some rule"
begin

lemma group_of_key:
  assumes "mint_permitted u p req t tok elig budget" "budget_key_of elig tok = group_key gate bucket grp"
  shows "budget = rule"
proof -
  have "validName grp" using wf grp by (simp add: wf_policy_def)
  then have "ct_budgetGroup tok = grp"
    using mint_permitted_names [OF wf assms(1)] gate assms(2) budget_key_of_inject unfolding group_key_def by blast
  then show ?thesis using assms(1) grp by (simp add: mint_permitted_def)
qed

lemma budget_sizes:
  "po_budgets p b' = Some r \<Longrightarrow> 0 < br_WindowSeconds r \<and> br_WindowSeconds r < 2 ^ 32
     \<and> 0 < br_Limit r \<and> br_Limit r < 2 ^ 62"
  using wf small by (auto simp: wf_policy_def small_budgets_def)

lemma store_ops_ok:
  assumes "mint_op_ok i"
  shows "list_all (op_ok (group_window rule (group_key gate bucket grp) e) (br_Limit rule)) (store_ops u p i) \<and>
         (\<forall>j \<in> set (store_ops u p i). op_time j = mint_time i)"
proof (cases i)
  case (MintPrune t)
  then show ?thesis using assms by simp
next
  case (Mint req t)
  show ?thesis
  proof (cases "\<exists>tok elig budget. mint_permitted u p req t tok elig budget")
    case True
    then obtain tok elig budget where ok: "mint_permitted u p req t tok elig budget" by blast
    then have "po_budgets p (ct_budgetGroup tok) = Some budget" by (simp add: mint_permitted_def)
    note sizes = budget_sizes [OF this] seconds_small [of "br_WindowSeconds budget"]
    have "br_Limit budget \<le> br_Limit rule"
      if "window_key (budget_key_of elig tok) (seconds (br_WindowSeconds budget)) t = group_window rule (group_key gate bucket grp) e"
    proof -
      have "budget_key_of elig tok = group_key gate bucket grp"
        using that window_key_seconds [of "br_WindowSeconds budget" t] sizes(1) assms Mint
        by (simp add: group_window_def)
      then show ?thesis using group_of_key [OF ok] by simp
    qed
    then show ?thesis unfolding Mint mint_permitted_store_ops [OF ok]
      using sizes assms [unfolded Mint] by (simp add: small_req_def)
  next
    case False
    then obtain cs d where "prechecks u (Some p) req t = (cs, Inl d)"
      by (rule AuthorizeMint_refused [where store = None and s = "()"])
    then show ?thesis using Mint by simp
  qed
qed

lemma minted_le_granted:
  assumes "mint_op_ok i"
  shows "minted (group_key gate bucket grp) (br_WindowSeconds rule) e (i, snd (mint_step u p m i))
    \<le> granted_to (group_window rule (group_key gate bucket grp) e) (run_trace budget_step m (store_ops u p i))"
proof (cases i)
  case (MintPrune t)
  then show ?thesis by simp
next
  case (Mint req t)
  show ?thesis
  proof (cases "\<exists>tok elig budget. mint_permitted u p req t tok elig budget")
    case True
    then obtain tok elig budget where ok: "mint_permitted u p req t tok elig budget" by blast
    obtain m' out where res: "Reserve m (budget_key_of elig tok) (mq_Count req) (br_Limit budget)
        (seconds (br_WindowSeconds budget)) t = (m', out)" by fastforce
    have pos: "0 < mq_Count req" using ok by (simp add: mint_permitted_def request_satisfied_def)
    have key: "window_key (budget_key_of elig tok) (seconds (br_WindowSeconds budget)) t = group_window rule (group_key gate bucket grp) e"
      if "budget_key_of elig tok = group_key gate bucket grp" "unix t div br_WindowSeconds rule = e"
      using that group_of_key [OF ok] budget_sizes [OF grp] assms Mint
      by (simp add: window_key_seconds group_window_def)
    show ?thesis
      unfolding Mint mint_permitted_store_ops [OF ok] mint_step.simps AuthorizeMint_permitted [OF ok]
      using res pos key by (cases out) (simp_all add: charge_def)
  next
    case False
    then obtain cs d where "AuthorizeMint u (Some p) req (Some Reserve) m t = (m, denial cs d)"
      "prechecks u (Some p) req t = (cs, Inl d)" by (rule AuthorizeMint_refused)
    then show ?thesis using Mint by simp
  qed
qed

lemma total_minted_le_granted:
  "list_all mint_op_ok ops \<Longrightarrow>
   total_minted (group_key gate bucket grp) (br_WindowSeconds rule) e (run_trace (mint_step u p) m ops)
     \<le> granted_to (group_window rule (group_key gate bucket grp) e) (run_trace budget_step m (concat (map (store_ops u p) ops)))"
proof (induction ops arbitrary: m)
  case Nil
  then show ?case by (simp add: total_minted_def)
next
  case (Cons i ops)
  then show ?case using minted_le_granted [of i e u m] Cons.IH [of "fst (mint_step u p m i)"]
    by (simp add: total_minted_def granted_to_append mint_step_state add_mono)
qed

lemma store_ops_run_ok:
  "list_all mint_op_ok ops \<Longrightarrow> sorted (map mint_time ops) \<Longrightarrow>
   list_all (op_ok (group_window rule (group_key gate bucket grp) e) (br_Limit rule)) (concat (map (store_ops u p) ops)) \<and>
   sorted (map op_time (concat (map (store_ops u p) ops)))"
proof (induction ops)
  case Nil
  then show ?case by simp
next
  case (Cons i ops)
  have t: "op_time j = mint_time i'" if "j \<in> set (store_ops u p i')" "i' \<in> set (i # ops)" for i' j
    using store_ops_ok [of i' e u] that Cons.prems(1) by (auto simp: list_all_iff)
  have "sorted (map op_time (store_ops u p i))"
    by (cases i) (auto split: sum.splits)
  with Cons t show ?case using store_ops_ok [of i e u]
    by (auto simp: sorted_append)
qed

lemma issuance_bounded:
  assumes "list_all mint_op_ok ops" "sorted (map mint_time ops)"
  shows "total_minted (group_key gate bucket grp) (br_WindowSeconds rule) e (run_trace (mint_step u p) NewMemoryBudgetStore ops)
    \<le> br_Limit rule"
proof -
  have "granted_to (group_window rule (group_key gate bucket grp) e) (run_trace budget_step NewMemoryBudgetStore (concat (map (store_ops u p) ops)))
      \<le> max 0 (br_Limit rule - used_of NewMemoryBudgetStore (group_window rule (group_key gate bucket grp) e))"
    using store_ops_run_ok [OF assms, of e u] by (intro memory_budget.quota) auto
  then show ?thesis
    using total_minted_le_granted [OF assms(1), of e u NewMemoryBudgetStore] budget_sizes [OF grp]
    by (simp add: used_of_def NewMemoryBudgetStore_def)
qed

end

text \<open>
  C2: Issuance is rate limited per verified bucket. Run any time-ordered sequence of mint
  requests, with store housekeeping in between, under a compiled policy on a fresh memory store:
  for every gate, bucket and budget group, the tokens authorized for it in one window sum to at
  most the group's limit, whatever the requests for other gates, buckets and groups, and even if
  bucket names contain the separator of the budget key.
\<close>

theorem issuance_rate_limit:
  assumes "Compile src = Inr p" and "small_budgets p"
    and "validName gate" and "po_budgets p grp = Some rule"
    and "list_all mint_op_ok ops" and "sorted (map mint_time ops)"
  shows "total_minted (group_key gate bucket grp) (br_WindowSeconds rule) e
      (run_trace (mint_step u p) NewMemoryBudgetStore ops) \<le> br_Limit rule"
  using budget_group.issuance_bounded [of p gate grp rule ops] wf_policy_Compile [OF assms(1)] assms(2-)
  by (simp add: budget_group_def)

text \<open>A mint request for the daemon's development policy.\<close>

definition sample_request :: mint_request where
  "sample_request = \<lparr>
     mq_Subject = \<lparr>su_ValueX = [], su_Platform = [], su_Runtime = [], su_Claims = Map.empty\<rparr>,
     mq_Eligibility = [\<lparr>el_GateKind = ''email'', el_BucketID = ''a:b'', el_Assurance = ''Verified'',
       el_Claims = Map.empty\<rparr>],
     mq_TokenFamily = ''private_identity'', mq_Count = 3, mq_KeyVersion = 1, mq_Origin = [],
     mq_Address = [], mq_Binding = replicate 32 7\<rparr>"

lemma small_budgets_dev: "small_budgets dev_policy"
  by (simp add: small_budgets_def dev_policy_def)

interpretation dev_group: budget_group dev_policy "''email''" bucket "''mailproof''"
  "\<lparr>br_Limit = 8, br_WindowSeconds = 3600\<rparr>" for bucket
  by unfold_locales
    (simp_all add: wf_policy_Compile [OF Compile_builtinDevPolicy] small_budgets_dev,
     simp_all add: dev_policy_def validName_def in_range_def name_char_def)

theorem issuance_rate_limit_witness:
  "total_minted (group_key ''email'' ''a:b'' ''mailproof'') 3600 0
     (run_trace (mint_step \<lparr>ulower = id, ufold = (=)\<rparr> dev_policy) NewMemoryBudgetStore
        [Mint sample_request (5 * second), MintPrune (6 * second), Mint sample_request (7 * second),
         Mint sample_request (8 * second)]) \<le> 8"
  using issuance_rate_limit [OF Compile_builtinDevPolicy small_budgets_dev dev_group.gate dev_group.grp,
      of "[Mint sample_request (5 * second), MintPrune (6 * second), Mint sample_request (7 * second),
         Mint sample_request (8 * second)]" "''a:b''" 0 "\<lparr>ulower = id, ufold = (=)\<rparr>"]
  by (simp add: unix_def second_def sample_request_def)

text \<open>
  A decision on the memory store charges what it grants and nothing else. A denied request
  leaves every counter as it was; an allowed one raises exactly the counter of its own budget key
  and window by its count, and the counter stays within the limit of the family's budget group.
\<close>

lemma AuthorizeMint_store:
  assumes "AuthorizeMint u (Some p) req (Some Reserve) m now = (m', d)"
    and "budget_inv m" and "small_budgets p" and "mq_Count req < 2 ^ 62"
  shows "if md_Allow d
    then \<exists>tok elig budget k. mint_permitted u p req now tok elig budget
       \<and> mc_BudgetKey (md_Constraints d) = budget_key_of elig tok
       \<and> k = window_key (budget_key_of elig tok) (seconds (br_WindowSeconds budget)) now
       \<and> m' = m(k \<mapsto> used_of m k + mq_Count req) \<and> used_of m k + mq_Count req \<le> br_Limit budget
    else m' = m"
proof (cases "\<exists>tok elig budget. mint_permitted u p req now tok elig budget")
  case True
  then obtain tok elig budget where ok: "mint_permitted u p req now tok elig budget" by blast
  obtain s out where res: "Reserve m (budget_key_of elig tok) (mq_Count req) (br_Limit budget)
      (seconds (br_WindowSeconds budget)) now = (s, out)" by fastforce
  have small: "small_req (mq_Count req) (br_Limit budget)"
    using assms(3,4) ok by (auto simp: small_req_def small_budgets_def mint_permitted_def)
  show ?thesis
  proof (cases out)
    case None
    have "m' = s" "md_Allow d" "mc_BudgetKey (md_Constraints d) = budget_key_of elig tok"
      using assms(1) unfolding AuthorizeMint_permitted [OF ok] by (auto simp: charge_def res None)
    then show ?thesis
      using ok Reserve_granted_iff [OF assms(2) small] res None by auto
  next
    case (Some err)
    have "m' = s" "\<not> md_Allow d"
      using assms(1) unfolding AuthorizeMint_permitted [OF ok] by (auto simp: charge_def res Some)
    then show ?thesis using Reserve_refused_same res Some by simp
  qed
next
  case False
  then obtain cs e where "AuthorizeMint u (Some p) req (Some Reserve) m now = (m, denial cs e)"
    by (rule AuthorizeMint_refused)
  then show ?thesis using assms(1) by auto
qed

lemma sample_permitted:
  "mint_permitted \<lparr>ulower = id, ufold = (=)\<rparr> dev_policy sample_request (5 * second)
     (the (po_tokens dev_policy ''private_identity'')) (hd (mq_Eligibility sample_request))
     \<lparr>br_Limit = 8, br_WindowSeconds = 3600\<rparr>"
  by (simp add: mint_permitted_def request_satisfied_def gate_satisfied_def eligible_def sample_request_def
      dev_policy_def software_witness_def AssuranceVerified_def is_ascii_def ascii_lower_def
      zero_time_def second_def unix_to_internal_def char_of_eq_iff)

end
