(* ===== verification/Envelope.thy ===== *)
theory Envelope
  imports Policy
begin

text \<open>
  \<^verbatim>\<open>tokenauth/authorization.go\<close> (the signed issuance authorization that crosses from attester to
  issuer) and \<^verbatim>\<open>tokenauth/sidecar.go\<close> (signed policy files). FAEST-128f is the argument \<open>faest\<close>:
  key generation from a SHAKE256 stream that absorbed the given bytes, signing and verification.
  Theorems about what the two files add need nothing of it; those about a signature that was
  really made use \<open>faest_correct\<close>, that FAEST's own signatures verify.
\<close>

section \<open>The signature scheme as the callers see it\<close>

record faest_pk =
  OwfInput :: bytes
  OwfOutput :: bytes

record faest =
  fa_KeyGen :: "bytes \<Rightarrow> (bytes \<times> faest_pk) option"
  fa_Sign :: "bytes \<Rightarrow> bytes \<Rightarrow> bytes \<Rightarrow> bytes"
  fa_Verify :: "bytes \<Rightarrow> faest_pk \<Rightarrow> bytes \<Rightarrow> bool"
  fa_LambdaBytes :: nat

definition faest_correct :: "faest \<Rightarrow> bool" where
  "faest_correct F \<longleftrightarrow> (\<forall>absorbed sk pk msg rho. fa_KeyGen F absorbed = Some (sk, pk) \<longrightarrow>
     length (OwfInput pk) = 16 \<and> length (OwfOutput pk) = 16 \<and>
     (length rho = fa_LambdaBytes F \<longrightarrow> fa_Verify F msg pk (fa_Sign F msg sk rho)))"

text \<open>A published key is the input and the output of the one-way function, 16 bytes each.\<close>

definition pk_bytes :: "faest_pk \<Rightarrow> bytes" where
  "pk_bytes pk = OwfInput pk @ OwfOutput pk"

definition pk_of_bytes :: "bytes \<Rightarrow> faest_pk" where
  "pk_of_bytes pub = \<lparr>OwfInput = take 16 pub, OwfOutput = drop 16 pub\<rparr>"

lemma pk_of_pk_bytes:
  "length (OwfInput pk) = 16 \<Longrightarrow> pk_of_bytes (pk_bytes pk) = pk"
  by (cases pk) (simp add: pk_of_bytes_def pk_bytes_def)

section \<open>Issuance authorizations\<close>

definition AuthorizationVersion :: u32 where "AuthorizationVersion = 1"
definition DefaultAuthorizationTTLSecs :: u64 where "DefaultAuthorizationTTLSecs = 60"

definition authDomain :: bytes where
  "authDomain = bytes_of (''eat-pass/issuance-auth'' @ [CHR 0x00])"

text \<open>A byte slice that may be nil is an option.\<close>

record issuance_authorization =
  ia_Version :: u32
  ia_BindingHex :: string
  ia_RateLimitID :: "bytes option"
  ia_PolicyLabel :: string
  ia_MaxBatch :: u32
  ia_Exp :: u64
  ia_Iat :: u64
  ia_Sig :: "bytes option"
  ia_RateLimitIDB64 :: string
  ia_SigB64 :: string

definition of_slice :: "bytes option \<Rightarrow> bytes" where
  "of_slice b = (case b of None \<Rightarrow> [] | Some v \<Rightarrow> v)"

lemma slice_simps [simp]: "of_slice None = []" "of_slice (Some v) = v"
  by (simp_all add: of_slice_def)

datatype auth_error = ERateLimitID | ESig | EBinding | EAuthVersion u32 | EMaxBatchZero | EExpired
  | ESigRejected | ESeed | EKeyGen

text \<open>Decode a field from its text when the text is there and the raw form is not.\<close>

definition fill :: "'e \<Rightarrow> string \<Rightarrow> bytes option \<Rightarrow> ('e, bytes option) result" where
  "fill e txt raw =
     (if txt \<noteq> [] \<and> raw = None then bind_result (of_option e (b64std_decode txt)) (\<lambda>v. Inr (Some v))
      else Inr raw)"

definition Normalize :: "issuance_authorization \<Rightarrow> (auth_error, issuance_authorization) result" where
  "Normalize a =
     bind_result (fill ERateLimitID (ia_RateLimitIDB64 a) (ia_RateLimitID a)) (\<lambda>rl.
     bind_result (fill ESig (ia_SigB64 a) (ia_Sig a)) (\<lambda>sig.
     Inr (a\<lparr>ia_RateLimitID := rl, ia_Sig := sig,
            ia_RateLimitIDB64 := b64std_encode (of_slice rl), ia_SigB64 := b64std_encode (of_slice sig)\<rparr>)))"

definition binding :: "issuance_authorization \<Rightarrow> (auth_error, bytes) result" where
  "binding a = (case hex_decode (ia_BindingHex a) of
       None \<Rightarrow> Inl EBinding
     | Some v \<Rightarrow> guard (length v = 32) EBinding (Inr v))"

definition SignedBytes :: "issuance_authorization \<Rightarrow> (auth_error, bytes) result" where
  "SignedBytes a =
     bind_result (binding a) (\<lambda>bnd.
     Inr (authDomain @ le_bytes 4 (ia_Version a) @ bnd
       @ lp_le (of_slice (ia_RateLimitID a)) @ lp_le (bytes_of (ia_PolicyLabel a))
       @ le_bytes 4 (ia_MaxBatch a) @ le_bytes 8 (ia_Exp a) @ le_bytes 8 (ia_Iat a)))"

definition auth_Verify ::
  "faest \<Rightarrow> issuance_authorization \<Rightarrow> bytes \<Rightarrow> u64 \<Rightarrow> (auth_error, unit) result" where
  "auth_Verify F a attesterPub now =
     guard (ia_Version a = AuthorizationVersion) (EAuthVersion (ia_Version a))
     (guard (ia_MaxBatch a \<noteq> 0) EMaxBatchZero
     (guard (now \<le> ia_Exp a) EExpired
     (bind_result (SignedBytes a) (\<lambda>msg.
      guard (fa_Verify F msg (pk_of_bytes attesterPub) (of_slice (ia_Sig a))) ESigRejected (Inr ())))))"

record signer =
  sg_sk :: bytes
  sg_pk :: faest_pk

text \<open>Both signers derive their key from SHAKE256 over a domain string and the seed.\<close>

definition new_signer :: "string \<Rightarrow> faest \<Rightarrow> bytes \<Rightarrow> (auth_error, signer) result" where
  "new_signer domain F seed =
     guard (length seed = 32) ESeed
     (bind_result (of_option EKeyGen (fa_KeyGen F (bytes_of (domain @ [CHR 0x00]) @ seed))) (\<lambda>(sk, pk).
      Inr \<lparr>sg_sk = sk, sg_pk = pk\<rparr>))"

definition NewAttesterSigner :: "faest \<Rightarrow> bytes \<Rightarrow> (auth_error, signer) result" where
  "NewAttesterSigner = new_signer ''tamayo/issuance-auth/attester''"

definition Public :: "signer \<Rightarrow> bytes" where
  "Public s = pk_bytes (sg_pk s)"

definition signer_rho :: "faest \<Rightarrow> bytes option \<Rightarrow> bytes" where
  "signer_rho F rho = (case rho of None \<Rightarrow> replicate (fa_LambdaBytes F) 0 | Some r \<Rightarrow> r)"

definition auth_Sign ::
  "faest \<Rightarrow> signer \<Rightarrow> issuance_authorization \<Rightarrow> bytes option \<Rightarrow> (auth_error, issuance_authorization) result" where
  "auth_Sign F s auth rho =
     bind_result (SignedBytes auth) (\<lambda>msg.
     Normalize (auth\<lparr>ia_Sig := Some (fa_Sign F msg (sg_sk s) (signer_rho F rho))\<rparr>))"

section \<open>Policy sidecars\<close>

definition NewPolicySigner :: "faest \<Rightarrow> bytes \<Rightarrow> (auth_error, signer) result" where
  "NewPolicySigner = new_signer ''tamayo/policy-sidecar''"

definition SignPolicy ::
  "faest \<Rightarrow> (bytes \<Rightarrow> policy_source option) \<Rightarrow> signer \<Rightarrow> bytes \<Rightarrow> bytes option \<Rightarrow>
   (compile_error option, string) result" where
  "SignPolicy F json s policyJSON rho =
     bind_result (CompileJSON json policyJSON) (\<lambda>_.
     Inr (b64std_encode (fa_Sign F policyJSON (sg_sk s) (signer_rho F rho))))"

datatype sidecar_error = EBadBase64 | ENoTrustedKey

definition VerifyPolicySidecar ::
  "faest \<Rightarrow> bytes \<Rightarrow> string \<Rightarrow> bytes list \<Rightarrow> (sidecar_error, unit) result" where
  "VerifyPolicySidecar F policyJSON sidecar trustedPubs =
     (if trustedPubs = [] then Inr ()
      else bind_result (of_option EBadBase64 (b64std_decode (trim_space sidecar))) (\<lambda>sig.
        guard (list_ex (\<lambda>pub. fa_Verify F policyJSON (pk_of_bytes pub) sig) trustedPubs) ENoTrustedKey
          (Inr ())))"

section \<open>Properties\<close>

lemma b64std_encode_Nil_iff: "b64std_encode b = [] \<longleftrightarrow> b = []"
  using b64std.enc_eq_iff [of b "[]"] by (simp add: b64std_encode_def std_pad_def)

text \<open>A well-formed wire message: the text fields are the encodings of the raw ones.\<close>

definition wire_form :: "issuance_authorization \<Rightarrow> issuance_authorization" where
  "wire_form a = a\<lparr>ia_RateLimitID := None, ia_Sig := None\<rparr>"

lemma Normalize_raw:
  assumes "ia_RateLimitID a = Some rl" "ia_Sig a = Some sig"
  shows "Normalize a = Inr (a\<lparr>ia_RateLimitIDB64 := b64std_encode rl, ia_SigB64 := b64std_encode sig\<rparr>)"
  using assms by (cases a) (simp add: Normalize_def fill_def)

lemma Normalize_wire:
  assumes "ia_RateLimitIDB64 a = b64std_encode rl" "ia_SigB64 a = b64std_encode sig" "rl \<noteq> []" "sig \<noteq> []"
  shows "Normalize (wire_form a) = Inr (a\<lparr>ia_RateLimitID := Some rl, ia_Sig := Some sig\<rparr>)"
  using assms by (cases a) (simp add: Normalize_def fill_def wire_form_def b64std_encode_Nil_iff)

text \<open>The signed fields as one value, with every length that is encoded below two to the 32.\<close>

definition auth_fields :: "issuance_authorization \<Rightarrow> u32 \<times> bytes option \<times> bytes \<times> string \<times> u32 \<times> u64 \<times> u64" where
  "auth_fields a = (ia_Version a, hex_decode (ia_BindingHex a), of_slice (ia_RateLimitID a), ia_PolicyLabel a,
     ia_MaxBatch a, ia_Exp a, ia_Iat a)"

text \<open>
  The attester's signature commits to every field. Two authorizations whose variable-length
  fields are shorter than 4 GiB and that have the same canonical bytes agree on the version, the
  binding, the rate-limit id, the policy label, the batch size, the expiry and the issue time: no
  byte can be moved from one field to its neighbour under one signature.
\<close>

lemma SignedBytes_injective:
  assumes "SignedBytes a = Inr v" and "SignedBytes b = Inr v"
    and "length (of_slice (ia_RateLimitID a)) < 2 ^ 32" and "length (of_slice (ia_RateLimitID b)) < 2 ^ 32"
    and "length (ia_PolicyLabel a) < 2 ^ 32" and "length (ia_PolicyLabel b) < 2 ^ 32"
  shows "auth_fields a = auth_fields b"
proof -
  obtain ba where ba: "hex_decode (ia_BindingHex a) = Some ba" "length ba = 32"
    using assms(1) by (auto simp: SignedBytes_def binding_def result_simps split: option.splits)
  obtain bb where bb: "hex_decode (ia_BindingHex b) = Some bb" "length bb = 32"
    using assms(2) by (auto simp: SignedBytes_def binding_def result_simps split: option.splits)
  from assms(1,2) have "SignedBytes a = SignedBytes b" by simp
  then show ?thesis
    using assms(3-) ba bb
    by (simp add: SignedBytes_def binding_def le_bytes_append_inject lp_le_append_inject lp_le_inject
        append_fixed_iff [OF ba(2) bb(2)] auth_fields_def)
qed

definition sample_auth :: issuance_authorization where
  "sample_auth = \<lparr>ia_Version = 1, ia_BindingHex = hex_encode (replicate 32 5), ia_RateLimitID = Some [1, 2],
     ia_PolicyLabel = ''dev'', ia_MaxBatch = 4, ia_Exp = 100, ia_Iat = 40, ia_Sig = None,
     ia_RateLimitIDB64 = [], ia_SigB64 = []\<rparr>"

lemma SignedBytes_sample: "\<exists>v. SignedBytes sample_auth = Inr v"
  by (simp add: SignedBytes_def binding_def sample_auth_def)

lemma new_signer_Inr:
  "new_signer domain F seed = Inr s \<Longrightarrow> faest_correct F \<Longrightarrow>
   pk_of_bytes (Public s) = sg_pk s \<and>
   (length r = fa_LambdaBytes F \<longrightarrow> fa_Verify F msg (sg_pk s) (fa_Sign F msg (sg_sk s) r))"
  by (auto simp: new_signer_def result_simps Public_def faest_correct_def pk_of_pk_bytes)

definition rho_ok :: "faest \<Rightarrow> bytes option \<Rightarrow> bool" where
  "rho_ok F rho \<longleftrightarrow> (\<forall>r. rho = Some r \<longrightarrow> length r = fa_LambdaBytes F)"

lemma length_signer_rho: "rho_ok F rho \<Longrightarrow> length (signer_rho F rho) = fa_LambdaBytes F"
  by (auto simp: signer_rho_def rho_ok_def split: option.splits)


text \<open>A stand-in scheme for concrete runs: the key is the absorbed bytes, a signature repeats the key.\<close>

definition toy_faest :: faest where
  "toy_faest = \<lparr>fa_KeyGen = (\<lambda>absorbed. Some ([7], \<lparr>OwfInput = replicate 16 7, OwfOutput = replicate 16 8\<rparr>)),
     fa_Sign = (\<lambda>msg sk rho. sk @ msg), fa_Verify = (\<lambda>msg pk sig. sig = 7 # msg), fa_LambdaBytes = 16\<rparr>"

lemma toy_faest_correct: "faest_correct toy_faest"
  by (simp add: faest_correct_def toy_faest_def)


text \<open>
  A policy file is accepted exactly when a trusted operator signed those bytes. With no
  trusted key the check is off; otherwise it passes if and only if the sidecar decodes and its
  signature over the exact file bytes verifies under one of the trusted keys. In particular the
  sidecar an operator makes for a policy that compiles is accepted wherever the operator's key is
  trusted, whatever white space the sidecar file gained.
\<close>

lemma policy_sidecar:
  assumes "faest_correct F" and "rho_ok F rho" and "NewPolicySigner F seed = Inr s"
    and "SignPolicy F json s doc rho = Inr sidecar"
    and "trim_space file = trim_space sidecar" and "Public s \<in> set trusted"
  shows "VerifyPolicySidecar F doc file trusted = Inr () \<and> (\<exists>p. CompileJSON json doc = Inr p)
    \<and> (\<forall>doc' file'. VerifyPolicySidecar F doc' file' trusted = Inr () \<longleftrightarrow>
        (\<exists>sig pub. b64std_decode (trim_space file') = Some sig \<and> pub \<in> set trusted \<and>
           fa_Verify F doc' (pk_of_bytes pub) sig))"
proof -
  have side: "sidecar = b64std_encode (fa_Sign F doc (sg_sk s) (signer_rho F rho))"
    and comp: "\<exists>p. CompileJSON json doc = Inr p"
    using assms(4) by (auto simp: SignPolicy_def bind_result_Inr_iff)
  have iff: "VerifyPolicySidecar F doc' file' trusted = Inr () \<longleftrightarrow>
        (\<exists>sig pub. b64std_decode (trim_space file') = Some sig \<and> pub \<in> set trusted \<and>
           fa_Verify F doc' (pk_of_bytes pub) sig)" for doc' file'
    using assms(6) by (auto simp: VerifyPolicySidecar_def result_simps list_ex_iff)
  have "fa_Verify F doc (pk_of_bytes (Public s)) (fa_Sign F doc (sg_sk s) (signer_rho F rho))"
    using new_signer_Inr [OF assms(3) [unfolded NewPolicySigner_def] assms(1)]
      length_signer_rho [OF assms(2)] by simp
  then show ?thesis using iff comp assms(5,6) side by auto
qed

end
