(* ===== verification/TokenProfile.thy ===== *)
theory TokenProfile
  imports GoStd
begin

text \<open>
  Package \<^verbatim>\<open>tokenprofile\<close>: the channel binding of a blinded batch, the wire formats of burn and
  private-identity tokens, their verification, and the HTTP header carriage. The PoMFRIT/MAYO
  blind signature and the holder signature schemes are the argument \<open>crypto\<close>, SHA-256 is its
  field \<open>sha256\<close>; their correctness is the hypothesis \<open>blind_correct\<close> where a theorem is about a
  token that was really minted. Fixed-size arrays are byte lists of that length.
\<close>

section \<open>The cryptography the package calls\<close>

record ('ps) crypto =
  sha256 :: "bytes \<Rightarrow> bytes"
  mayo_CompactKeyGen :: "bytes \<Rightarrow> (bytes \<times> bytes) option"
  mayo_ExpandPK :: "bytes \<Rightarrow> bytes option"
  mayo_SignWithoutHashing :: "bytes \<Rightarrow> bytes \<Rightarrow> bytes"
  pomfrit_Sign1 :: "bytes \<Rightarrow> bytes \<Rightarrow> bytes \<times> 'ps \<times> bytes"
  pomfrit_Sign3 :: "bytes \<Rightarrow> bytes \<Rightarrow> bytes \<Rightarrow> 'ps \<Rightarrow> bytes \<Rightarrow> bytes"
  pomfrit_BlindVerify :: "bytes \<Rightarrow> bytes \<Rightarrow> bytes \<Rightarrow> bytes \<Rightarrow> bool"
  ed25519_Verify :: "bytes \<Rightarrow> bytes \<Rightarrow> bytes \<Rightarrow> bool"
  mldsa44_Verify :: "bytes \<Rightarrow> bytes \<Rightarrow> bytes \<Rightarrow> bool"
  faest128s_Verify :: "bytes \<Rightarrow> bytes \<times> bytes \<Rightarrow> bytes \<Rightarrow> bool"

definition SKSeedBytes :: nat where "SKSeedBytes = 24"
definition MBytes :: nat where "MBytes = 39"

section \<open>The channel binding\<close>

definition bindingDomain :: bytes where
  "bindingDomain = bytes_of (''eat-pass/binding'' @ [CHR 0x00])"

text \<open>What is hashed: the domain, the batch count and each length-prefixed target.\<close>

definition binding_preimage :: "bytes list \<Rightarrow> bytes" where
  "binding_preimage blinded = bindingDomain @ be_bytes 4 (len32 blinded) @ concat (map lp_be blinded)"

definition BindingOf :: "'ps crypto \<Rightarrow> bytes list \<Rightarrow> bytes" where
  "BindingOf c blinded = sha256 c (binding_preimage blinded)"

section \<open>Issuer keys and blind signing\<close>

definition authenticatorRandomLength :: nat where "authenticatorRandomLength = 32"

record issuer =
  is_keyVersion :: u32
  is_cpk :: bytes
  is_csk :: bytes
  is_epk :: bytes
  is_tokenKeyID :: bytes

datatype profile_error =
    EKeyVersionZero | ERandom | ESeedLength nat | EMayoKeyGen | EExpandPK
  | ENoSecretKey | ETargetLength nat nat | EUnsignable nat
  | EAuthTooShort | EProofRejected | EEmptyProof
  | ETooShort nat | ETokenType u16 | EChallenge | EKeyID | EKeyVersion u32
  | EHolderAlg byte | EHolderTruncated | EOrigin | ETimestamp | EPoP
  | EScheme | EMissing string | EBase64 | EPanic

text \<open>\<open>fresh\<close> is what \<^verbatim>\<open>crypto/rand\<close> delivers when no seed is given.\<close>

definition NewIssuer ::
  "'ps crypto \<Rightarrow> bytes option \<Rightarrow> u32 \<Rightarrow> bytes \<Rightarrow> (profile_error, issuer) result" where
  "NewIssuer c fresh keyVersion seed0 =
     guard (keyVersion \<noteq> 0) EKeyVersionZero
     (bind_result (if seed0 = [] then of_option ERandom fresh else Inr seed0) (\<lambda>seed.
      guard (length seed = SKSeedBytes) (ESeedLength (length seed))
     (bind_result (of_option EMayoKeyGen (mayo_CompactKeyGen c seed)) (\<lambda>(cpk, csk).
      bind_result (of_option EExpandPK (mayo_ExpandPK c cpk)) (\<lambda>epk.
      Inr \<lparr>is_keyVersion = keyVersion, is_cpk = cpk, is_csk = csk, is_epk = epk,
           is_tokenKeyID = sha256 c cpk\<rparr>)))))"

definition NewVerifierFromPublic :: "'ps crypto \<Rightarrow> u32 \<Rightarrow> bytes \<Rightarrow> (profile_error, issuer) result" where
  "NewVerifierFromPublic c keyVersion cpk =
     guard (keyVersion \<noteq> 0) EKeyVersionZero
     (bind_result (of_option EExpandPK (mayo_ExpandPK c cpk)) (\<lambda>epk.
      Inr \<lparr>is_keyVersion = keyVersion, is_cpk = cpk, is_csk = [], is_epk = epk,
           is_tokenKeyID = sha256 c cpk\<rparr>))"

definition Wipe :: "bytes \<Rightarrow> bytes" where
  "Wipe b = map (\<lambda>_. 0) b"

definition Zeroize :: "issuer \<Rightarrow> issuer" where
  "Zeroize i = i\<lparr>is_csk := Wipe (is_csk i)\<rparr>"

fun blind_sign_from :: "'ps crypto \<Rightarrow> bytes \<Rightarrow> nat \<Rightarrow> bytes list \<Rightarrow> (profile_error, bytes list) result" where
  "blind_sign_from c csk idx [] = Inr []"
| "blind_sign_from c csk idx (target # rest) =
     guard (length target = MBytes) (ETargetLength idx (length target))
     (let sig = mayo_SignWithoutHashing c target csk in
      guard (sig \<noteq> []) (EUnsignable idx)
     (bind_result (blind_sign_from c csk (Suc idx) rest) (\<lambda>sigs. Inr (sig # sigs))))"

definition BlindSign :: "'ps crypto \<Rightarrow> issuer \<Rightarrow> bytes list \<Rightarrow> (profile_error, bytes list) result" where
  "BlindSign c i blinded = guard (is_csk i \<noteq> []) ENoSecretKey (blind_sign_from c (is_csk i) 0 blinded)"

definition VerifyMessage :: "'ps crypto \<Rightarrow> issuer \<Rightarrow> bytes \<Rightarrow> bytes \<Rightarrow> (profile_error, unit) result" where
  "VerifyMessage c i message authenticator =
     guard (authenticatorRandomLength < length authenticator) EAuthTooShort
     (guard (pomfrit_BlindVerify c (is_epk i) message (drop authenticatorRandomLength authenticator)
               (take authenticatorRandomLength authenticator)) EProofRejected
     (Inr ()))"

record 'ps blind_state =
  st_additionalR :: bytes
  st_proofState :: 'ps
  st_h :: bytes

definition PrepareBlind :: "'ps crypto \<Rightarrow> bytes \<Rightarrow> bytes \<Rightarrow> bytes \<times> 'ps blind_state" where
  "PrepareBlind c message additionalR =
     (case pomfrit_Sign1 c message additionalR of (target, ps, h) \<Rightarrow>
        (target, \<lparr>st_additionalR = additionalR, st_proofState = ps, st_h = h\<rparr>))"

definition FinalizeBlind :: "'ps crypto \<Rightarrow> bytes \<Rightarrow> bytes \<Rightarrow> 'ps blind_state \<Rightarrow> (profile_error, bytes) result" where
  "FinalizeBlind c epk blindSignature state =
     (let proof = pomfrit_Sign3 c epk (st_h state) blindSignature (st_proofState state) (st_additionalR state) in
      guard (proof \<noteq> []) EEmptyProof (Inr (st_additionalR state @ proof)))"

section \<open>Burn tokens\<close>

definition BurnTokenType :: u16 where "BurnTokenType = 0x4550"
definition burnInputLen :: nat where "burnInputLen = 98"

record burn_token =
  bt_TokenType :: u16
  bt_Nonce :: bytes
  bt_ChallengeDigest :: bytes
  bt_TokenKeyID :: bytes
  bt_Authenticator :: bytes

definition BurnInput :: "bytes \<Rightarrow> bytes \<Rightarrow> bytes \<Rightarrow> bytes" where
  "BurnInput nonce challengeDigest tokenKeyID =
     be_bytes 2 BurnTokenType @ nonce @ challengeDigest @ tokenKeyID"

definition burn_Input :: "burn_token \<Rightarrow> bytes" where
  "burn_Input t = BurnInput (bt_Nonce t) (bt_ChallengeDigest t) (bt_TokenKeyID t)"

definition burn_Bytes :: "burn_token \<Rightarrow> bytes" where
  "burn_Bytes t = be_bytes 2 (bt_TokenType t) @ bt_Nonce t @ bt_ChallengeDigest t @ bt_TokenKeyID t
     @ bt_Authenticator t"

text \<open>The Go slice \<^verbatim>\<open>b[i:j]\<close>.\<close>

definition sub :: "nat \<Rightarrow> nat \<Rightarrow> bytes \<Rightarrow> bytes" where
  "sub i j b = take (j - i) (drop i b)"

definition ParseBurnToken :: "bytes \<Rightarrow> (profile_error, burn_token) result" where
  "ParseBurnToken b =
     guard (burnInputLen + authenticatorRandomLength < length b) (ETooShort (length b))
     (let tokenType = be_word (take 2 b) in
      guard (tokenType = BurnTokenType) (ETokenType tokenType)
     (Inr \<lparr>bt_TokenType = tokenType, bt_Nonce = sub 2 34 b, bt_ChallengeDigest = sub 34 66 b,
           bt_TokenKeyID = sub 66 98 b, bt_Authenticator = drop 98 b\<rparr>))"

definition VerifyBurnToken :: "'ps crypto \<Rightarrow> issuer \<Rightarrow> burn_token \<Rightarrow> bytes \<Rightarrow> (profile_error, unit) result" where
  "VerifyBurnToken c i token challengeDigest =
     guard (bt_TokenType token = BurnTokenType) (ETokenType (bt_TokenType token))
     (guard (bt_ChallengeDigest token = challengeDigest) EChallenge
     (guard (bt_TokenKeyID token = is_tokenKeyID i) EKeyID
     (VerifyMessage c i (burn_Input token) (bt_Authenticator token))))"

section \<open>Private-identity tokens\<close>

definition PrivateIdentityTokenType :: u16 where "PrivateIdentityTokenType = 0x5056"
definition HolderAlgEd25519 :: byte where "HolderAlgEd25519 = 1"
definition HolderAlgMLDSA44 :: byte where "HolderAlgMLDSA44 = 2"
definition HolderAlgFAEST128s :: byte where "HolderAlgFAEST128s = 3"
definition privateIdentityInputHead :: nat where "privateIdentityInputHead = 39"

definition popDomain :: bytes where
  "popDomain = bytes_of (''eat-pass/pvt-pop'' @ [CHR 0x00])"

definition pseudonymDomain :: bytes where
  "pseudonymDomain = bytes_of (''tamayo/private-identity-pseudonym'' @ [CHR 0x00])"

record private_identity_input =
  pi_TokenType :: u16
  pi_KeyVersion :: u32
  pi_TokenKeyID :: bytes
  pi_HolderAlg :: byte
  pi_HolderPub :: bytes

definition NewPrivateIdentityInput :: "u32 \<Rightarrow> bytes \<Rightarrow> byte \<Rightarrow> bytes \<Rightarrow> private_identity_input" where
  "NewPrivateIdentityInput keyVersion tokenKeyID holderAlg holderPub =
     \<lparr>pi_TokenType = PrivateIdentityTokenType, pi_KeyVersion = keyVersion, pi_TokenKeyID = tokenKeyID,
      pi_HolderAlg = holderAlg, pi_HolderPub = holderPub\<rparr>"

definition pi_Bytes :: "private_identity_input \<Rightarrow> bytes" where
  "pi_Bytes p = be_bytes 2 (pi_TokenType p) @ be_bytes 4 (pi_KeyVersion p) @ pi_TokenKeyID p
     @ [pi_HolderAlg p] @ pi_HolderPub p"

definition holderPubLen :: "byte \<Rightarrow> (profile_error, nat) result" where
  "holderPubLen alg =
     (if alg = HolderAlgEd25519 then Inr 32
      else if alg = HolderAlgMLDSA44 then Inr 1312
      else if alg = HolderAlgFAEST128s then Inr 32
      else Inl (EHolderAlg alg))"

definition parsePrivateIdentityInputPrefix ::
  "bytes \<Rightarrow> (profile_error, private_identity_input \<times> nat) result" where
  "parsePrivateIdentityInputPrefix b =
     guard (privateIdentityInputHead \<le> length b) (ETooShort (length b))
     (let tokenType = be_word (take 2 b) in
      guard (tokenType = PrivateIdentityTokenType) (ETokenType tokenType)
     (let holderAlg = b ! 38 in
      bind_result (holderPubLen holderAlg) (\<lambda>holderLen.
      let stop = privateIdentityInputHead + holderLen in
      guard (stop \<le> length b) EHolderTruncated
     (Inr (\<lparr>pi_TokenType = tokenType, pi_KeyVersion = be_word (sub 2 6 b), pi_TokenKeyID = sub 6 38 b,
            pi_HolderAlg = holderAlg, pi_HolderPub = sub privateIdentityInputHead stop b\<rparr>, stop)))))"

record private_identity_token =
  pt_Input :: private_identity_input
  pt_Authenticator :: bytes

definition pt_Bytes :: "private_identity_token \<Rightarrow> bytes" where
  "pt_Bytes p = pi_Bytes (pt_Input p) @ pt_Authenticator p"

definition ParsePrivateIdentityToken :: "bytes \<Rightarrow> (profile_error, private_identity_token) result" where
  "ParsePrivateIdentityToken b =
     bind_result (parsePrivateIdentityInputPrefix b) (\<lambda>(input, consumed).
     let authenticator = drop consumed b in
     guard (authenticatorRandomLength < length authenticator) EAuthTooShort
     (Inr \<lparr>pt_Input = input, pt_Authenticator = authenticator\<rparr>))"

definition pt_Digest :: "'ps crypto \<Rightarrow> private_identity_token \<Rightarrow> bytes" where
  "pt_Digest c p = sha256 c (pt_Bytes p)"

definition pseudonym_preimage :: "string \<Rightarrow> bytes \<Rightarrow> bytes" where
  "pseudonym_preimage origin holderPub = pseudonymDomain @ lp_be (bytes_of origin) @ holderPub"

definition PseudonymForOrigin :: "'ps crypto \<Rightarrow> private_identity_token \<Rightarrow> string \<Rightarrow> bytes" where
  "PseudonymForOrigin c p origin = sha256 c (pseudonym_preimage origin (pi_HolderPub (pt_Input p)))"

record pi_presentation =
  pp_Token :: private_identity_token
  pp_Origin :: string
  pp_Nonce :: bytes
  pp_IssuedAt :: int
  pp_Signature :: bytes

definition PrivateIdentityPresentationMessage :: "string \<Rightarrow> bytes \<Rightarrow> bytes \<Rightarrow> int \<Rightarrow> bytes" where
  "PrivateIdentityPresentationMessage origin nonce tokenDigest issuedAt =
     popDomain @ lp_be (bytes_of origin) @ nonce @ tokenDigest @ be_bytes 8 (word_of_int issuedAt :: u64)"

definition VerifyPrivateIdentityToken ::
  "'ps crypto \<Rightarrow> issuer \<Rightarrow> private_identity_token \<Rightarrow> (profile_error, unit) result" where
  "VerifyPrivateIdentityToken c i token =
     (let inp = pt_Input token in
      guard (pi_TokenType inp = PrivateIdentityTokenType) (ETokenType (pi_TokenType inp))
     (guard (pi_KeyVersion inp = is_keyVersion i) (EKeyVersion (pi_KeyVersion inp))
     (guard (pi_TokenKeyID inp = is_tokenKeyID i) EKeyID
     (VerifyMessage c i (pi_Bytes inp) (pt_Authenticator token)))))"

definition parseFAEST128sPublicKey :: "bytes \<Rightarrow> (profile_error, bytes \<times> bytes) result" where
  "parseFAEST128sPublicKey b = guard (length b = 32) EHolderTruncated (Inr (take 16 b, drop 16 b))"

definition FAEST128sPublicKeyBytes :: "(bytes \<times> bytes) option \<Rightarrow> bytes" where
  "FAEST128sPublicKeyBytes pk = (case pk of None \<Rightarrow> [] | Some (i, out) \<Rightarrow> i @ out)"

text \<open>
  The proof of possession, by the holder's algorithm. \<^verbatim>\<open>ed25519.Verify\<close> panics on a key that is not
  32 bytes.
\<close>

definition holder_verify ::
  "'ps crypto \<Rightarrow> byte \<Rightarrow> bytes \<Rightarrow> bytes \<Rightarrow> bytes \<Rightarrow> (profile_error, unit) result" where
  "holder_verify c alg pub msg sig =
     (if alg = HolderAlgEd25519 then
        guard (length pub = 32) EPanic (guard (ed25519_Verify c pub msg sig) EPoP (Inr ()))
      else if alg = HolderAlgMLDSA44 then guard (mldsa44_Verify c pub msg sig) EPoP (Inr ())
      else if alg = HolderAlgFAEST128s then
        bind_result (parseFAEST128sPublicKey pub) (\<lambda>pk. guard (faest128s_Verify c msg pk sig) EPoP (Inr ()))
      else Inl (EHolderAlg alg))"

definition VerifyPrivateIdentityPresentation ::
  "'ps crypto \<Rightarrow> issuer \<Rightarrow> pi_presentation \<Rightarrow> gotime \<Rightarrow> duration \<Rightarrow> (profile_error, bytes) result" where
  "VerifyPrivateIdentityPresentation c i p now maxSkew =
     bind_result (VerifyPrivateIdentityToken c i (pp_Token p)) (\<lambda>_.
     guard (pp_Origin p \<noteq> []) EOrigin
     (let ts = time_unix (pp_IssuedAt p) in
      guard (\<not> (ts > now + maxSkew \<or> ts < now + wrap64 (- maxSkew))) ETimestamp
     (let msg = PrivateIdentityPresentationMessage (pp_Origin p) (pp_Nonce p) (pt_Digest c (pp_Token p))
            (pp_IssuedAt p);
          inp = pt_Input (pp_Token p) in
      bind_result (holder_verify c (pi_HolderAlg inp) (pi_HolderPub inp) msg (pp_Signature p)) (\<lambda>_.
      Inr (PseudonymForOrigin c (pp_Token p) (pp_Origin p))))))"

section \<open>HTTP carriage\<close>

definition privateTokenScheme :: string where "privateTokenScheme = ''PrivateToken''"

definition WWWAuthenticate :: "bytes \<Rightarrow> bytes \<Rightarrow> string" where
  "WWWAuthenticate challenge issuerPublicKey =
     privateTokenScheme @ '' challenge='' @ b64url_encode challenge @ '', token-key='' @ b64url_encode issuerPublicKey"

definition Authorization :: "bytes \<Rightarrow> string" where
  "Authorization tokenBytes = privateTokenScheme @ '' token='' @ b64url_encode tokenBytes"

text \<open>\<^verbatim>\<open>strings.Trim(s, "\"")\<close>.\<close>

definition trim_quotes :: "string \<Rightarrow> string" where
  "trim_quotes s = rev (dropWhile (\<lambda>c. c = CHR 0x22) (rev (dropWhile (\<lambda>c. c = CHR 0x22) s)))"

definition ParseAuthorization :: "string \<Rightarrow> (profile_error, bytes) result" where
  "ParseAuthorization header =
     bind_result (of_option EScheme (cut_prefix privateTokenScheme (trim_space header))) (\<lambda>rest.
     bind_result (of_option (EMissing ''token'') (cut ''token='' rest)) (\<lambda>(_, v).
     of_option EBase64 (b64url_decode (trim_quotes (trim_suffix (trim_space v) '','')))))"

definition header_param :: "string \<Rightarrow> string \<Rightarrow> (profile_error, bytes) result" where
  "header_param rest param =
     bind_result (of_option (EMissing param) (cut (param @ ''='') rest)) (\<lambda>(_, v).
     let v' = (case cut '','' v of None \<Rightarrow> v | Some (a, _) \<Rightarrow> a) in
     of_option EBase64 (b64url_decode (trim_quotes (trim_space v'))))"

definition ParseWWWAuthenticate :: "string \<Rightarrow> (profile_error, bytes \<times> bytes) result" where
  "ParseWWWAuthenticate header =
     bind_result (of_option EScheme (cut_prefix privateTokenScheme (trim_space header))) (\<lambda>rest.
     bind_result (header_param rest ''challenge'') (\<lambda>challenge.
     bind_result (header_param rest ''token-key'') (\<lambda>issuerPublicKey.
     Inr (challenge, issuerPublicKey))))"

section \<open>The wire formats are exact\<close>

lemma sub_append_right: "length a \<le> i \<Longrightarrow> sub i j (a @ b) = sub (i - length a) (j - length a) b"
  by (simp add: sub_def)

lemma sub_append_left: "j \<le> length a \<Longrightarrow> sub i j (a @ b) = sub i j a"
  by (simp add: sub_def)

lemma sub_all: "n = length a \<Longrightarrow> sub 0 n a = a"
  by (simp add: sub_def)

lemma length_sub [simp]: "length (sub i j b) = min (j - i) (length b - i)"
  by (simp add: sub_def)

lemma split_sub: "i \<le> j \<Longrightarrow> drop i b = sub i j b @ drop j b"
  by (simp add: sub_def) (metis append_take_drop_id drop_drop le_add_diff_inverse2)

definition wf_burn :: "burn_token \<Rightarrow> bool" where
  "wf_burn t \<longleftrightarrow> bt_TokenType t = BurnTokenType \<and> length (bt_Nonce t) = 32
     \<and> length (bt_ChallengeDigest t) = 32 \<and> length (bt_TokenKeyID t) = 32
     \<and> authenticatorRandomLength < length (bt_Authenticator t)"

lemma parse_burn_exact:
  "ParseBurnToken b = Inr t \<longleftrightarrow> wf_burn t \<and> b = burn_Bytes t"
proof
  assume "ParseBurnToken b = Inr t"
  then have len: "130 < length b" and ty: "(be_word (take 2 b) :: u16) = BurnTokenType"
    and t: "t = \<lparr>bt_TokenType = BurnTokenType, bt_Nonce = sub 2 34 b, bt_ChallengeDigest = sub 34 66 b,
           bt_TokenKeyID = sub 66 98 b, bt_Authenticator = drop 98 b\<rparr>"
    by (auto simp: ParseBurnToken_def guard_Inr_iff Let_def burnInputLen_def authenticatorRandomLength_def)
  have "take 2 b = be_bytes 2 BurnTokenType"
    using be_bytes_be_word [of "take 2 b", where 'a = 16] len ty by simp
  then have "b = be_bytes 2 BurnTokenType @ drop 2 b" by (metis append_take_drop_id)
  also have "drop 2 b = sub 2 34 b @ sub 34 66 b @ sub 66 98 b @ drop 98 b"
    using split_sub [of 2 34 b] split_sub [of 34 66 b] split_sub [of 66 98 b] by simp
  finally have "b = burn_Bytes t" by (simp add: burn_Bytes_def t)
  moreover have "wf_burn t" using len by (simp add: wf_burn_def t authenticatorRandomLength_def)
  ultimately show "wf_burn t \<and> b = burn_Bytes t" by blast
next
  assume r: "wf_burn t \<and> b = burn_Bytes t"
  define ty :: bytes where "ty = be_bytes 2 BurnTokenType"
  have b: "b = ty @ bt_Nonce t @ bt_ChallengeDigest t @ bt_TokenKeyID t @ bt_Authenticator t"
    and ty: "length ty = 2" "(be_word ty :: u16) = BurnTokenType"
    using r by (simp_all add: burn_Bytes_def wf_burn_def ty_def)
  have len: "bt_TokenType t = BurnTokenType" "length (bt_Nonce t) = 32" "length (bt_ChallengeDigest t) = 32"
    "length (bt_TokenKeyID t) = 32" "authenticatorRandomLength < length (bt_Authenticator t)"
    using r by (simp_all add: wf_burn_def)
  have "take 2 b = ty" "sub 2 34 b = bt_Nonce t" "sub 34 66 b = bt_ChallengeDigest t"
    "sub 66 98 b = bt_TokenKeyID t" "drop 98 b = bt_Authenticator t"
    "burnInputLen + authenticatorRandomLength < length b"
    using len ty(1) unfolding b
    by (simp_all add: sub_append_right sub_append_left sub_all burnInputLen_def)
  then show "ParseBurnToken b = Inr t"
    using ty(2) len(1) by (simp add: ParseBurnToken_def)
qed

text \<open>
  C25: Burn tokens have one encoding. ParseBurnToken accepts a byte string exactly when it is the
  serialisation of a well-formed token (type 0x4550, three 32-byte fields, an authenticator longer
  than its 32 random bytes), and then returns that token: parsing and printing are inverse in both
  directions and no two byte strings carry the same token.
\<close>

theorem ParseBurnToken_iff:
  "ParseBurnToken b = Inr t \<longleftrightarrow> wf_burn t \<and> b = burn_Bytes t"
  by (rule parse_burn_exact)

definition wf_private_identity :: "private_identity_token \<Rightarrow> bool" where
  "wf_private_identity t \<longleftrightarrow> pi_TokenType (pt_Input t) = PrivateIdentityTokenType
     \<and> length (pi_TokenKeyID (pt_Input t)) = 32
     \<and> holderPubLen (pi_HolderAlg (pt_Input t)) = Inr (length (pi_HolderPub (pt_Input t)))
     \<and> authenticatorRandomLength < length (pt_Authenticator t)"

lemma parse_pi_exact:
  "ParsePrivateIdentityToken b = Inr t \<longleftrightarrow> wf_private_identity t \<and> b = pt_Bytes t"
proof
  assume "ParsePrivateIdentityToken b = Inr t"
  then obtain n where len: "39 \<le> length b" "39 + n \<le> length b" "32 < length (drop (39 + n) b)"
    and ty: "(be_word (take 2 b) :: u16) = PrivateIdentityTokenType" and n: "holderPubLen (b ! 38) = Inr n"
    and t: "t = \<lparr>pt_Input = \<lparr>pi_TokenType = PrivateIdentityTokenType, pi_KeyVersion = be_word (sub 2 6 b),
        pi_TokenKeyID = sub 6 38 b, pi_HolderAlg = b ! 38, pi_HolderPub = sub 39 (39 + n) b\<rparr>,
        pt_Authenticator = drop (39 + n) b\<rparr>"
    by (auto simp: ParsePrivateIdentityToken_def parsePrivateIdentityInputPrefix_def result_simps Let_def
        privateIdentityInputHead_def authenticatorRandomLength_def)
  have 2: "take 2 b = be_bytes 2 PrivateIdentityTokenType"
    using be_bytes_be_word [of "take 2 b", where 'a = 16] len ty by simp
  have 6: "sub 2 6 b = be_bytes 4 (be_word (sub 2 6 b) :: u32)"
    using be_bytes_be_word [of "sub 2 6 b", where 'a = 32] len by simp
  have "b = be_bytes 2 PrivateIdentityTokenType @ drop 2 b" using 2 by (metis append_take_drop_id)
  also have "drop 2 b = sub 2 6 b @ sub 6 38 b @ [b ! 38] @ sub 39 (39 + n) b @ drop (39 + n) b"
    using split_sub [of 2 6 b] split_sub [of 6 38 b] split_sub [of 39 "39 + n" b]
      Cons_nth_drop_Suc [of 38 b] len by simp
  finally have "b = pt_Bytes t" using 6 by (simp add: pt_Bytes_def pi_Bytes_def t)
  moreover have "wf_private_identity t"
    using len n by (simp add: wf_private_identity_def t authenticatorRandomLength_def)
  ultimately show "wf_private_identity t \<and> b = pt_Bytes t" by blast
next
  assume r: "wf_private_identity t \<and> b = pt_Bytes t"
  define i where "i = pt_Input t"
  define ty :: bytes where "ty = be_bytes 2 PrivateIdentityTokenType"
  define kv :: bytes where "kv = be_bytes 4 (pi_KeyVersion i)"
  have len: "length (pi_TokenKeyID i) = 32" "holderPubLen (pi_HolderAlg i) = Inr (length (pi_HolderPub i))"
    "pi_TokenType i = PrivateIdentityTokenType" "authenticatorRandomLength < length (pt_Authenticator t)"
    using r by (simp_all add: wf_private_identity_def i_def)
  have b: "b = ty @ kv @ pi_TokenKeyID i @ [pi_HolderAlg i] @ pi_HolderPub i @ pt_Authenticator t"
    using r len(3) by (simp add: pt_Bytes_def pi_Bytes_def ty_def kv_def i_def)
  have lens: "length ty = 2" "length kv = 4" by (simp_all add: ty_def kv_def)
  have parts: "take 2 b = ty" "sub 2 6 b = kv" "sub 6 38 b = pi_TokenKeyID i" "b ! 38 = pi_HolderAlg i"
    "sub 39 (39 + length (pi_HolderPub i)) b = pi_HolderPub i"
    "drop (39 + length (pi_HolderPub i)) b = pt_Authenticator t"
    "39 + length (pi_HolderPub i) \<le> length b"
    using len(1) lens unfolding b
    by (simp_all add: sub_append_right sub_append_left sub_all nth_append sub_def)
  have words: "(be_word ty :: u16) = PrivateIdentityTokenType" "(be_word kv :: u32) = pi_KeyVersion i"
    by (simp_all add: ty_def kv_def)
  have eta: "\<lparr>pi_TokenType = PrivateIdentityTokenType, pi_KeyVersion = pi_KeyVersion i,
      pi_TokenKeyID = pi_TokenKeyID i, pi_HolderAlg = pi_HolderAlg i, pi_HolderPub = pi_HolderPub i\<rparr> = i"
    using len(3) by simp
  have "parsePrivateIdentityInputPrefix b = Inr (i, 39 + length (pi_HolderPub i))"
    unfolding parsePrivateIdentityInputPrefix_def privateIdentityInputHead_def Let_def parts words len
    using parts(7) add_leD1 [OF parts(7)] len(2) eta by (simp add: parts)
  then show "ParsePrivateIdentityToken b = Inr t"
    using parts(6) len(4) by (simp add: ParsePrivateIdentityToken_def Let_def i_def del: length_drop)
qed

text \<open>
  Private-identity tokens have one encoding. ParsePrivateIdentityToken accepts a byte string
  exactly when it is the serialisation of a well-formed token, one whose holder key has the length
  its algorithm byte announces, and returns that token.
\<close>

lemma ParsePrivateIdentityToken_iff:
  "ParsePrivateIdentityToken b = Inr t \<longleftrightarrow> wf_private_identity t \<and> b = pt_Bytes t"
  by (rule parse_pi_exact)

section \<open>Signed messages are unambiguous\<close>

lemma concat_lp_be_inject:
  assumes "\<forall>x \<in> set xs. length x < 2 ^ 32" "\<forall>y \<in> set ys. length y < 2 ^ 32"
    and "length xs = length ys" "concat (map lp_be xs) @ r = concat (map lp_be ys) @ r'"
  shows "xs = ys \<and> r = r'"
  using assms(3,1,2,4)
  by (induction xs ys rule: list_induct2) (auto simp: lp_be_append_inject)

lemma batches_distinct:
  assumes "length xs < 2 ^ 32" and "length ys < 2 ^ 32"
    and "\<forall>x \<in> set xs \<union> set ys. length x < 2 ^ 32"
    and "binding_preimage xs = binding_preimage ys"
  shows "xs = ys"
proof -
  from assms(4) have "be_bytes 4 (len32 xs) @ concat (map lp_be xs) = be_bytes 4 (len32 ys) @ concat (map lp_be ys)"
    by (simp add: binding_preimage_def)
  then have "length xs = length ys" "concat (map lp_be xs) = concat (map lp_be ys)"
    using len32_inject [OF assms(1,2)] by (auto simp: be_bytes_append_inject)
  then show ?thesis using concat_lp_be_inject [of xs ys "[]" "[]"] assms(3) by simp
qed

text \<open>
  The channel binding commits to the whole batch. Two batches with fewer than 4 Gi targets, each
  shorter than 4 GiB, that hash the same byte string are the same batch, target by target.
\<close>

lemma binding_preimage_injective:
  assumes "length xs < 2 ^ 32" and "length ys < 2 ^ 32"
    and "\<forall>x \<in> set xs \<union> set ys. length x < 2 ^ 32"
    and "binding_preimage xs = binding_preimage ys"
  shows "xs = ys"
  using assms by (rule batches_distinct)

lemma be2_inject: "be_bytes 2 (v :: u16) = be_bytes 2 w \<longleftrightarrow> v = w"
  by simp

lemma pi_Bytes_inject:
  assumes "length (pi_TokenKeyID p) = 32" "length (pi_TokenKeyID q) = 32" "pi_Bytes p = pi_Bytes q"
  shows "p = q"
  using assms(3) by (cases p; cases q)
    (use assms(1,2) in \<open>simp add: pi_Bytes_def be_bytes_append_inject\<close>)

text \<open>
  What the issuer blind-signs cannot be read two ways. Distinct burn tokens have distinct signed
  inputs, so have distinct private-identity inputs, and no burn input equals a private-identity
  input: an authenticator for one family never verifies as a token of the other on the same bytes.
\<close>

lemma signed_inputs_unambiguous:
  assumes "length n = 32" and "length n' = 32" and "length d = 32" and "length d' = 32"
    and "length (pi_TokenKeyID p) = 32" and "length (pi_TokenKeyID q) = 32"
    and "pi_TokenType p = PrivateIdentityTokenType"
  shows "(BurnInput n d k = BurnInput n' d' k' \<longrightarrow> n = n' \<and> d = d' \<and> k = k')
    \<and> (pi_Bytes p = pi_Bytes q \<longrightarrow> p = q) \<and> BurnInput n d k \<noteq> pi_Bytes p"
proof -
  have "(BurnTokenType :: u16) \<noteq> PrivateIdentityTokenType"
    by (simp add: BurnTokenType_def PrivateIdentityTokenType_def)
  then have "BurnInput n d k \<noteq> pi_Bytes p"
    by (simp add: BurnInput_def pi_Bytes_def assms(7) be_bytes_append_inject)
  moreover have "n = n' \<and> d = d' \<and> k = k'" if "BurnInput n d k = BurnInput n' d' k'"
    using that assms(1-4) by (simp add: BurnInput_def be_bytes_append_inject)
  ultimately show ?thesis using pi_Bytes_inject [OF assms(5,6)] by blast
qed

lemma word_of_int_inject64:
  assumes "is_int64 a" "is_int64 b" "(word_of_int a :: u64) = word_of_int b"
  shows "a = b"
proof -
  have "a mod 2 ^ 64 = b mod 2 ^ 64" using arg_cong [OF assms(3), of uint] by (simp add: uint_word_of_int)
  then have "(2 ^ 64 :: int) dvd a - b" by (simp add: mod_eq_dvd_iff)
  then obtain k where "a - b = 2 ^ 64 * k" by (auto simp: dvd_def)
  moreover have "- (2 ^ 64) < a - b" "a - b < 2 ^ 64"
    using assms(1,2) by (simp_all add: is_int64_def)
  ultimately have "k = 0" by auto
  then show ?thesis using \<open>a - b = 2 ^ 64 * k\<close> by simp
qed

text \<open>
  A holder's proof of possession is bound to one origin, nonce, token and time. If two
  presentations sign the same message they agree on all four; and the three hashed or signed
  formats (batch binding, proof of possession, pseudonym) never share a message.
\<close>

lemma presentation_message_injective:
  assumes "length orig < 2 ^ 32" and "length orig' < 2 ^ 32" and "length n = 32" and "length n' = 32"
    and "length d = 32" and "length d' = 32" and "is_int64 t" and "is_int64 t'"
  shows "(PrivateIdentityPresentationMessage orig n d t = PrivateIdentityPresentationMessage orig' n' d' t' \<longrightarrow>
      orig = orig' \<and> n = n' \<and> d = d' \<and> t = t')
    \<and> PrivateIdentityPresentationMessage orig n d t \<noteq> binding_preimage xs
    \<and> PrivateIdentityPresentationMessage orig n d t \<noteq> pseudonym_preimage orig' pub
    \<and> binding_preimage xs \<noteq> pseudonym_preimage orig' pub"
proof -
  have take: "take 11 (PrivateIdentityPresentationMessage orig n d t) = bytes_of ''eat-pass/pv''"
    "take 11 (binding_preimage xs) = bytes_of ''eat-pass/bi''"
    "take 11 (pseudonym_preimage orig' pub) = bytes_of ''tamayo/priv''"
    by (simp_all add: PrivateIdentityPresentationMessage_def binding_preimage_def pseudonym_preimage_def
        popDomain_def bindingDomain_def pseudonymDomain_def bytes_of_def)
  have "orig = orig' \<and> n = n' \<and> d = d' \<and> t = t'"
    if "PrivateIdentityPresentationMessage orig n d t = PrivateIdentityPresentationMessage orig' n' d' t'"
  proof -
    from that have "orig = orig' \<and> n = n' \<and> d = d' \<and> (word_of_int t :: u64) = word_of_int t'"
      using assms(1-6) by (simp add: PrivateIdentityPresentationMessage_def lp_be_append_inject lp_be_inject)
    then show ?thesis using word_of_int_inject64 [OF assms(7,8)] by blast
  qed
  moreover have "bytes_of ''eat-pass/pv'' \<noteq> bytes_of ''eat-pass/bi''" "bytes_of ''eat-pass/pv'' \<noteq> bytes_of ''tamayo/priv''"
    "bytes_of ''eat-pass/bi'' \<noteq> bytes_of ''tamayo/priv''" by simp_all
  ultimately show ?thesis unfolding take [symmetric] by (intro conjI; metis)
qed

section \<open>Minting and verifying\<close>

text \<open>
  What the blind signature promises: a proof finished from a blind signature on the prepared
  target, under a key pair and its expanded public key, verifies for the message.
\<close>

definition blind_correct :: "'ps crypto \<Rightarrow> bool" where
  "blind_correct c \<longleftrightarrow> (\<forall>seed cpk csk epk msg r target ps h.
     mayo_CompactKeyGen c seed = Some (cpk, csk) \<longrightarrow> mayo_ExpandPK c cpk = Some epk \<longrightarrow>
     length r = authenticatorRandomLength \<longrightarrow> pomfrit_Sign1 c msg r = (target, ps, h) \<longrightarrow>
     mayo_SignWithoutHashing c target csk \<noteq> [] \<longrightarrow>
     pomfrit_BlindVerify c epk msg
       (pomfrit_Sign3 c epk h (mayo_SignWithoutHashing c target csk) ps r) r)"

lemma BlindSign_single:
  "BlindSign c i [target] = Inr sigs \<Longrightarrow>
   sigs = [mayo_SignWithoutHashing c target (is_csk i)] \<and> mayo_SignWithoutHashing c target (is_csk i) \<noteq> []"
  by (auto simp: BlindSign_def result_simps Let_def)

lemma NewIssuer_Inr:
  "NewIssuer c fresh kv seed = Inr i \<Longrightarrow>
   is_keyVersion i = kv \<and> kv \<noteq> 0 \<and> is_tokenKeyID i = sha256 c (is_cpk i)
   \<and> mayo_ExpandPK c (is_cpk i) = Some (is_epk i)
   \<and> (\<exists>s. mayo_CompactKeyGen c s = Some (is_cpk i, is_csk i))"
  by (auto simp: NewIssuer_def result_simps)

lemma minted_authenticator:
  assumes "blind_correct c" "NewIssuer c fresh kv seed = Inr i" "length r = authenticatorRandomLength"
    and "PrepareBlind c msg r = (target, st)" "BlindSign c i [target] = Inr [sig]"
    and "FinalizeBlind c (is_epk i) sig st = Inr auth"
  shows "VerifyMessage c i msg auth = Inr () \<and> authenticatorRandomLength < length auth"
proof -
  obtain ps h where s1: "pomfrit_Sign1 c msg r = (target, ps, h)"
    and st: "st = \<lparr>st_additionalR = r, st_proofState = ps, st_h = h\<rparr>"
    using assms(4) by (auto simp: PrepareBlind_def split: prod.splits)
  have sig: "sig = mayo_SignWithoutHashing c target (is_csk i)" "sig \<noteq> []"
    using BlindSign_single [OF assms(5)] by auto
  have auth: "auth = r @ pomfrit_Sign3 c (is_epk i) h sig ps r" "pomfrit_Sign3 c (is_epk i) h sig ps r \<noteq> []"
    using assms(6) by (auto simp: FinalizeBlind_def Let_def guard_Inr_iff st)
  have "pomfrit_BlindVerify c (is_epk i) msg (pomfrit_Sign3 c (is_epk i) h sig ps r) r"
    using assms(1,3) s1 sig NewIssuer_Inr [OF assms(2)] unfolding blind_correct_def by blast
  then show ?thesis using auth assms(3) by (simp add: VerifyMessage_def)
qed

lemma verifier_same:
  assumes "NewIssuer c fresh kv seed = Inr i" "NewVerifierFromPublic c kv (is_cpk i) = Inr v"
  shows "is_keyVersion v = is_keyVersion i \<and> is_epk v = is_epk i \<and> is_tokenKeyID v = is_tokenKeyID i \<and> is_csk v = []"
  using NewIssuer_Inr [OF assms(1)] assms(2) by (auto simp: NewVerifierFromPublic_def result_simps)

text \<open>
  C26: What is minted verifies. Run the burn protocol between a client and an issuer: the client
  blinds the token input, the issuer signs, the client finalises. The resulting token survives
  serialisation, is accepted by the issuer for its challenge and for no other, and is accepted by a
  verifier that only has the published compact key. That verifier can not mint.
\<close>

theorem burn_mint_verifies:
  assumes "blind_correct c" and "\<And>x. length (sha256 c x) = 32"
    and "NewIssuer c fresh kv seed = Inr i" and "NewVerifierFromPublic c kv (is_cpk i) = Inr v"
    and "length nonce = 32" and "length ch = 32" and "length r = 32"
    and "PrepareBlind c (BurnInput nonce ch (is_tokenKeyID i)) r = (target, st)"
    and "BlindSign c i [target] = Inr [sig]" and "FinalizeBlind c (is_epk i) sig st = Inr auth"
    and "t = \<lparr>bt_TokenType = BurnTokenType, bt_Nonce = nonce, bt_ChallengeDigest = ch,
           bt_TokenKeyID = is_tokenKeyID i, bt_Authenticator = auth\<rparr>"
  shows "ParseBurnToken (burn_Bytes t) = Inr t
    \<and> VerifyBurnToken c i t ch' = (if ch' = ch then Inr () else Inl EChallenge)
    \<and> VerifyBurnToken c v t ch = Inr () \<and> BlindSign c v batch = Inl ENoSecretKey"
proof -
  have auth: "VerifyMessage c i (BurnInput nonce ch (is_tokenKeyID i)) auth = Inr ()"
    "authenticatorRandomLength < length auth"
    using minted_authenticator [OF assms(1,3) _ assms(8-10)] assms(7)
    by (simp_all add: authenticatorRandomLength_def)
  note same = verifier_same [OF assms(3,4)]
  have id: "length (is_tokenKeyID i) = 32" using NewIssuer_Inr [OF assms(3)] assms(2) by simp
  then have "wf_burn t" using assms(5,6,11) auth(2) by (simp add: wf_burn_def)
  then have "ParseBurnToken (burn_Bytes t) = Inr t" using parse_burn_exact by blast
  moreover have "VerifyMessage c v m a = VerifyMessage c i m a" for m a
    using same by (simp add: VerifyMessage_def)
  ultimately show ?thesis
    using auth(1) same assms(11) by (simp add: VerifyBurnToken_def burn_Input_def BlindSign_def guard_def)
qed

text \<open>A stand-in for the cryptography in concrete runs.\<close>

definition toy_crypto :: "unit crypto" where
  "toy_crypto = \<lparr>sha256 = (\<lambda>x. take 32 (x @ replicate 32 0)),
     mayo_CompactKeyGen = (\<lambda>_. Some ([1], [2])), mayo_ExpandPK = (\<lambda>_. Some [3]),
     mayo_SignWithoutHashing = (\<lambda>target csk. csk @ [9]),
     pomfrit_Sign1 = (\<lambda>msg r. (replicate 39 0, (), msg)),
     pomfrit_Sign3 = (\<lambda>epk h sig ps r. sig @ h),
     pomfrit_BlindVerify = (\<lambda>epk msg proof r. proof = [2, 9] @ msg),
     ed25519_Verify = (\<lambda>pub msg sig. sig = pub @ msg), mldsa44_Verify = (\<lambda>pub msg sig. sig = pub @ msg),
     faest128s_Verify = (\<lambda>msg pk sig. sig = fst pk @ snd pk @ msg)\<rparr>"

lemma toy_crypto_correct: "blind_correct toy_crypto" "length (sha256 toy_crypto x) = 32"
  by (auto simp: blind_correct_def toy_crypto_def)

definition toy_issuer :: issuer where
  "toy_issuer = \<lparr>is_keyVersion = 7, is_cpk = [1], is_csk = [2], is_epk = [3], is_tokenKeyID = 1 # replicate 31 0\<rparr>"

lemma toy_issuer:
  "NewIssuer toy_crypto None 7 (replicate 24 5) = Inr toy_issuer"
  "NewVerifierFromPublic toy_crypto 7 [1] = Inr (toy_issuer\<lparr>is_csk := []\<rparr>)"
  by (simp_all add: NewIssuer_def NewVerifierFromPublic_def toy_crypto_def toy_issuer_def SKSeedBytes_def)

theorem burn_mint_verifies_witness:
  "\<exists>t. VerifyBurnToken toy_crypto toy_issuer t (replicate 32 4) = Inr () \<and> bt_Nonce t = replicate 32 3
     \<and> ParseBurnToken (burn_Bytes t) = Inr t"
proof -
  let ?m = "BurnInput (replicate 32 3) (replicate 32 4) (is_tokenKeyID toy_issuer)"
  let ?st = "\<lparr>st_additionalR = replicate 32 6, st_proofState = (), st_h = ?m\<rparr>"
  have 1: "PrepareBlind toy_crypto ?m (replicate 32 6) = (replicate 39 0, ?st)"
    by (simp add: PrepareBlind_def toy_crypto_def)
  have 2: "BlindSign toy_crypto toy_issuer [replicate 39 0] = Inr [[2, 9]]"
    by (simp add: BlindSign_def toy_crypto_def toy_issuer_def MBytes_def)
  have 3: "FinalizeBlind toy_crypto (is_epk toy_issuer) [2, 9] ?st = Inr (replicate 32 6 @ [2, 9] @ ?m)"
    by (simp add: FinalizeBlind_def toy_crypto_def)
  have v: "NewVerifierFromPublic toy_crypto 7 (is_cpk toy_issuer) = Inr (toy_issuer\<lparr>is_csk := []\<rparr>)"
    using toy_issuer(2) by (simp add: toy_issuer_def)
  from burn_mint_verifies [OF toy_crypto_correct toy_issuer(1) v _ _ _ 1 2 3 refl, of "replicate 32 4"]
  show ?thesis by (intro exI conjI) auto
qed

lemma holder_verify_no_panic:
  "holderPubLen alg = Inr (length pub) \<Longrightarrow> holder_verify c alg pub msg sig \<noteq> Inl EPanic"
  by (auto simp: holderPubLen_def holder_verify_def guard_def HolderAlgEd25519_def HolderAlgMLDSA44_def
      HolderAlgFAEST128s_def parseFAEST128sPublicKey_def split: if_splits)

text \<open>
  C27: When a private-identity presentation is accepted. For a token that came through the parser,
  a skew that is not negative and a timestamp within the representable range, the presentation is
  accepted if and only if the token verifies, an origin is named, the timestamp is within the skew
  of the verifier's clock (both ends included), and the holder's key signed the message for this
  origin, nonce, token and time. The answer is then the holder's pseudonym at that origin, and
  verification never panics.
\<close>

theorem presentation_accept_iff:
  assumes "ParsePrivateIdentityToken b = Inr (pp_Token p)"
    and "0 \<le> maxSkew" and "maxSkew < 2 ^ 63" and "\<bar>pp_IssuedAt p\<bar> < 2 ^ 62"
  shows "(VerifyPrivateIdentityPresentation c i p now maxSkew = Inr ps \<longleftrightarrow>
      VerifyPrivateIdentityToken c i (pp_Token p) = Inr () \<and> pp_Origin p \<noteq> []
      \<and> \<bar>pp_IssuedAt p * second - now\<bar> \<le> maxSkew
      \<and> holder_verify c (pi_HolderAlg (pt_Input (pp_Token p))) (pi_HolderPub (pt_Input (pp_Token p)))
          (PrivateIdentityPresentationMessage (pp_Origin p) (pp_Nonce p) (pt_Digest c (pp_Token p)) (pp_IssuedAt p))
          (pp_Signature p) = Inr ()
      \<and> ps = PseudonymForOrigin c (pp_Token p) (pp_Origin p))
    \<and> VerifyPrivateIdentityPresentation c i p now maxSkew \<noteq> Inl EPanic"
proof -
  have wf: "wf_private_identity (pp_Token p)" using assms(1) parse_pi_exact by blast
  have neg: "wrap64 (- maxSkew) = - maxSkew" using assms(2,3) by (simp add: wrap64_id is_int64_def)
  have ts: "time_unix (pp_IssuedAt p) = pp_IssuedAt p * second"
    using assms(4) by (simp add: time_unix_small)
  have tok: "VerifyPrivateIdentityToken c i t \<noteq> Inl EPanic" for t
    by (auto simp: VerifyPrivateIdentityToken_def VerifyMessage_def guard_def Let_def)
  have "holder_verify c (pi_HolderAlg (pt_Input (pp_Token p))) (pi_HolderPub (pt_Input (pp_Token p))) m sg
      \<noteq> Inl EPanic" for m sg
    using wf by (intro holder_verify_no_panic) (simp add: wf_private_identity_def)
  then show ?thesis
    using tok [of "pp_Token p"]
    by (auto simp: VerifyPrivateIdentityPresentation_def result_simps Let_def ts neg
        guard_def bind_result_def split: sum.splits if_splits)
qed

definition toy_presentation :: pi_presentation where
  "toy_presentation = \<lparr>
     pp_Token = \<lparr>pt_Input = NewPrivateIdentityInput 7 (1 # replicate 31 0) HolderAlgEd25519 (replicate 32 4),
       pt_Authenticator = replicate 32 6 @ [2, 9] @
         pi_Bytes (NewPrivateIdentityInput 7 (1 # replicate 31 0) HolderAlgEd25519 (replicate 32 4))\<rparr>,
     pp_Origin = ''rp.example'', pp_Nonce = replicate 32 8, pp_IssuedAt = 100,
     pp_Signature = []\<rparr>"

theorem presentation_accept_iff_witness:
  "VerifyPrivateIdentityPresentation toy_crypto toy_issuer toy_presentation (100 * second) second \<noteq> Inl EPanic
   \<and> VerifyPrivateIdentityPresentation toy_crypto toy_issuer toy_presentation (102 * second) second \<noteq> Inr []"
proof -
  have "wf_private_identity (pp_Token toy_presentation)"
    by (simp add: wf_private_identity_def toy_presentation_def NewPrivateIdentityInput_def holderPubLen_def
        authenticatorRandomLength_def)
  then have parse: "ParsePrivateIdentityToken (pt_Bytes (pp_Token toy_presentation)) = Inr (pp_Token toy_presentation)"
    using parse_pi_exact by blast
  have pre: "0 \<le> second" "second < 2 ^ 63" "\<bar>pp_IssuedAt toy_presentation\<bar> < 2 ^ 62"
    "\<not> \<bar>pp_IssuedAt toy_presentation * second - 102 * second\<bar> \<le> second"
    by (simp_all add: toy_presentation_def second_def)
  note iff = presentation_accept_iff [OF parse pre(1-3), of toy_crypto toy_issuer]
  show ?thesis by (intro conjI, rule conjunct2 [OF iff]) (simp only: conjunct1 [OF iff] pre(4) simp_thms)
qed

section \<open>Headers\<close>

lemma dropWhile_absent: "x \<notin> set s \<Longrightarrow> dropWhile (\<lambda>c. c = x) s = s"
  by (cases s) auto

lemma trim_quotes_id: "CHR 0x22 \<notin> set s \<Longrightarrow> trim_quotes s = s"
  by (simp add: trim_quotes_def dropWhile_absent)

lemma url_text:
  "CHR 0x22 \<notin> set (b64url_encode b)" "CHR '','' \<notin> set (b64url_encode b)" "CHR ''='' \<notin> set (b64url_encode b)"
  using b64url_encode_alphabet [of b] by (auto simp: url_alphabet_def)

lemma trim_suffix_absent: "c \<notin> set s \<Longrightarrow> trim_suffix s [c] = s"
  by (auto simp: trim_suffix_def suffix_def)

lemma trim_graph_ends:
  "s \<noteq> [] \<Longrightarrow> is_graph (hd s) \<Longrightarrow> is_graph (last s) \<Longrightarrow> trim_space s = s"
  by (simp add: trim_space_id)

lemma last_url: "b64url_encode b \<noteq> [] \<Longrightarrow> is_graph (last (b64url_encode b))"
  using b64url_encode_graph [of b] by (metis list_all_iff last_in_set)

text \<open>
  The HTTP carriage is lossless. An origin's challenge header parses back to the challenge and
  the issuer key, and a client's authorization header to the token bytes, for all byte strings.
\<close>

lemma header_roundtrip:
  "ParseAuthorization (Authorization tok) = Inr tok
   \<and> ParseWWWAuthenticate (WWWAuthenticate ch key) = Inr (ch, key)"
proof
  have "trim_space (Authorization tok) = Authorization tok"
    by (rule trim_graph_ends)
      (use last_url [of tok] in \<open>auto simp: Authorization_def privateTokenScheme_def is_graph_def last_append\<close>)
  then have cp: "cut_prefix privateTokenScheme (trim_space (Authorization tok)) =
      Some ('' '' @ (''token'' @ [CHR ''='']) @ b64url_encode tok)"
    by (simp add: cut_prefix_def Authorization_def)
  have "cut (''token'' @ [CHR ''='']) ('' '' @ (''token'' @ [CHR ''='']) @ b64url_encode tok) =
      Some ('' '', b64url_encode tok)"
    by (rule cut_found_char) simp_all
  then show "ParseAuthorization (Authorization tok) = Inr tok"
    using cp by (simp add: ParseAuthorization_def trim_suffix_absent trim_quotes_id url_text)
next
  define rest where "rest = '' challenge='' @ b64url_encode ch @ '', token-key='' @ b64url_encode key"
  have "trim_space (WWWAuthenticate ch key) = WWWAuthenticate ch key"
    by (rule trim_graph_ends)
      (use last_url [of key] in \<open>auto simp: WWWAuthenticate_def privateTokenScheme_def is_graph_def last_append\<close>)
  then have cp: "cut_prefix privateTokenScheme (trim_space (WWWAuthenticate ch key)) = Some rest"
    by (simp add: cut_prefix_def WWWAuthenticate_def rest_def)
  have "cut (''challenge'' @ [CHR ''='']) ('' '' @ (''challenge'' @ [CHR ''='']) @
      b64url_encode ch @ '', token-key='' @ b64url_encode key) =
      Some ('' '', b64url_encode ch @ '', token-key='' @ b64url_encode key)"
    by (rule cut_found_char) simp_all
  moreover have "cut [CHR '',''] (b64url_encode ch @ CHR '','' # '' token-key='' @ b64url_encode key) =
      Some (b64url_encode ch, '' token-key='' @ b64url_encode key)"
    by (rule cut_char_append) (rule url_text)
  ultimately have 1: "header_param rest ''challenge'' = Inr ch"
    by (simp add: header_param_def rest_def trim_quotes_id url_text)
  have "cut (''token-key'' @ [CHR ''='']) ((b64url_encode ch @ '', '') @
      (''token-key'' @ [CHR ''='']) @ b64url_encode key) = Some (b64url_encode ch @ '', '', b64url_encode key)"
    by (rule cut_found_char) (simp_all add: url_text)
  then have "cut ''token-key='' rest = Some ('' challenge='' @ b64url_encode ch @ '', '', b64url_encode key)"
    using cut_skip [of "CHR ''t''" "'' challenge=''" "''oken-key=''"
        "b64url_encode ch @ '', token-key='' @ b64url_encode key"]
    by (simp add: rest_def)
  then have 2: "header_param rest ''token-key'' = Inr key"
    by (simp add: header_param_def trim_quotes_id url_text cut_char_None)
  show "ParseWWWAuthenticate (WWWAuthenticate ch key) = Inr (ch, key)"
    using cp 1 2 by (simp add: ParseWWWAuthenticate_def)
qed

end
