(* ===== verification/EmailToken.thy ===== *)
theory EmailToken
  imports GoStd
begin

text \<open>
  Package \<^verbatim>\<open>emailtoken\<close>: email verification tokens (EVT), policy-bound email tokens and their
  ML-DSA-44 profile, all compact JWS followed by a tilde and a key-binding JWT. The two JWS
  algorithms are values of \<open>jws_suite\<close> (so \<^verbatim>\<open>signJWS\<close>/\<^verbatim>\<open>pqSignJWS\<close> and
  \<^verbatim>\<open>verifyJWS\<close>/\<^verbatim>\<open>pqVerifyJWS\<close>, which the source writes twice, are one definition each);
  the JSON codecs of the claim structs are the argument \<open>json\<close>.
\<close>

section \<open>Keys, headers and claims\<close>

record jwk =
  Kty :: string
  Crv :: string
  jwk_X :: string
  jwk_Pub :: string
  jwk_Kid :: string
  jwk_Alg :: string
  jwk_Use :: string

record header =
  hd_Alg :: string
  hd_Typ :: string
  hd_Kid :: string

record evt_claims =
  ev_Iss :: string
  ev_Iat :: int
  ev_Exp :: int
  ev_CNF :: jwk
  ev_Email :: string
  ev_EmailVerified :: bool

record policy_binding =
  pb_TokenFamily :: string
  pb_BindingB64 :: string
  pb_BudgetKey :: string
  pb_Origin :: string
  pb_AuthorizationExpiresAt :: int
  pb_AuthorizationDecisionID :: string

record policy_email_claims =
  pe_Iss :: string
  pe_Iat :: int
  pe_Exp :: int
  pe_CNF :: jwk
  pe_Email :: string
  pe_EmailVerified :: bool
  pe_Policy :: policy_binding

record kb_claims =
  kb_Aud :: string
  kb_Nonce :: string
  kb_Iat :: int
  kb_SDHash :: string

text \<open>\<^verbatim>\<open>encoding/json\<close> on the four structs; headers are decoded with unknown fields disallowed.\<close>

record json =
  enc_header :: "header \<Rightarrow> bytes"
  dec_header :: "bytes \<Rightarrow> header option"
  enc_evt :: "evt_claims \<Rightarrow> bytes"
  dec_evt :: "bytes \<Rightarrow> evt_claims option"
  enc_policy :: "policy_email_claims \<Rightarrow> bytes"
  dec_policy :: "bytes \<Rightarrow> policy_email_claims option"
  enc_kb :: "kb_claims \<Rightarrow> bytes"
  dec_kb :: "bytes \<Rightarrow> kb_claims option"

text \<open>A JWS algorithm: its name, key and signature sizes, signing (with optional randomness) and verifying.\<close>

record jws_suite =
  js_alg :: string
  js_pubLen :: nat
  js_privLen :: nat
  js_sigLen :: nat
  js_sign :: "bytes \<Rightarrow> bytes \<Rightarrow> bytes option \<Rightarrow> bytes option"
  js_verify :: "bytes \<Rightarrow> bytes \<Rightarrow> bytes \<Rightarrow> bool"

record email_env =
  en_json :: json
  en_sha256 :: "bytes \<Rightarrow> bytes"
  ed_sign :: "bytes \<Rightarrow> bytes \<Rightarrow> bytes"
  ed_verify :: "bytes \<Rightarrow> bytes \<Rightarrow> bytes \<Rightarrow> bool"
  ed_newKeyFromSeed :: "bytes \<Rightarrow> bytes"
  ed_public :: "bytes \<Rightarrow> bytes"
  ml_keyGen :: "bytes \<Rightarrow> (bytes \<times> bytes) option"
  ml_sign :: "bytes \<Rightarrow> bytes \<Rightarrow> bytes \<Rightarrow> bytes option"
  ml_verify :: "bytes \<Rightarrow> bytes \<Rightarrow> bytes \<Rightarrow> bool"

definition AlgEdDSA :: string where "AlgEdDSA = ''EdDSA''"
definition AlgMLDSA44 :: string where "AlgMLDSA44 = ''ML-DSA-44''"
definition KtyAKP :: string where "KtyAKP = ''AKP''"
definition TypEVT :: string where "TypEVT = ''evt+jwt''"
definition TypKBJWT :: string where "TypKBJWT = ''kb+jwt''"
definition TypPolicyEmail :: string where "TypPolicyEmail = ''tamayo-policy-email+jwt''"

lemmas email_consts = AlgEdDSA_def AlgMLDSA44_def KtyAKP_def TypEVT_def TypKBJWT_def TypPolicyEmail_def

definition ed_suite :: "email_env \<Rightarrow> jws_suite" where
  "ed_suite E = \<lparr>js_alg = AlgEdDSA, js_pubLen = 32, js_privLen = 64, js_sigLen = 64,
     js_sign = (\<lambda>priv msg _. Some (ed_sign E priv msg)), js_verify = ed_verify E\<rparr>"

text \<open>A nil \<^verbatim>\<open>rnd\<close> selects deterministic signing, 32 zero bytes.\<close>

definition ml_suite :: "email_env \<Rightarrow> jws_suite" where
  "ml_suite E = \<lparr>js_alg = AlgMLDSA44, js_pubLen = 1312, js_privLen = 2560, js_sigLen = 2420,
     js_sign = (\<lambda>priv msg rnd. ml_sign E priv msg (case rnd of None \<Rightarrow> replicate 32 0 | Some r \<Rightarrow> r)),
     js_verify = ml_verify E\<rparr>"

datatype email_error =
    EPubLen nat | EPrivLen nat | EJwkType | EJwkText | EJwkLen nat | EAKPHolder
  | ESign | ESegments | EHeaderText | EHeaderJson | EJwsAlg string | ESigText | ESigLen nat
  | EJwsRejected | EPayloadText
  | EIssuer | ESeedLen nat | ERand | EKeyGenFail | EEmail | EIssuedAt
  | ETilde | ETyp string | EKid | EClaimsJson | EIssMismatch | EUnverified | EExpiredToken | EWindow
  | EAudience | EKBRequired | EPresentation | ETokenDots | EKBDots | EAudMismatch | ESDHash
  | ENonceText | ENonceLen nat | ENonce | EFamilyMissing | EBindingMissing | EBudgetKeyMissing | EIncomplete

definition PublicJWK :: "bytes \<Rightarrow> string \<Rightarrow> (email_error, jwk) result" where
  "PublicJWK pub kid =
     guard (length pub = 32) (EPubLen (length pub))
     (Inr \<lparr>Kty = ''OKP'', Crv = ''Ed25519'', jwk_X = b64url_encode pub, jwk_Pub = [], jwk_Kid = kid,
           jwk_Alg = AlgEdDSA, jwk_Use = ''sig''\<rparr>)"

definition Ed25519PublicKey :: "jwk \<Rightarrow> (email_error, bytes) result" where
  "Ed25519PublicKey j =
     guard (\<not> (Kty j \<noteq> ''OKP'' \<or> Crv j \<noteq> ''Ed25519'')) EJwkType
     (bind_result (of_option EJwkText (b64url_decode (jwk_X j))) (\<lambda>x.
      guard (length x = 32) (EJwkLen (length x)) (Inr x)))"

definition PublicJWKMLDSA44 :: "bytes \<Rightarrow> string \<Rightarrow> (email_error, jwk) result" where
  "PublicJWKMLDSA44 pub kid =
     guard (length pub = 1312) (EPubLen (length pub))
     (Inr \<lparr>Kty = KtyAKP, Crv = [], jwk_X = [], jwk_Pub = b64url_encode pub, jwk_Kid = kid,
           jwk_Alg = AlgMLDSA44, jwk_Use = ''sig''\<rparr>)"

definition MLDSA44PublicKey :: "jwk \<Rightarrow> (email_error, bytes) result" where
  "MLDSA44PublicKey j =
     guard (\<not> (Kty j \<noteq> KtyAKP \<or> (jwk_Alg j \<noteq> [] \<and> jwk_Alg j \<noteq> AlgMLDSA44))) EJwkType
     (bind_result (of_option EJwkText (b64url_decode (jwk_Pub j))) (\<lambda>pub.
      guard (length pub = 1312) (EJwkLen (length pub)) (Inr pub)))"

definition checkHolderJWK :: "jwk \<Rightarrow> bool \<Rightarrow> (email_error, unit) result" where
  "checkHolderJWK j allowAKP =
     (if Kty j = KtyAKP
      then guard allowAKP EAKPHolder (bind_result (MLDSA44PublicKey j) (\<lambda>_. Inr ()))
      else bind_result (Ed25519PublicKey j) (\<lambda>_. Inr ()))"

section \<open>Compact JWS\<close>

text \<open>\<open>payload\<close> is the marshalled claims.\<close>

definition signJWS ::
  "email_env \<Rightarrow> jws_suite \<Rightarrow> header \<Rightarrow> bytes \<Rightarrow> bytes \<Rightarrow> bytes option \<Rightarrow> (email_error, string) result" where
  "signJWS E S hdr payload priv rnd =
     guard (length priv = js_privLen S) (EPrivLen (length priv))
     (let h = enc_header (en_json E) (hdr\<lparr>hd_Alg := js_alg S\<rparr>);
          signingInput = b64url_encode h @ ''.'' @ b64url_encode payload in
      bind_result (of_option ESign (js_sign S priv (bytes_of signingInput) rnd)) (\<lambda>sig.
      Inr (signingInput @ ''.'' @ b64url_encode sig)))"

definition verifyJWS ::
  "email_env \<Rightarrow> jws_suite \<Rightarrow> string \<Rightarrow> bytes \<Rightarrow> (email_error, header \<times> bytes) result" where
  "verifyJWS E S compact pub =
     guard (length pub = js_pubLen S) (EPubLen (length pub))
     (case split_char (CHR ''.'') (trim_space compact) of
        [p0, p1, p2] \<Rightarrow>
          bind_result (of_option EHeaderText (b64url_decode p0)) (\<lambda>headerBytes.
          bind_result (of_option EHeaderJson (dec_header (en_json E) headerBytes)) (\<lambda>hdr.
          guard (hd_Alg hdr = js_alg S) (EJwsAlg (hd_Alg hdr))
          (bind_result (of_option ESigText (b64url_decode p2)) (\<lambda>sig.
          guard (length sig = js_sigLen S) (ESigLen (length sig))
          (guard (js_verify S pub (bytes_of (p0 @ ''.'' @ p1)) sig) EJwsRejected
          (bind_result (of_option EPayloadText (b64url_decode p1)) (\<lambda>payload.
          Inr (hdr, payload))))))))
      | _ \<Rightarrow> Inl ESegments)"

section \<open>Signers and verifiers\<close>

record email_signer =
  si_issuer :: string
  si_kid :: string
  si_pub :: bytes
  si_priv :: bytes

record email_verifier =
  ve_issuer :: string
  ve_kid :: string
  ve_pub :: bytes

definition key_id :: "email_env \<Rightarrow> string \<Rightarrow> bytes \<Rightarrow> string" where
  "key_id E pfx pub = pfx @ hex_encode (take 8 (en_sha256 E pub))"

definition NewSignerFromPrivateKey :: "email_env \<Rightarrow> string \<Rightarrow> bytes \<Rightarrow> (email_error, email_signer) result" where
  "NewSignerFromPrivateKey E iss priv =
     guard (iss \<noteq> []) EIssuer
     (guard (length priv = 64) (EPrivLen (length priv))
     (let pub = ed_public E priv in
      Inr \<lparr>si_issuer = iss, si_kid = key_id E ''ed25519-'' pub, si_pub = pub, si_priv = priv\<rparr>))"

text \<open>\<open>generated\<close> is the key \<^verbatim>\<open>ed25519.GenerateKey\<close> returns when no seed is given.\<close>

definition NewSigner :: "email_env \<Rightarrow> bytes option \<Rightarrow> string \<Rightarrow> bytes \<Rightarrow> (email_error, email_signer) result" where
  "NewSigner E generated iss seed =
     guard (iss \<noteq> []) EIssuer
     (bind_result
        (if seed = [] then of_option ERand generated
         else guard (length seed = 32) (ESeedLen (length seed)) (Inr (ed_newKeyFromSeed E seed)))
        (NewSignerFromPrivateKey E iss))"

definition NewPQSigner :: "email_env \<Rightarrow> bytes option \<Rightarrow> string \<Rightarrow> bytes \<Rightarrow> (email_error, email_signer) result" where
  "NewPQSigner E fresh iss seed0 =
     guard (iss \<noteq> []) EIssuer
     (bind_result (if seed0 = [] then of_option ERand fresh else Inr seed0) (\<lambda>seed.
      bind_result (of_option EKeyGenFail (ml_keyGen E seed)) (\<lambda>(pub, priv).
      Inr \<lparr>si_issuer = iss, si_kid = key_id E ''ml-dsa-44-'' pub, si_pub = pub, si_priv = priv\<rparr>)))"

definition signer_Verifier :: "email_signer \<Rightarrow> email_verifier" where
  "signer_Verifier s = \<lparr>ve_issuer = si_issuer s, ve_kid = si_kid s, ve_pub = si_pub s\<rparr>"

definition NewPQVerifier :: "string \<Rightarrow> bytes \<Rightarrow> string \<Rightarrow> (email_error, email_verifier) result" where
  "NewPQVerifier iss pub kid =
     guard (iss \<noteq> []) EIssuer
     (guard (length pub = 1312) (EPubLen (length pub))
     (Inr \<lparr>ve_issuer = iss, ve_kid = kid, ve_pub = pub\<rparr>))"

section \<open>Issuing and verifying\<close>

definition expiry :: "gotime \<Rightarrow> duration \<Rightarrow> int" where
  "expiry issuedAt ttl = (if ttl > 0 then unix (issuedAt + ttl) else 0)"

definition IssueEVT ::
  "email_env \<Rightarrow> email_signer \<Rightarrow> string \<Rightarrow> jwk \<Rightarrow> gotime \<Rightarrow> duration \<Rightarrow> (email_error, string) result" where
  "IssueEVT E s email holder issuedAt ttl =
     guard (email \<noteq> []) EEmail
     (guard (issuedAt \<noteq> zero_time) EIssuedAt
     (bind_result (Ed25519PublicKey holder) (\<lambda>_.
      let claims = \<lparr>ev_Iss = si_issuer s, ev_Iat = unix issuedAt, ev_Exp = expiry issuedAt ttl,
            ev_CNF = holder, ev_Email = email, ev_EmailVerified = True\<rparr> in
      bind_result (signJWS E (ed_suite E) \<lparr>hd_Alg = [], hd_Typ = TypEVT, hd_Kid = si_kid s\<rparr>
          (enc_evt (en_json E) claims) (si_priv s) None) (\<lambda>jws.
      Inr (jws @ ''~'')))))"

text \<open>The age is computed with Go's saturating \<^verbatim>\<open>Sub\<close>; negating the least duration overflows.\<close>

definition checkTime :: "int \<Rightarrow> int \<Rightarrow> gotime \<Rightarrow> duration \<Rightarrow> (email_error, unit) result" where
  "checkTime iat exp now maxAge =
     (if now = zero_time then Inr ()
      else guard (\<not> (exp > 0 \<and> unix now > exp)) EExpiredToken
        (if maxAge > 0 then
           (let age = time_sub now (time_unix iat);
                age' = (if age < 0 then wrap64 (- age) else age) in
            guard (\<not> age' > maxAge) EWindow (Inr ()))
         else Inr ()))"

definition strip_tilde :: "string \<Rightarrow> (email_error, string) result" where
  "strip_tilde tok = guard (has_suffix tok ''~'') ETilde (Inr (trim_suffix tok ''~''))"

definition check_header :: "string \<Rightarrow> email_verifier \<Rightarrow> header \<Rightarrow> (email_error, unit) result" where
  "check_header typ v hdr =
     guard (hd_Typ hdr = typ) (ETyp (hd_Typ hdr))
     (guard (\<not> (ve_kid v \<noteq> [] \<and> hd_Kid hdr \<noteq> ve_kid v)) EKid (Inr ()))"

definition VerifyEVT ::
  "email_env \<Rightarrow> email_verifier \<Rightarrow> string \<Rightarrow> gotime \<Rightarrow> duration \<Rightarrow> (email_error, evt_claims) result" where
  "VerifyEVT E v evt now maxAge =
     bind_result (strip_tilde (trim_space evt)) (\<lambda>compact.
     bind_result (verifyJWS E (ed_suite E) compact (ve_pub v)) (\<lambda>(hdr, payload).
     bind_result (check_header TypEVT v hdr) (\<lambda>_.
     bind_result (of_option EClaimsJson (dec_evt (en_json E) payload)) (\<lambda>claims.
     guard (ev_Iss claims = ve_issuer v) EIssMismatch
     (guard (ev_EmailVerified claims) EUnverified
     (guard (ev_Email claims \<noteq> []) EEmail
     (bind_result (Ed25519PublicKey (ev_CNF claims)) (\<lambda>_.
      bind_result (checkTime (ev_Iat claims) (ev_Exp claims) now maxAge) (\<lambda>_.
      Inr claims)))))))))"

definition checkPolicyBinding :: "policy_binding \<Rightarrow> (email_error, unit) result" where
  "checkPolicyBinding p =
     guard (trim_space (pb_TokenFamily p) \<noteq> []) EFamilyMissing
     (guard (pb_BindingB64 p \<noteq> []) EBindingMissing
     (guard (pb_BudgetKey p \<noteq> []) EBudgetKeyMissing (Inr ())))"

record policy_email_options =
  po_Email :: string
  po_HolderJWK :: jwk
  po_Policy :: policy_binding
  po_IssuedAt :: gotime
  po_TTL :: duration
  po_Rnd :: "bytes option"

text \<open>The two issuers differ in the holder keys they accept and in the signature.\<close>

definition issue_policy_email ::
  "email_env \<Rightarrow> jws_suite \<Rightarrow> (jwk \<Rightarrow> (email_error, unit) result) \<Rightarrow> email_signer \<Rightarrow> policy_email_options \<Rightarrow>
   (email_error, string) result" where
  "issue_policy_email E S holder_ok s opts =
     guard (po_Email opts \<noteq> []) EEmail
     (guard (po_IssuedAt opts \<noteq> zero_time) EIssuedAt
     (bind_result (holder_ok (po_HolderJWK opts)) (\<lambda>_.
      bind_result (checkPolicyBinding (po_Policy opts)) (\<lambda>_.
      let claims = \<lparr>pe_Iss = si_issuer s, pe_Iat = unix (po_IssuedAt opts),
            pe_Exp = expiry (po_IssuedAt opts) (po_TTL opts), pe_CNF = po_HolderJWK opts,
            pe_Email = po_Email opts, pe_EmailVerified = True, pe_Policy = po_Policy opts\<rparr> in
      bind_result (signJWS E S \<lparr>hd_Alg = [], hd_Typ = TypPolicyEmail, hd_Kid = si_kid s\<rparr>
          (enc_policy (en_json E) claims) (si_priv s) (po_Rnd opts)) (\<lambda>jws.
      Inr (jws @ ''~''))))))"

definition IssuePolicyEmail :: "email_env \<Rightarrow> email_signer \<Rightarrow> policy_email_options \<Rightarrow> (email_error, string) result" where
  "IssuePolicyEmail E = issue_policy_email E (ed_suite E) (\<lambda>j. bind_result (Ed25519PublicKey j) (\<lambda>_. Inr ()))"

definition pq_IssuePolicyEmail :: "email_env \<Rightarrow> email_signer \<Rightarrow> policy_email_options \<Rightarrow> (email_error, string) result" where
  "pq_IssuePolicyEmail E = issue_policy_email E (ml_suite E) (\<lambda>j. checkHolderJWK j True)"

definition checkPolicyEmailClaims ::
  "email_env \<Rightarrow> bytes \<Rightarrow> string \<Rightarrow> bool \<Rightarrow> gotime \<Rightarrow> duration \<Rightarrow> (email_error, policy_email_claims) result" where
  "checkPolicyEmailClaims E payload iss allowAKP now maxAge =
     bind_result (of_option EClaimsJson (dec_policy (en_json E) payload)) (\<lambda>claims.
     guard (pe_Iss claims = iss) EIssMismatch
     (guard (pe_EmailVerified claims) EUnverified
     (guard (pe_Email claims \<noteq> []) EEmail
     (bind_result (checkHolderJWK (pe_CNF claims) allowAKP) (\<lambda>_.
      guard (\<not> (pb_TokenFamily (pe_Policy claims) = [] \<or> pb_BindingB64 (pe_Policy claims) = []
               \<or> pb_BudgetKey (pe_Policy claims) = [])) EIncomplete
     (bind_result (checkTime (pe_Iat claims) (pe_Exp claims) now maxAge) (\<lambda>_.
      Inr claims)))))))"

definition verify_policy_email ::
  "email_env \<Rightarrow> jws_suite \<Rightarrow> bool \<Rightarrow> email_verifier \<Rightarrow> string \<Rightarrow> gotime \<Rightarrow> duration \<Rightarrow>
   (email_error, policy_email_claims) result" where
  "verify_policy_email E S allowAKP v token now maxAge =
     bind_result (strip_tilde (trim_space token)) (\<lambda>compact.
     bind_result (verifyJWS E S compact (ve_pub v)) (\<lambda>(hdr, payload).
     bind_result (check_header TypPolicyEmail v hdr) (\<lambda>_.
     checkPolicyEmailClaims E payload (ve_issuer v) allowAKP now maxAge)))"

definition VerifyPolicyEmail ::
  "email_env \<Rightarrow> email_verifier \<Rightarrow> string \<Rightarrow> gotime \<Rightarrow> duration \<Rightarrow> (email_error, policy_email_claims) result" where
  "VerifyPolicyEmail E = verify_policy_email E (ed_suite E) False"

definition pq_VerifyPolicyEmail ::
  "email_env \<Rightarrow> email_verifier \<Rightarrow> string \<Rightarrow> gotime \<Rightarrow> duration \<Rightarrow> (email_error, policy_email_claims) result" where
  "pq_VerifyPolicyEmail E = verify_policy_email E (ml_suite E) True"

section \<open>Presentations\<close>

definition SDHash :: "email_env \<Rightarrow> string \<Rightarrow> string" where
  "SDHash E evtWithTilde = b64url_encode (en_sha256 E (bytes_of evtWithTilde))"

definition sign_kb ::
  "email_env \<Rightarrow> jws_suite \<Rightarrow> bytes \<Rightarrow> string \<Rightarrow> string \<Rightarrow> bytes \<Rightarrow> gotime \<Rightarrow> bytes option \<Rightarrow> (email_error, string) result" where
  "sign_kb E S holder tok audience nonce issuedAt rnd =
     guard (audience \<noteq> []) EAudience
     (guard (issuedAt \<noteq> zero_time) EIssuedAt
     (guard (has_suffix tok ''~'') ETilde
     (let claims = \<lparr>kb_Aud = audience, kb_Nonce = b64url_encode nonce, kb_Iat = unix issuedAt,
            kb_SDHash = SDHash E tok\<rparr> in
      signJWS E S \<lparr>hd_Alg = [], hd_Typ = TypKBJWT, hd_Kid = []\<rparr> (enc_kb (en_json E) claims) holder rnd)))"

definition SignKBJWT :: "email_env \<Rightarrow> bytes \<Rightarrow> string \<Rightarrow> string \<Rightarrow> bytes \<Rightarrow> gotime \<Rightarrow> (email_error, string) result" where
  "SignKBJWT E holder tok audience nonce issuedAt = sign_kb E (ed_suite E) holder tok audience nonce issuedAt None"

definition SignKBJWTMLDSA44 ::
  "email_env \<Rightarrow> bytes \<Rightarrow> string \<Rightarrow> string \<Rightarrow> bytes \<Rightarrow> gotime \<Rightarrow> bytes option \<Rightarrow> (email_error, string) result" where
  "SignKBJWTMLDSA44 E = sign_kb E (ml_suite E)"

definition JoinPresentation :: "string \<Rightarrow> string \<Rightarrow> (email_error, string) result" where
  "JoinPresentation evtWithTilde kbJWT =
     guard (has_suffix evtWithTilde ''~'') ETilde
     (guard (trim_space kbJWT \<noteq> []) EKBRequired
     (Inr (evtWithTilde @ kbJWT)))"

definition splitPresentation :: "string \<Rightarrow> (email_error, string \<times> string) result" where
  "splitPresentation presentation0 =
     (let presentation = trim_space presentation0 in
      guard (CHR ''~'' \<in> set presentation) EPresentation
     (let kbJWT = rev (takeWhile (\<lambda>c. c \<noteq> CHR ''~'') (rev presentation));
          evtWithTilde = take (length presentation - length kbJWT) presentation in
      guard (count_char (trim_suffix evtWithTilde ''~'') (CHR ''.'') = 2) ETokenDots
     (guard (count_char kbJWT (CHR ''.'') = 2) EKBDots
     (Inr (evtWithTilde, kbJWT)))))"

record presentation_options =
  vo_Audience :: string
  vo_Nonce :: bytes
  vo_Now :: gotime
  vo_EVTMaxAge :: duration
  vo_KBMaxAge :: duration

definition checkKBClaims ::
  "email_env \<Rightarrow> header \<Rightarrow> bytes \<Rightarrow> string \<Rightarrow> presentation_options \<Rightarrow> (email_error, kb_claims) result" where
  "checkKBClaims E hdr payload tok opts =
     guard (hd_Typ hdr = TypKBJWT) (ETyp (hd_Typ hdr))
     (bind_result (of_option EClaimsJson (dec_kb (en_json E) payload)) (\<lambda>kb.
      guard (kb_Aud kb = vo_Audience opts) EAudMismatch
     (guard (kb_SDHash kb = SDHash E tok) ESDHash
     (bind_result (of_option ENonceText (b64url_decode (kb_Nonce kb))) (\<lambda>nonce.
      guard (length nonce = length (vo_Nonce opts)) (ENonceLen (length nonce))
     (guard (nonce = vo_Nonce opts) ENonce
     (bind_result (checkTime (kb_Iat kb) 0 (vo_Now opts) (vo_KBMaxAge opts)) (\<lambda>_.
      Inr kb))))))))"

definition verifyKBJWT ::
  "email_env \<Rightarrow> jws_suite \<Rightarrow> string \<Rightarrow> string \<Rightarrow> bytes \<Rightarrow> presentation_options \<Rightarrow> (email_error, kb_claims) result" where
  "verifyKBJWT E S kbJWT tok holderPub opts =
     bind_result (verifyJWS E S kbJWT holderPub) (\<lambda>(hdr, payload). checkKBClaims E hdr payload tok opts)"

definition verifyKBJWTJWK ::
  "email_env \<Rightarrow> string \<Rightarrow> string \<Rightarrow> jwk \<Rightarrow> presentation_options \<Rightarrow> (email_error, kb_claims) result" where
  "verifyKBJWTJWK E kbJWT tok holder opts =
     (if Kty holder = KtyAKP
      then bind_result (MLDSA44PublicKey holder) (\<lambda>pub. verifyKBJWT E (ml_suite E) kbJWT tok pub opts)
      else bind_result (Ed25519PublicKey holder) (\<lambda>pub. verifyKBJWT E (ed_suite E) kbJWT tok pub opts))"

definition VerifyPresentation ::
  "email_env \<Rightarrow> email_verifier \<Rightarrow> string \<Rightarrow> presentation_options \<Rightarrow> (email_error, evt_claims \<times> kb_claims) result" where
  "VerifyPresentation E v presentation opts =
     bind_result (splitPresentation presentation) (\<lambda>(evt, kb).
     bind_result (VerifyEVT E v evt (vo_Now opts) (vo_EVTMaxAge opts)) (\<lambda>claims.
     bind_result (Ed25519PublicKey (ev_CNF claims)) (\<lambda>holderPub.
     bind_result (verifyKBJWT E (ed_suite E) kb evt holderPub opts) (\<lambda>kbClaims.
     Inr (claims, kbClaims)))))"

definition VerifyPolicyEmailPresentation ::
  "email_env \<Rightarrow> email_verifier \<Rightarrow> string \<Rightarrow> presentation_options \<Rightarrow>
   (email_error, policy_email_claims \<times> kb_claims) result" where
  "VerifyPolicyEmailPresentation E v presentation opts =
     bind_result (splitPresentation presentation) (\<lambda>(token, kb).
     bind_result (VerifyPolicyEmail E v token (vo_Now opts) (vo_EVTMaxAge opts)) (\<lambda>claims.
     bind_result (Ed25519PublicKey (pe_CNF claims)) (\<lambda>holderPub.
     bind_result (verifyKBJWT E (ed_suite E) kb token holderPub opts) (\<lambda>kbClaims.
     Inr (claims, kbClaims)))))"

definition pq_VerifyPolicyEmailPresentation ::
  "email_env \<Rightarrow> email_verifier \<Rightarrow> string \<Rightarrow> presentation_options \<Rightarrow>
   (email_error, policy_email_claims \<times> kb_claims) result" where
  "pq_VerifyPolicyEmailPresentation E v presentation opts =
     bind_result (splitPresentation presentation) (\<lambda>(token, kb).
     bind_result (pq_VerifyPolicyEmail E v token (vo_Now opts) (vo_EVTMaxAge opts)) (\<lambda>claims.
     bind_result (verifyKBJWTJWK E kb token (pe_CNF claims) opts) (\<lambda>kbClaims.
     Inr (claims, kbClaims))))"

section \<open>Compact serialisation\<close>

lemma is_ok_iff: "is_ok r \<longleftrightarrow> (\<exists>a. r = Inr a)"
  by (cases r) auto

text \<open>A text of base64url characters and dots, with exactly two dots.\<close>

definition jws_text :: "string \<Rightarrow> bool" where
  "jws_text s \<longleftrightarrow> set s \<subseteq> insert (CHR ''.'') (set url_alphabet) \<and> count_char s (CHR ''.'') = 2"

lemma url_alphabet_facts:
  "CHR ''.'' \<notin> set url_alphabet" "CHR ''~'' \<notin> set url_alphabet" "\<forall>c \<in> set url_alphabet. is_graph c"
  by (simp_all add: url_alphabet_def is_graph_def)

lemma count_char_append [simp]: "count_char (s @ t) c = count_char s c + count_char t c"
  by (simp add: count_char_def)

lemma count_char_absent: "c \<notin> set s \<Longrightarrow> count_char s c = 0"
  by (auto simp: count_char_def filter_empty_conv)

lemma count_char_Cons [simp]: "count_char (d # s) c = (if d = c then 1 else 0) + count_char s c"
  by (simp add: count_char_def)

lemma count_char_Nil [simp]: "count_char [] c = 0"
  by (simp add: count_char_def)

lemma dot_not_in_url: "CHR ''.'' \<notin> set (b64url_encode b)"
  using b64url_encode_alphabet [of b] url_alphabet_facts(1) by blast

lemma jws_text_parts:
  "jws_text (b64url_encode a @ ''.'' @ b64url_encode b @ ''.'' @ b64url_encode c)"
  using b64url_encode_alphabet by (auto simp: jws_text_def count_char_absent dot_not_in_url)

lemma jws_text_facts:
  assumes "jws_text s"
  shows "list_all is_graph s" "CHR ''~'' \<notin> set s" "s \<noteq> []" "count_char s (CHR ''.'') = 2"
proof -
  show "list_all is_graph s"
    using assms url_alphabet_facts(3) by (auto simp: jws_text_def list_all_iff is_graph_def)
  show "CHR ''~'' \<notin> set s" using assms url_alphabet_facts(2) by (auto simp: jws_text_def)
  show "s \<noteq> []" "count_char s (CHR ''.'') = 2" using assms by (auto simp: jws_text_def count_char_def)
qed

lemma split_three:
  "split_char (CHR ''.'') (b64url_encode a @ ''.'' @ b64url_encode b @ ''.'' @ b64url_encode c) =
     [b64url_encode a, b64url_encode b, b64url_encode c]"
  using split_char_append [OF dot_not_in_url, of a] split_char_append [OF dot_not_in_url, of b]
    split_char_no_sep [OF dot_not_in_url, of c] by simp

text \<open>A key pair of a suite: signatures have the announced length and verify.\<close>

definition suite_keypair :: "jws_suite \<Rightarrow> bytes \<Rightarrow> bytes \<Rightarrow> bool" where
  "suite_keypair S pub priv \<longleftrightarrow> length pub = js_pubLen S \<and> length priv = js_privLen S \<and>
     (\<forall>m rnd sig. js_sign S priv m rnd = Some sig \<longrightarrow> length sig = js_sigLen S \<and> js_verify S pub m sig)"

lemma signJWS_text: "signJWS E S hdr payload priv rnd = Inr jws \<Longrightarrow> jws_text jws"
  using jws_text_parts by (auto simp: signJWS_def result_simps Let_def)

lemma verify_signJWS:
  assumes "signJWS E S hdr payload priv rnd = Inr jws" "suite_keypair S pub priv"
    and "dec_header (en_json E) (enc_header (en_json E) (hdr\<lparr>hd_Alg := js_alg S\<rparr>)) = Some (hdr\<lparr>hd_Alg := js_alg S\<rparr>)"
  shows "verifyJWS E S jws pub = Inr (hdr\<lparr>hd_Alg := js_alg S\<rparr>, payload)"
proof -
  let ?h = "b64url_encode (enc_header (en_json E) (hdr\<lparr>hd_Alg := js_alg S\<rparr>))"
  from assms(1) obtain sig where
    sig: "js_sign S priv (bytes_of (?h @ ''.'' @ b64url_encode payload)) rnd = Some sig"
    and jws: "jws = ?h @ ''.'' @ b64url_encode payload @ ''.'' @ b64url_encode sig"
    by (auto simp: signJWS_def result_simps Let_def)
  have "trim_space jws = jws"
    using jws_text_facts(1) [OF signJWS_text [OF assms(1)]] by (rule trim_space_graph)
  then have "split_char (CHR ''.'') (trim_space jws) = [?h, b64url_encode payload, b64url_encode sig]"
    unfolding jws by (simp only: split_three)
  then show ?thesis
    using assms(2,3) sig by (simp add: verifyJWS_def suite_keypair_def)
qed

lemma takeWhile_until: "c \<notin> set k \<Longrightarrow> takeWhile (\<lambda>x. x \<noteq> c) (k @ c # r) = k"
  by (induction k) auto

lemma splitPresentation_join:
  assumes "jws_text t" "jws_text k"
  shows "splitPresentation ((t @ ''~'') @ k) = Inr (t @ ''~'', k)"
proof -
  note t = jws_text_facts [OF assms(1)] and k = jws_text_facts [OF assms(2)]
  have "trim_space ((t @ ''~'') @ k) = (t @ ''~'') @ k"
    using t(1) k(1) by (intro trim_space_graph) (simp add: is_graph_def)
  moreover have "takeWhile (\<lambda>c. c \<noteq> CHR ''~'') (rev k @ CHR ''~'' # rev t) = rev k"
    using takeWhile_until [of "CHR ''~''" "rev k" "rev t"] k(2) by simp
  ultimately show ?thesis
    using t(4) k(4) by (simp add: splitPresentation_def Let_def trim_suffix_append [of t "''~''", simplified])
qed

lemma strip_tilde_token: "jws_text t \<Longrightarrow> strip_tilde (trim_space (t @ ''~'')) = Inr t"
proof -
  assume "jws_text t"
  then have "trim_space (t @ ''~'') = t @ ''~''"
    using jws_text_facts(1) by (intro trim_space_graph) (simp add: is_graph_def)
  then show ?thesis by (simp add: strip_tilde_def)
qed

section \<open>Round trips\<close>

text \<open>Go's JSON codec reproduces structs whose strings are ASCII.\<close>

definition ascii :: "string \<Rightarrow> bool" where "ascii s \<longleftrightarrow> list_all is_ascii s"

definition ascii_jwk :: "jwk \<Rightarrow> bool" where
  "ascii_jwk j \<longleftrightarrow> ascii (Kty j) \<and> ascii (Crv j) \<and> ascii (jwk_X j) \<and> ascii (jwk_Pub j) \<and> ascii (jwk_Kid j)
     \<and> ascii (jwk_Alg j) \<and> ascii (jwk_Use j)"

definition ascii_header :: "header \<Rightarrow> bool" where
  "ascii_header h \<longleftrightarrow> ascii (hd_Alg h) \<and> ascii (hd_Typ h) \<and> ascii (hd_Kid h)"

definition ascii_evt :: "evt_claims \<Rightarrow> bool" where
  "ascii_evt c \<longleftrightarrow> ascii (ev_Iss c) \<and> is_int64 (ev_Iat c) \<and> is_int64 (ev_Exp c) \<and> ascii_jwk (ev_CNF c)
     \<and> ascii (ev_Email c)"

definition ascii_binding :: "policy_binding \<Rightarrow> bool" where
  "ascii_binding p \<longleftrightarrow> ascii (pb_TokenFamily p) \<and> ascii (pb_BindingB64 p) \<and> ascii (pb_BudgetKey p)
     \<and> ascii (pb_Origin p) \<and> is_int64 (pb_AuthorizationExpiresAt p) \<and> ascii (pb_AuthorizationDecisionID p)"

definition ascii_policy :: "policy_email_claims \<Rightarrow> bool" where
  "ascii_policy c \<longleftrightarrow> ascii (pe_Iss c) \<and> is_int64 (pe_Iat c) \<and> is_int64 (pe_Exp c) \<and> ascii_jwk (pe_CNF c) \<and> ascii (pe_Email c) \<and> ascii_binding (pe_Policy c)"

definition ascii_kb :: "kb_claims \<Rightarrow> bool" where
  "ascii_kb k \<longleftrightarrow> ascii (kb_Aud k) \<and> ascii (kb_Nonce k) \<and> is_int64 (kb_Iat k) \<and> ascii (kb_SDHash k)"

text \<open>A clock reading of the present era, such that neither it nor an expiry leaves int64.\<close>

definition sane_time :: "gotime \<Rightarrow> bool" where
  "sane_time t \<longleftrightarrow> \<bar>t\<bar> < 2 ^ 90"

lemma sane_time_int64:
  "sane_time t \<Longrightarrow> is_int64 (unix t)" "sane_time t \<Longrightarrow> is_int64 d \<Longrightarrow> is_int64 (expiry t d)"
  by (auto simp: sane_time_def expiry_def is_int64_def [of d] is_int64_def [of 0] intro!: is_int64_unix)

definition json_faithful :: "json \<Rightarrow> bool" where
  "json_faithful J \<longleftrightarrow>
     (\<forall>h. ascii_header h \<longrightarrow> dec_header J (enc_header J h) = Some h) \<and>
     (\<forall>c. ascii_evt c \<longrightarrow> dec_evt J (enc_evt J c) = Some c) \<and>
     (\<forall>c. ascii_policy c \<longrightarrow> dec_policy J (enc_policy J c) = Some c) \<and>
     (\<forall>k. ascii_kb k \<longrightarrow> dec_kb J (enc_kb J k) = Some k)"

lemma ascii_b64url [simp]: "ascii (b64url_encode b)"
  using b64url_encode_graph [of b] by (auto simp: ascii_def list_all_iff is_graph_def is_ascii_def)

lemma ascii_consts [simp]:
  "ascii AlgEdDSA" "ascii AlgMLDSA44" "ascii TypEVT" "ascii TypKBJWT" "ascii TypPolicyEmail" "ascii []"
  by (simp_all add: ascii_def email_consts is_ascii_def)

lemma suite_algs [simp]:
  "js_alg (ed_suite E) = AlgEdDSA" "js_alg (ml_suite E) = AlgMLDSA44"
  by (simp_all add: ed_suite_def ml_suite_def)

lemma ascii_js_alg: "S = ed_suite E \<or> S = ml_suite E \<Longrightarrow> ascii (js_alg S)"
  by auto

text \<open>The key-binding half, shared by the three token kinds.\<close>

lemma kb_roundtrip:
  assumes "json_faithful (en_json E)" "S = ed_suite E \<or> S = ml_suite E" "suite_keypair S hpub hpriv"
    and "sign_kb E S hpriv tok aud nonce t rnd = Inr kb"
    and "ascii aud" "sane_time t" "vo_Audience opts = aud" "vo_Nonce opts = nonce"
    and "checkTime (unix t) 0 (vo_Now opts) (vo_KBMaxAge opts) = Inr ()"
  shows "jws_text kb \<and> verifyKBJWT E S kb tok hpub opts =
    Inr \<lparr>kb_Aud = aud, kb_Nonce = b64url_encode nonce, kb_Iat = unix t, kb_SDHash = SDHash E tok\<rparr>"
proof -
  let ?c = "\<lparr>kb_Aud = aud, kb_Nonce = b64url_encode nonce, kb_Iat = unix t, kb_SDHash = SDHash E tok\<rparr>"
  let ?h = "\<lparr>hd_Alg = [], hd_Typ = TypKBJWT, hd_Kid = []\<rparr>"
  from assms(4) have sign: "signJWS E S ?h (enc_kb (en_json E) ?c) hpriv rnd = Inr kb"
    by (simp add: sign_kb_def guard_Inr_iff Let_def)
  have "verifyJWS E S kb hpub = Inr (?h\<lparr>hd_Alg := js_alg S\<rparr>, enc_kb (en_json E) ?c)"
    using assms(1) ascii_js_alg [OF assms(2)]
    by (intro verify_signJWS [OF sign assms(3)]) (simp add: json_faithful_def ascii_header_def)
  moreover have "dec_kb (en_json E) (enc_kb (en_json E) ?c) = Some ?c"
    using assms(1,5,6) by (simp add: json_faithful_def ascii_kb_def SDHash_def sane_time_int64)
  ultimately show ?thesis
    using assms(7-9) signJWS_text [OF sign] by (simp add: verifyKBJWT_def checkKBClaims_def)
qed

lemma JoinPresentation_Inr:
  "JoinPresentation (t @ ''~'') kb = Inr pres \<Longrightarrow> pres = (t @ ''~'') @ kb"
  by (auto simp: JoinPresentation_def guard_Inr_iff)

text \<open>
  An email verification token works end to end. If the issuer issues a token for an address and
  a holder key, the holder signs a key-binding JWT for an audience and nonce, and the two are joined,
  then a verifier with the issuer's public key accepts the presentation for that audience and nonce
  while both are within their time windows, and reads back the address, the holder key and the
  issuer. (ASCII strings; the signature scheme and the JSON codec are correct.)
\<close>

lemma evt_presentation_roundtrip:
  assumes "json_faithful (en_json E)" and "suite_keypair (ed_suite E) (si_pub s) (si_priv s)"
    and "suite_keypair (ed_suite E) hpub hpriv" and "Ed25519PublicKey holder = Inr hpub"
    and "IssueEVT E s email holder issuedAt ttl = Inr evt"
    and "SignKBJWT E hpriv evt aud nonce t = Inr kb" and "JoinPresentation evt kb = Inr pres"
    and "ascii (si_issuer s)" and "ascii (si_kid s)" and "ascii email" and "ascii_jwk holder" and "ascii aud"
    and "sane_time issuedAt" and "is_int64 ttl" and "sane_time t" and "vo_Audience opts = aud" and "vo_Nonce opts = nonce"
    and "checkTime (unix issuedAt) (expiry issuedAt ttl) (vo_Now opts) (vo_EVTMaxAge opts) = Inr ()"
    and "checkTime (unix t) 0 (vo_Now opts) (vo_KBMaxAge opts) = Inr ()"
  shows "VerifyPresentation E (signer_Verifier s) pres opts =
    Inr (\<lparr>ev_Iss = si_issuer s, ev_Iat = unix issuedAt, ev_Exp = expiry issuedAt ttl, ev_CNF = holder,
          ev_Email = email, ev_EmailVerified = True\<rparr>,
         \<lparr>kb_Aud = aud, kb_Nonce = b64url_encode nonce, kb_Iat = unix t, kb_SDHash = SDHash E evt\<rparr>)"
proof -
  let ?c = "\<lparr>ev_Iss = si_issuer s, ev_Iat = unix issuedAt, ev_Exp = expiry issuedAt ttl, ev_CNF = holder,
          ev_Email = email, ev_EmailVerified = True\<rparr>"
  let ?h = "\<lparr>hd_Alg = [], hd_Typ = TypEVT, hd_Kid = si_kid s\<rparr>"
  from assms(5) obtain jws where sign: "signJWS E (ed_suite E) ?h (enc_evt (en_json E) ?c) (si_priv s) None = Inr jws"
    and evt: "evt = jws @ ''~''" and email: "email \<noteq> []"
    by (auto simp: IssueEVT_def result_simps Let_def)
  note jws = signJWS_text [OF sign]
  have ver: "verifyJWS E (ed_suite E) jws (si_pub s) = Inr (?h\<lparr>hd_Alg := AlgEdDSA\<rparr>, enc_evt (en_json E) ?c)"
    using verify_signJWS [OF sign assms(2)] assms(1,9) by (simp add: json_faithful_def ascii_header_def)
  have dec: "dec_evt (en_json E) (enc_evt (en_json E) ?c) = Some ?c"
    using assms(1,8,10,11,13,14) by (simp add: json_faithful_def ascii_evt_def sane_time_int64)
  have "VerifyEVT E (signer_Verifier s) evt (vo_Now opts) (vo_EVTMaxAge opts) = Inr ?c"
    unfolding VerifyEVT_def evt strip_tilde_token [OF jws]
    using ver dec email assms(4,18) by (simp add: signer_Verifier_def check_header_def)
  moreover have "jws_text kb \<and> verifyKBJWT E (ed_suite E) kb evt hpub opts =
      Inr \<lparr>kb_Aud = aud, kb_Nonce = b64url_encode nonce, kb_Iat = unix t, kb_SDHash = SDHash E evt\<rparr>"
    using assms(6) unfolding SignKBJWT_def
    by (intro kb_roundtrip [OF assms(1) _ assms(3) _ assms(12,15-17,19)]) simp_all
  moreover have "pres = (jws @ ''~'') @ kb" using assms(7) JoinPresentation_Inr unfolding evt by blast
  ultimately show ?thesis
    using splitPresentation_join [OF jws, of kb] assms(4) unfolding VerifyPresentation_def
    by (simp add: evt)
qed

text \<open>Both policy-email rails at once: the suite decides which keys the holder may have.\<close>

lemma policy_token_roundtrip:
  assumes "json_faithful (en_json E)" "S = ed_suite E \<or> S = ml_suite E" "suite_keypair S (si_pub s) (si_priv s)"
    and "issue_policy_email E S holder_ok s iopts = Inr tok" "checkHolderJWK (po_HolderJWK iopts) akp = Inr ()"
    and "ascii (si_issuer s)" "ascii (si_kid s)" "ascii (po_Email iopts)" "ascii_jwk (po_HolderJWK iopts)"
      "ascii_binding (po_Policy iopts)" "sane_time (po_IssuedAt iopts)" "is_int64 (po_TTL iopts)"
    and "checkTime (unix (po_IssuedAt iopts)) (expiry (po_IssuedAt iopts) (po_TTL iopts)) now maxAge = Inr ()"
  shows "\<exists>jws. jws_text jws \<and> tok = jws @ ''~'' \<and>
    verify_policy_email E S akp (signer_Verifier s) tok now maxAge =
     Inr \<lparr>pe_Iss = si_issuer s, pe_Iat = unix (po_IssuedAt iopts), pe_Exp = expiry (po_IssuedAt iopts) (po_TTL iopts),
          pe_CNF = po_HolderJWK iopts, pe_Email = po_Email iopts, pe_EmailVerified = True, pe_Policy = po_Policy iopts\<rparr>"
proof -
  let ?c = "\<lparr>pe_Iss = si_issuer s, pe_Iat = unix (po_IssuedAt iopts), pe_Exp = expiry (po_IssuedAt iopts) (po_TTL iopts),
          pe_CNF = po_HolderJWK iopts, pe_Email = po_Email iopts, pe_EmailVerified = True, pe_Policy = po_Policy iopts\<rparr>"
  let ?h = "\<lparr>hd_Alg = [], hd_Typ = TypPolicyEmail, hd_Kid = si_kid s\<rparr>"
  from assms(4) obtain jws where
    sign: "signJWS E S ?h (enc_policy (en_json E) ?c) (si_priv s) (po_Rnd iopts) = Inr jws"
    and tok: "tok = jws @ ''~''" and ok: "po_Email iopts \<noteq> []" "checkPolicyBinding (po_Policy iopts) = Inr ()"
    by (auto simp: issue_policy_email_def result_simps Let_def)
  note jws = signJWS_text [OF sign]
  have ver: "verifyJWS E S jws (si_pub s) = Inr (?h\<lparr>hd_Alg := js_alg S\<rparr>, enc_policy (en_json E) ?c)"
    using verify_signJWS [OF sign assms(3)] assms(1,7) ascii_js_alg [OF assms(2)]
    by (simp add: json_faithful_def ascii_header_def)
  have dec: "dec_policy (en_json E) (enc_policy (en_json E) ?c) = Some ?c"
    using assms(1,6,8-12) by (simp add: json_faithful_def ascii_policy_def sane_time_int64)
  have "pb_TokenFamily (po_Policy iopts) \<noteq> [] \<and> pb_BindingB64 (po_Policy iopts) \<noteq> [] \<and> pb_BudgetKey (po_Policy iopts) \<noteq> []"
    using ok(2) trim_space_graph [of "[]"] by (auto simp: checkPolicyBinding_def guard_Inr_iff)
  then have "verify_policy_email E S akp (signer_Verifier s) tok now maxAge = Inr ?c"
    unfolding verify_policy_email_def tok strip_tilde_token [OF jws]
    using ver dec ok(1) assms(5,13)
    by (simp add: signer_Verifier_def check_header_def checkPolicyEmailClaims_def)
  then show ?thesis using jws tok by blast
qed

text \<open>The suite of a holder key, by its JWK type.\<close>

definition holder_suite :: "email_env \<Rightarrow> jwk \<Rightarrow> jws_suite" where
  "holder_suite E j = (if Kty j = KtyAKP then ml_suite E else ed_suite E)"

definition holder_key :: "jwk \<Rightarrow> (email_error, bytes) result" where
  "holder_key j = (if Kty j = KtyAKP then MLDSA44PublicKey j else Ed25519PublicKey j)"

lemma verifyKBJWTJWK_holder:
  "holder_key j = Inr pub \<Longrightarrow> verifyKBJWTJWK E kb tok j opts = verifyKBJWT E (holder_suite E j) kb tok pub opts"
  by (auto simp: verifyKBJWTJWK_def holder_key_def holder_suite_def split: if_splits)

lemma checkHolderJWK_key: "holder_key j = Inr pub \<Longrightarrow> checkHolderJWK j True = Inr ()"
  by (auto simp: checkHolderJWK_def holder_key_def split: if_splits)

text \<open>
  C33: The post-quantum policy email works end to end, with either kind of holder key. A token issued
  under the ML-DSA-44 profile and presented with a key-binding JWT of the holder's own algorithm is
  accepted by a verifier pinned to the issuer's key, for its audience and nonce and within the time
  windows; the verifier reads back the address and the whole policy binding of the authorization.
\<close>

theorem pq_policy_email_roundtrip:
  assumes "json_faithful (en_json E)" and "suite_keypair (ml_suite E) (si_pub s) (si_priv s)"
    and "holder_key (po_HolderJWK iopts) = Inr hpub"
    and "suite_keypair (holder_suite E (po_HolderJWK iopts)) hpub hpriv"
    and "pq_IssuePolicyEmail E s iopts = Inr tok"
    and "sign_kb E (holder_suite E (po_HolderJWK iopts)) hpriv tok aud nonce t rnd = Inr kb"
    and "JoinPresentation tok kb = Inr pres"
    and "ascii (si_issuer s)" and "ascii (si_kid s)" and "ascii (po_Email iopts)"
    and "ascii_jwk (po_HolderJWK iopts)" and "ascii_binding (po_Policy iopts)" and "ascii aud"
    and "sane_time (po_IssuedAt iopts)" and "is_int64 (po_TTL iopts)" and "sane_time t"
    and "vo_Audience opts = aud" and "vo_Nonce opts = nonce"
    and "checkTime (unix (po_IssuedAt iopts)) (expiry (po_IssuedAt iopts) (po_TTL iopts)) (vo_Now opts)
           (vo_EVTMaxAge opts) = Inr ()"
    and "checkTime (unix t) 0 (vo_Now opts) (vo_KBMaxAge opts) = Inr ()"
  shows "\<exists>claims kbc. pq_VerifyPolicyEmailPresentation E (signer_Verifier s) pres opts = Inr (claims, kbc)
    \<and> pe_Email claims = po_Email iopts \<and> pe_EmailVerified claims \<and> pe_Policy claims = po_Policy iopts
    \<and> pe_CNF claims = po_HolderJWK iopts \<and> kb_Aud kbc = aud \<and> kb_SDHash kbc = SDHash E tok"
proof -
  obtain jws where jws: "jws_text jws" and tok: "tok = jws @ ''~''"
    and ver: "pq_VerifyPolicyEmail E (signer_Verifier s) tok (vo_Now opts) (vo_EVTMaxAge opts) =
      Inr \<lparr>pe_Iss = si_issuer s, pe_Iat = unix (po_IssuedAt iopts), pe_Exp = expiry (po_IssuedAt iopts) (po_TTL iopts),
          pe_CNF = po_HolderJWK iopts, pe_Email = po_Email iopts, pe_EmailVerified = True, pe_Policy = po_Policy iopts\<rparr>"
    using policy_token_roundtrip [OF assms(1) _ assms(2) assms(5) [unfolded pq_IssuePolicyEmail_def]
        checkHolderJWK_key [OF assms(3)] assms(8-12,14,15,19)]
    unfolding pq_VerifyPolicyEmail_def by blast
  have "holder_suite E (po_HolderJWK iopts) = ed_suite E \<or> holder_suite E (po_HolderJWK iopts) = ml_suite E"
    by (simp add: holder_suite_def)
  from kb_roundtrip [OF assms(1) this assms(4,6,13,16-18,20)]
  have kb: "jws_text kb" "verifyKBJWTJWK E kb tok (po_HolderJWK iopts) opts =
      Inr \<lparr>kb_Aud = aud, kb_Nonce = b64url_encode nonce, kb_Iat = unix t, kb_SDHash = SDHash E tok\<rparr>"
    using verifyKBJWTJWK_holder [OF assms(3)] by simp_all
  have "pres = (jws @ ''~'') @ kb" using assms(7) JoinPresentation_Inr unfolding tok by blast
  then have "splitPresentation pres = Inr (tok, kb)" using splitPresentation_join [OF jws kb(1)] tok by simp
  then show ?thesis using ver kb(2) by (simp add: pq_VerifyPolicyEmailPresentation_def)
qed

section \<open>What an accepted presentation proves\<close>

lemma verifyJWS_Inr_iff:
  "verifyJWS E S compact pub = Inr (hdr, payload) \<longleftrightarrow>
     (\<exists>p0 p1 p2 hb sig. length pub = js_pubLen S \<and> split_char (CHR ''.'') (trim_space compact) = [p0, p1, p2]
        \<and> b64url_decode p0 = Some hb \<and> dec_header (en_json E) hb = Some hdr \<and> hd_Alg hdr = js_alg S
        \<and> b64url_decode p2 = Some sig \<and> length sig = js_sigLen S
        \<and> js_verify S pub (bytes_of (p0 @ ''.'' @ p1)) sig \<and> b64url_decode p1 = Some payload)"
  unfolding verifyJWS_def guard_Inr_iff
  by (auto simp: result_simps split: list.splits)

text \<open>The header of a compact JWS, and so its algorithm and type, is determined by its text.\<close>

lemma verifyJWS_header:
  "verifyJWS E S c pub = Inr (h, p) \<Longrightarrow> verifyJWS E S' c pub' = Inr (h', p') \<Longrightarrow>
   h' = h \<and> js_alg S = hd_Alg h \<and> js_alg S' = hd_Alg h"
  unfolding verifyJWS_Inr_iff by force

lemma strip_tilde_Inr: "strip_tilde t = Inr x \<longleftrightarrow> t = x @ ''~''"
  by (auto simp: strip_tilde_def guard_Inr_iff has_suffix_def suffix_def trim_suffix_def)

lemma VerifyEVT_Inr:
  "VerifyEVT E v tok now maxAge = Inr c \<longleftrightarrow>
     (\<exists>x hdr payload. trim_space tok = x @ ''~'' \<and> verifyJWS E (ed_suite E) x (ve_pub v) = Inr (hdr, payload)
      \<and> hd_Typ hdr = TypEVT \<and> (ve_kid v = [] \<or> hd_Kid hdr = ve_kid v) \<and> dec_evt (en_json E) payload = Some c
      \<and> ev_Iss c = ve_issuer v \<and> ev_EmailVerified c \<and> ev_Email c \<noteq> [] \<and> is_ok (Ed25519PublicKey (ev_CNF c))
      \<and> checkTime (ev_Iat c) (ev_Exp c) now maxAge = Inr ())"
  unfolding VerifyEVT_def check_header_def bind_result_Inr_iff guard_Inr_iff of_option_Inr_iff strip_tilde_Inr
    split_paired_Ex prod.case is_ok_iff
  by auto


lemma verify_policy_email_Inr:
  assumes "verify_policy_email E S akp v tok now maxAge = Inr c"
  obtains x hdr payload where "trim_space tok = x @ ''~''"
    "verifyJWS E S x (ve_pub v) = Inr (hdr, payload)" "hd_Typ hdr = TypPolicyEmail"
proof -
  from assms have "has_suffix (trim_space tok) ''~''"
    by (auto simp: verify_policy_email_def strip_tilde_def result_simps)
  then obtain x where x: "trim_space tok = x @ ''~''" by (auto simp: has_suffix_def suffix_def)
  then have "strip_tilde (trim_space tok) = Inr x"
    by (simp add: strip_tilde_def trim_suffix_append [of x "''~''", simplified])
  with assms x that show ?thesis
    by (auto simp: verify_policy_email_def check_header_def result_simps)
qed

text \<open>
  C34: Token kinds do not mix. No string is accepted both as an email verification token and as a
  policy email token, and no string is accepted both by the Ed25519 and by the ML-DSA-44 profile,
  whatever keys, issuers and times the verifiers have.
\<close>

theorem token_kinds_disjoint:
  "\<not> (is_ok (VerifyEVT E v tok now age) \<and> is_ok (VerifyPolicyEmail E v' tok now' age'))
   \<and> \<not> (is_ok (VerifyEVT E v tok now age) \<and> is_ok (pq_VerifyPolicyEmail E v'' tok now'' age''))
   \<and> \<not> (is_ok (VerifyPolicyEmail E v' tok now' age') \<and> is_ok (pq_VerifyPolicyEmail E v'' tok now'' age''))"
proof -
  have kinds: "TypEVT \<noteq> TypPolicyEmail" "AlgEdDSA \<noteq> AlgMLDSA44" by (simp_all add: email_consts)
  have evt: "False" if e: "VerifyEVT E v tok now age = Inr c"
    and p: "verify_policy_email E S akp w tok now' age' = Inr c'" for S akp w now' age' c c'
  proof -
    obtain x h p1 where 1: "trim_space tok = x @ ''~''" "verifyJWS E (ed_suite E) x (ve_pub v) = Inr (h, p1)"
      "hd_Typ h = TypEVT" using e VerifyEVT_Inr by metis
    obtain y k p2 where 2: "trim_space tok = y @ ''~''" "verifyJWS E S y (ve_pub w) = Inr (k, p2)"
      "hd_Typ k = TypPolicyEmail" using verify_policy_email_Inr [OF p] by metis
    show False using 1 2 verifyJWS_header [of E "ed_suite E" x "ve_pub v" h p1 S "ve_pub w" k p2] kinds by simp
  qed
  have pol: "False" if p: "verify_policy_email E (ed_suite E) akp w tok now' age' = Inr c"
    and q: "verify_policy_email E (ml_suite E) akq w' tok now'' age'' = Inr c'" for akp akq w w' c c'
  proof -
    obtain x h p1 where 1: "trim_space tok = x @ ''~''" "verifyJWS E (ed_suite E) x (ve_pub w) = Inr (h, p1)"
      using verify_policy_email_Inr [OF p] by metis
    obtain y k p2 where 2: "trim_space tok = y @ ''~''" "verifyJWS E (ml_suite E) y (ve_pub w') = Inr (k, p2)"
      using verify_policy_email_Inr [OF q] by metis
    show False
      using 1 2 verifyJWS_header [of E "ed_suite E" x "ve_pub w" h p1 "ml_suite E" "ve_pub w'" k p2] kinds by force
  qed
  show ?thesis using evt pol unfolding VerifyPolicyEmail_def pq_VerifyPolicyEmail_def is_ok_iff by blast
qed

section \<open>The time check\<close>

text \<open>
  C35: What the time check accepts. With a clock and an issue time less than 292 years apart, a token
  passes if and only if it has not expired (when it has an expiry) and its issue time is within the
  maximum age of the clock, in either direction (when a maximum is set).
\<close>

theorem checkTime_exact:
  assumes "now \<noteq> zero_time" and "\<bar>iat\<bar> < 2 ^ 62" and "\<bar>now - iat * second\<bar> < 2 ^ 63"
  shows "checkTime iat exp now maxAge = Inr () \<longleftrightarrow>
    (exp \<le> 0 \<or> unix now \<le> exp) \<and> (maxAge \<le> 0 \<or> \<bar>now - iat * second\<bar> \<le> maxAge)"
proof -
  have sub: "time_sub now (time_unix iat) = now - iat * second"
    using assms(2,3) by (simp add: time_sub_def time_unix_small abs_less_iff)
  have neg: "wrap64 (- (now - iat * second)) = - (now - iat * second)"
    using assms(3) by (intro wrap64_id) (simp add: is_int64_def abs_less_iff)
  show ?thesis using assms(1) unfolding checkTime_def Let_def sub neg
    by (auto simp: guard_def not_less abs_if split: if_splits)
qed

theorem checkTime_exact_witness:
  "checkTime 100 0 (102 * second) second \<noteq> Inr () \<and> checkTime 100 0 (101 * second) second = Inr ()"
  using checkTime_exact [of "102 * second" 100 0 second] checkTime_exact [of "101 * second" 100 0 second]
  by (simp add: second_def zero_time_def unix_to_internal_def)

text \<open>
  The age check fails open on far-future issue times. A token that has no expiry and whose issue
  time lies at least 2 to the 63 nanoseconds (292 years) after the clock passes every positive
  maximum age: the saturated difference is the least duration, its negation wraps to itself, and a
  negative age is below the maximum.
\<close>

lemma checkTime_far_future:
  assumes "\<bar>iat\<bar> < 2 ^ 62" and "2 ^ 63 \<le> iat * second - now" and "0 < maxAge"
  shows "checkTime iat 0 now maxAge = Inr ()"
proof -
  have "time_sub now (time_unix iat) = - (2 ^ 63)"
    using assms(1,2) by (simp add: time_sub_def time_unix_small)
  moreover have "wrap64 (2 ^ 63) = - (2 ^ 63)" by (simp add: wrap64_def)
  ultimately show ?thesis using assms(3) by (simp add: checkTime_def)
qed

section \<open>A concrete environment\<close>

text \<open>A codec for lists of strings (hexadecimal fields ended by spaces) in place of JSON.\<close>

definition pack :: "string list \<Rightarrow> bytes" where
  "pack ss = bytes_of (concat (map (\<lambda>s. hex_encode (bytes_of s) @ '' '') ss))"

definition unpack :: "bytes \<Rightarrow> string list option" where
  "unpack b = map_option (map string_of) (those (map hex_decode (butlast (split_char (CHR '' '') (string_of b)))))"

lemma space_not_hex: "CHR '' '' \<notin> set (hex_encode b)"
  by (rule hex.enc_no_char) (simp add: is_graph_def)

lemma unpack_pack: "unpack (pack ss) = Some ss"
proof -
  have "butlast (split_char (CHR '' '') (concat (map (\<lambda>s. hex_encode (bytes_of s) @ '' '') ss))) =
      map (\<lambda>s. hex_encode (bytes_of s)) ss"
    by (induction ss) (simp_all add: split_char_append [OF space_not_hex])
  moreover have "those (map (\<lambda>s. Some (bytes_of s)) ss) = Some (map bytes_of ss)"
    by (induction ss) simp_all
  ultimately show ?thesis by (simp add: unpack_def pack_def comp_def)
qed

definition int_text :: "int \<Rightarrow> string" where
  "int_text i = string_of (be_bytes 8 (word_of_int i :: u64))"

definition text_int :: "string \<Rightarrow> int" where
  "text_int s = sint (be_word (bytes_of s) :: u64)"

lemma text_int_text: "is_int64 i \<Longrightarrow> text_int (int_text i) = i"
  by (simp add: text_int_def int_text_def is_int64_def sint_sbintrunc' signed_take_bit_int_eq_self)

definition jwk_fields :: "jwk \<Rightarrow> string list" where
  "jwk_fields j = [Kty j, Crv j, jwk_X j, jwk_Pub j, jwk_Kid j, jwk_Alg j, jwk_Use j]"

fun jwk_of :: "string list \<Rightarrow> jwk" where
  "jwk_of [a, b, c, d, e, f, g] =
     \<lparr>Kty = a, Crv = b, jwk_X = c, jwk_Pub = d, jwk_Kid = e, jwk_Alg = f, jwk_Use = g\<rparr>"
| "jwk_of _ = \<lparr>Kty = [], Crv = [], jwk_X = [], jwk_Pub = [], jwk_Kid = [], jwk_Alg = [], jwk_Use = []\<rparr>"

definition bool_text :: "bool \<Rightarrow> string" where
  "bool_text b = (if b then ''t'' else [])"

fun header_of :: "string list \<Rightarrow> header option" where
  "header_of [a, t, k] = Some \<lparr>hd_Alg = a, hd_Typ = t, hd_Kid = k\<rparr>"
| "header_of _ = None"

fun evt_of :: "string list \<Rightarrow> evt_claims option" where
  "evt_of (i # a # e # m # v # j) = Some \<lparr>ev_Iss = i, ev_Iat = text_int a, ev_Exp = text_int e, ev_CNF = jwk_of j,
     ev_Email = m, ev_EmailVerified = (v \<noteq> [])\<rparr>"
| "evt_of _ = None"

fun policy_of :: "string list \<Rightarrow> policy_email_claims option" where
  "policy_of (i # a # e # m # v # f # b # k # og # x # d # j) = Some \<lparr>pe_Iss = i, pe_Iat = text_int a,
     pe_Exp = text_int e, pe_CNF = jwk_of j, pe_Email = m, pe_EmailVerified = (v \<noteq> []),
     pe_Policy = \<lparr>pb_TokenFamily = f, pb_BindingB64 = b, pb_BudgetKey = k, pb_Origin = og,
       pb_AuthorizationExpiresAt = text_int x, pb_AuthorizationDecisionID = d\<rparr>\<rparr>"
| "policy_of _ = None"

fun kb_of :: "string list \<Rightarrow> kb_claims option" where
  "kb_of [a, n, i, h] = Some \<lparr>kb_Aud = a, kb_Nonce = n, kb_Iat = text_int i, kb_SDHash = h\<rparr>"
| "kb_of _ = None"

definition toy_json :: json where
  "toy_json = \<lparr>
     enc_header = (\<lambda>h. pack [hd_Alg h, hd_Typ h, hd_Kid h]),
     dec_header = (\<lambda>b. Option.bind (unpack b) header_of),
     enc_evt = (\<lambda>c. pack ([ev_Iss c, int_text (ev_Iat c), int_text (ev_Exp c), ev_Email c,
        bool_text (ev_EmailVerified c)] @ jwk_fields (ev_CNF c))),
     dec_evt = (\<lambda>b. Option.bind (unpack b) evt_of),
     enc_policy = (\<lambda>c. pack ([pe_Iss c, int_text (pe_Iat c), int_text (pe_Exp c), pe_Email c,
        bool_text (pe_EmailVerified c), pb_TokenFamily (pe_Policy c), pb_BindingB64 (pe_Policy c),
        pb_BudgetKey (pe_Policy c), pb_Origin (pe_Policy c), int_text (pb_AuthorizationExpiresAt (pe_Policy c)),
        pb_AuthorizationDecisionID (pe_Policy c)] @ jwk_fields (pe_CNF c))),
     dec_policy = (\<lambda>b. Option.bind (unpack b) policy_of),
     enc_kb = (\<lambda>k. pack [kb_Aud k, kb_Nonce k, int_text (kb_Iat k), kb_SDHash k]),
     dec_kb = (\<lambda>b. Option.bind (unpack b) kb_of)\<rparr>"

lemma jwk_of_fields [simp]: "jwk_of (jwk_fields j) = j"
  by (simp add: jwk_fields_def)

lemma toy_json_faithful: "json_faithful toy_json"
  by (simp add: json_faithful_def toy_json_def unpack_pack ascii_evt_def ascii_policy_def ascii_kb_def
      ascii_binding_def text_int_text bool_text_def)

definition toy_env :: email_env where
  "toy_env = \<lparr>en_json = toy_json, en_sha256 = (\<lambda>x. take 32 (x @ replicate 32 0)),
     ed_sign = (\<lambda>priv msg. priv), ed_verify = (\<lambda>pub msg sig. sig = pub @ pub),
     ed_newKeyFromSeed = (\<lambda>seed. seed @ seed), ed_public = (\<lambda>priv. take 32 priv),
     ml_keyGen = (\<lambda>seed. Some (replicate 1312 1, replicate 2560 2)),
     ml_sign = (\<lambda>priv msg rnd. Some (replicate 2420 3)), ml_verify = (\<lambda>pub msg sig. sig = replicate 2420 3)\<rparr>"

definition toy_holder :: jwk where
  "toy_holder = \<lparr>Kty = ''OKP'', Crv = ''Ed25519'', jwk_X = b64url_encode (replicate 32 4), jwk_Pub = [],
     jwk_Kid = [], jwk_Alg = AlgEdDSA, jwk_Use = ''sig''\<rparr>"

definition toy_signer :: email_signer where
  "toy_signer = \<lparr>si_issuer = ''issuer.test'', si_kid = ''k'', si_pub = replicate 32 5, si_priv = replicate 64 5\<rparr>"

lemma toy_keypairs:
  "suite_keypair (ed_suite toy_env) (replicate 32 x) (replicate 64 x)"
  "suite_keypair (ml_suite toy_env) (replicate 1312 x) (replicate 2560 y)"
  by (simp_all add: suite_keypair_def ed_suite_def ml_suite_def toy_env_def flip: replicate_add)

lemma toy_ascii:
  "ascii ''issuer.test''" "ascii ''k''" "ascii ''a@b''" "ascii_jwk toy_holder" "ascii ''rp''"
  by (simp_all add: ascii_jwk_def toy_holder_def) (simp_all add: ascii_def is_ascii_def)

definition toy_opts :: presentation_options where
  "toy_opts = \<lparr>vo_Audience = ''rp'', vo_Nonce = replicate 32 8, vo_Now = 100 * second,
     vo_EVTMaxAge = 60 * second, vo_KBMaxAge = 60 * second\<rparr>"

lemma toy_now: "90 * second \<noteq> zero_time" "sane_time (90 * second)"
  "checkTime (unix (90 * second)) (expiry (90 * second) 0) (vo_Now toy_opts) (vo_EVTMaxAge toy_opts) = Inr ()"
  "checkTime (unix (90 * second)) 0 (vo_Now toy_opts) (vo_KBMaxAge toy_opts) = Inr ()"
  by (simp_all add: checkTime_def unix_def expiry_def zero_time_def unix_to_internal_def toy_opts_def second_def
      time_sub_def time_unix_def wrap64_def sane_time_def)

definition toy_pq_signer :: email_signer where
  "toy_pq_signer = \<lparr>si_issuer = ''issuer.test'', si_kid = ''k'', si_pub = replicate 1312 1, si_priv = replicate 2560 2\<rparr>"

definition toy_iopts :: policy_email_options where
  "toy_iopts = \<lparr>po_Email = ''a@b'', po_HolderJWK = toy_holder,
     po_Policy = \<lparr>pb_TokenFamily = ''k'', pb_BindingB64 = ''k'', pb_BudgetKey = ''k'', pb_Origin = [],
       pb_AuthorizationExpiresAt = 5, pb_AuthorizationDecisionID = []\<rparr>,
     po_IssuedAt = 90 * second, po_TTL = 0, po_Rnd = None\<rparr>"

theorem pq_policy_email_roundtrip_witness:
  "\<exists>tok kb pres. pq_IssuePolicyEmail toy_env toy_pq_signer toy_iopts = Inr tok
    \<and> SignKBJWT toy_env (replicate 64 4) tok ''rp'' (replicate 32 8) (90 * second) = Inr kb
    \<and> JoinPresentation tok kb = Inr pres
    \<and> is_ok (pq_VerifyPolicyEmailPresentation toy_env (signer_Verifier toy_pq_signer) pres toy_opts)"
proof -
  have hk: "holder_key (po_HolderJWK toy_iopts) = Inr (replicate 32 4)"
    and hs: "holder_suite toy_env (po_HolderJWK toy_iopts) = ed_suite toy_env"
    by (simp_all add: holder_key_def holder_suite_def toy_iopts_def Ed25519PublicKey_def toy_holder_def KtyAKP_def)
  have sign: "\<exists>jws. signJWS toy_env (ed_suite toy_env) h p (replicate 64 x) rnd = Inr jws"
    "\<exists>jws. signJWS toy_env (ml_suite toy_env) h p (replicate 2560 x) rnd = Inr jws" for h p x rnd
    by (simp_all add: signJWS_def ed_suite_def ml_suite_def toy_env_def Let_def)
  have k: "trim_space ''k'' \<noteq> []" using trim_space_graph [of "''k''"] by (simp add: is_graph_def)
  have bind: "checkPolicyBinding (po_Policy toy_iopts) = Inr ()"
    using k by (simp add: checkPolicyBinding_def toy_iopts_def)
  obtain tok where tok: "pq_IssuePolicyEmail toy_env toy_pq_signer toy_iopts = Inr tok" "has_suffix tok ''~''"
    using sign(2) [where x = 2] checkHolderJWK_key [OF hk] bind toy_now(1)
    unfolding pq_IssuePolicyEmail_def issue_policy_email_def
    by (simp add: toy_pq_signer_def Let_def) (simp add: toy_iopts_def, metis has_suffix_append bind_result_simps(2))
  obtain kb where kb: "SignKBJWT toy_env (replicate 64 4) tok ''rp'' (replicate 32 8) (90 * second) = Inr kb"
    "jws_text kb"
    using sign(1) [where x = 4] signJWS_text tok(2) toy_now(1)
    by (auto simp: SignKBJWT_def sign_kb_def Let_def) metis
  have "trim_space kb \<noteq> []"
    using jws_text_facts [OF kb(2)] trim_space_graph by simp
  then have join: "JoinPresentation tok kb = Inr (tok @ kb)" using tok(2) by (simp add: JoinPresentation_def)
  have env: "json_faithful (en_json toy_env)" using toy_json_faithful by (simp add: toy_env_def)
  have s: "suite_keypair (ml_suite toy_env) (si_pub toy_pq_signer) (si_priv toy_pq_signer)"
    "ascii (si_issuer toy_pq_signer)" "ascii (si_kid toy_pq_signer)"
    using toy_keypairs toy_ascii by (simp_all add: toy_pq_signer_def)
  have i: "ascii (po_Email toy_iopts)" "ascii_jwk (po_HolderJWK toy_iopts)" "ascii_binding (po_Policy toy_iopts)"
    "sane_time (po_IssuedAt toy_iopts)" "is_int64 (po_TTL toy_iopts)"
    using toy_ascii toy_now(2) by (simp_all add: toy_iopts_def ascii_binding_def is_int64_def)
  have o: "vo_Audience toy_opts = ''rp''" "vo_Nonce toy_opts = replicate 32 8"
    by (simp_all add: toy_opts_def)
  have t: "checkTime (unix (po_IssuedAt toy_iopts)) (expiry (po_IssuedAt toy_iopts) (po_TTL toy_iopts))
      (vo_Now toy_opts) (vo_EVTMaxAge toy_opts) = Inr ()"
    using toy_now(3) by (simp add: toy_iopts_def)
  have kp: "suite_keypair (holder_suite toy_env (po_HolderJWK toy_iopts)) (replicate 32 4) (replicate 64 4)"
    using toy_keypairs(1) hs by simp
  have sk: "sign_kb toy_env (holder_suite toy_env (po_HolderJWK toy_iopts)) (replicate 64 4) tok ''rp''
      (replicate 32 8) (90 * second) None = Inr kb"
    using kb(1) hs by (simp add: SignKBJWT_def)
  note rt = pq_policy_email_roundtrip [OF env s(1) hk kp tok(1) sk join s(2,3) i(1-3) toy_ascii(5) i(4,5)
      toy_now(2) o t toy_now(4)]
  show ?thesis using tok(1) kb(1) join rt by auto
qed

end
