(* ===== verification/TokenService.thy ===== *)
theory TokenService
  imports Authorize TokenProfile EmailToken
begin

text \<open>
  Package \<^verbatim>\<open>tokenservice\<close>: the spent-token store (\<^verbatim>\<open>spend.go\<close>) and the issuer and verifier
  facade (\<^verbatim>\<open>service.go\<close>) that ties mint decisions to blind signatures and email tokens.
  The locale \<open>spent_store\<close> is the \<^verbatim>\<open>SpentStore\<close> interface with pruning; it is interpreted on the
  in-memory store.
\<close>

section \<open>The spent-token store\<close>

datatype spend_error = ErrDoubleSpend | ErrSpendBackend

type_synonym memory_spent = "(u32 \<times> bytes) set"

definition NewMemorySpentStore :: memory_spent where
  "NewMemorySpentStore = {}"

definition CheckAndMark :: "memory_spent \<Rightarrow> u32 \<Rightarrow> bytes \<Rightarrow> memory_spent \<times> spend_error option" where
  "CheckAndMark seen keyEpoch nonce =
     (if (keyEpoch, nonce) \<in> seen then (seen, Some ErrDoubleSpend)
      else (insert (keyEpoch, nonce) seen, None))"

definition PruneEpochsBefore :: "memory_spent \<Rightarrow> u32 \<Rightarrow> memory_spent" where
  "PruneEpochsBefore seen keepFrom = {k \<in> seen. \<not> fst k < keepFrom}"

definition spent_Len :: "memory_spent \<Rightarrow> nat" where
  "spent_Len seen = card seen"

datatype spend_op = Spend u32 bytes | Retire u32

text \<open>What any store owes its callers: an accepted spend was not recorded before and is afterwards.\<close>

locale spent_store =
  fixes check_and_mark :: "'s \<Rightarrow> u32 \<Rightarrow> bytes \<Rightarrow> 's \<times> spend_error option"
    and retire :: "'s \<Rightarrow> u32 \<Rightarrow> 's"
    and spent :: "'s \<Rightarrow> (u32 \<times> bytes) set"
    and step :: "'s \<Rightarrow> spend_op \<Rightarrow> 's \<times> spend_error option"
  assumes accepted: "check_and_mark s e n = (s', None) \<Longrightarrow>
      (e, n) \<notin> spent s \<and> spent s' = insert (e, n) (spent s)"
    and refused: "check_and_mark s e n = (s', Some err) \<Longrightarrow> spent s \<subseteq> spent s'"
    and retired: "k \<in> spent s \<Longrightarrow> \<not> fst k < e \<Longrightarrow> k \<in> spent (retire s e)"
    and step_Spend: "step s (Spend e n) = check_and_mark s e n"
    and step_Retire: "step s (Retire e) = (retire s e, None)"
begin

lemma spent_stays:
  "(e, n) \<in> spent s \<Longrightarrow> \<not> (\<exists>k. i = Retire k \<and> e < k) \<Longrightarrow> (e, n) \<in> spent (fst (step s i))"
proof (cases i)
  case (Spend e' n')
  assume "(e, n) \<in> spent s"
  then show ?thesis
    using accepted [of s e' n'] refused [of s e' n'] Spend
    by (cases "check_and_mark s e' n'"; cases "snd (check_and_mark s e' n')") (auto simp: step_Spend)
next
  case (Retire k)
  assume "(e, n) \<in> spent s" "\<not> (\<exists>k. i = Retire k \<and> e < k)"
  then show ?thesis using Retire retired [of "(e, n)" s k] by (simp add: step_Retire)
qed

lemma once_spent:
  assumes "(e, n) \<in> spent s" "list_all (\<lambda>i. \<not> (\<exists>k. i = Retire k \<and> e < k)) ops"
  shows "count_io (\<lambda>i out. i = Spend e n \<and> out = None) (run_trace step s ops) = 0"
  using assms
proof (induction ops arbitrary: s)
  case Nil
  then show ?case by simp
next
  case (Cons i ops)
  then have "(e, n) \<in> spent (fst (step s i))" using spent_stays by simp
  moreover have "\<not> (i = Spend e n \<and> snd (step s i) = None)"
    using Cons.prems(1) accepted [of s e n "fst (step s i)"]
    by (metis prod.collapse step_Spend)
  ultimately show ?case using Cons by simp
qed

lemma accepted_once:
  assumes "list_all (\<lambda>i. \<not> (\<exists>k. i = Retire k \<and> e < k)) ops"
  shows "count_io (\<lambda>i out. i = Spend e n \<and> out = None) (run_trace step s ops) \<le> 1"
  using assms
proof (induction ops arbitrary: s)
  case Nil
  then show ?case by simp
next
  case (Cons i ops)
  show ?case
  proof (cases "i = Spend e n \<and> snd (step s i) = None")
    case True
    then have "(e, n) \<in> spent (fst (step s i))"
      using accepted [of s e n "fst (step s i)"] by (metis insertI1 prod.collapse step_Spend)
    then show ?thesis using once_spent [of e n "fst (step s i)" ops] Cons.prems True by simp
  next
    case False
    then show ?thesis using Cons by auto
  qed
qed

end

fun spend_step :: "memory_spent \<Rightarrow> spend_op \<Rightarrow> memory_spent \<times> spend_error option" where
  "spend_step m (Spend e n) = CheckAndMark m e n"
| "spend_step m (Retire e) = (PruneEpochsBefore m e, None)"

interpretation memory_spent: spent_store CheckAndMark PruneEpochsBefore "\<lambda>m. m" spend_step
  by unfold_locales (auto simp: CheckAndMark_def PruneEpochsBefore_def split: if_splits)

text \<open>
  C3: No double spend. In any sequence of spends and epoch retirements on the memory store that does
  not retire a given epoch, a nonce of that epoch is accepted at most once, from whatever state the
  store is in; the same nonce in another epoch is another token.
\<close>

theorem no_double_spend:
  assumes "list_all (\<lambda>i. \<not> (\<exists>k. i = Retire k \<and> e < k)) ops"
  shows "count_io (\<lambda>i out. i = Spend e n \<and> out = None) (run_trace spend_step m ops) \<le> 1"
  using assms by (rule memory_spent.accepted_once)

theorem no_double_spend_witness:
  "count_io (\<lambda>i out. i = Spend 2 [7] \<and> out = None)
     (run_trace spend_step NewMemorySpentStore [Spend 2 [7], Spend 1 [7], Retire 2, Spend 2 [7]]) \<le> 1"
  by (rule no_double_spend) simp

section \<open>The service\<close>

record service =
  sv_blind :: "issuer option"
  sv_email :: "email_signer option"
  sv_pqEmail :: "email_signer option"

record service_verifier =
  vf_blind :: "issuer option"
  vf_email :: "email_verifier option"
  vf_pqEmail :: "email_verifier option"

datatype service_error =
    ENoRail | EBlindMissing | ENotBlindFamily token_family | EDenied detail
  | EWrongFamily token_family token_family | ECountZero | EWrongCount int int | EWrongKeyVersion u32 u32
  | ENoBinding | ENoExpiry | EDecisionExpired | EBindingMismatch
  | EEmailMissing | EPQEmailMissing | EEmailRequired | EEmailMismatch
  | EProfile profile_error | EEmailToken email_error

definition NewIssuerWithPQEmail ::
  "issuer option \<Rightarrow> email_signer option \<Rightarrow> email_signer option \<Rightarrow> (service_error, service) result" where
  "NewIssuerWithPQEmail blind email pq =
     guard (\<not> (blind = None \<and> email = None \<and> pq = None)) ENoRail
     (Inr \<lparr>sv_blind = blind, sv_email = email, sv_pqEmail = pq\<rparr>)"

definition service_NewIssuer :: "issuer option \<Rightarrow> email_signer option \<Rightarrow> (service_error, service) result" where
  "service_NewIssuer blind email =
     guard (\<not> (blind = None \<and> email = None)) ENoRail
     (Inr \<lparr>sv_blind = blind, sv_email = email, sv_pqEmail = None\<rparr>)"

definition service_Verifier :: "service \<Rightarrow> service_verifier" where
  "service_Verifier s = \<lparr>vf_blind = sv_blind s, vf_email = map_option signer_Verifier (sv_email s),
     vf_pqEmail = map_option signer_Verifier (sv_pqEmail s)\<rparr>"

definition validateDecision ::
  "mint_decision \<Rightarrow> token_family \<Rightarrow> int \<Rightarrow> u32 \<Rightarrow> gotime \<Rightarrow> (service_error, unit) result" where
  "validateDecision decision family n keyVersion now =
     (let con = md_Constraints decision in
      guard (md_Allow decision) (EDenied (md_Reason decision))
     (guard (mc_TokenFamily con = family) (EWrongFamily (mc_TokenFamily con) family)
     (guard (0 < n) ECountZero
     (guard (mc_Count con = n) (EWrongCount (mc_Count con) n)
     (guard (\<not> (keyVersion \<noteq> 0 \<and> mc_KeyVersion con \<noteq> keyVersion)) (EWrongKeyVersion (mc_KeyVersion con) keyVersion)
     (guard (mc_BindingB64 con \<noteq> []) ENoBinding
     (guard (mc_ExpiresAt con \<noteq> 0) ENoExpiry
     (guard (\<not> (now \<noteq> zero_time \<and> unix now > mc_ExpiresAt con)) EDecisionExpired
     (Inr ())))))))))"

record blind_mint_request =
  bm_Decision :: mint_decision
  bm_Family :: token_family
  bm_Blinded :: "bytes list"
  bm_Now :: gotime

definition SignAuthorizedBlind ::
  "'ps crypto \<Rightarrow> service \<Rightarrow> blind_mint_request \<Rightarrow> (service_error, bytes list) result" where
  "SignAuthorizedBlind c s req =
     (case sv_blind s of None \<Rightarrow> Inl EBlindMissing
      | Some blind \<Rightarrow>
          guard (bm_Family req = TokenBurn \<or> bm_Family req = TokenPrivateIdentity) (ENotBlindFamily (bm_Family req))
          (bind_result (validateDecision (bm_Decision req) (bm_Family req) (int (length (bm_Blinded req)))
              (is_keyVersion blind) (bm_Now req)) (\<lambda>_.
           guard (b64url_encode (BindingOf c (bm_Blinded req)) = mc_BindingB64 (md_Constraints (bm_Decision req)))
             EBindingMismatch
          (map_error EProfile (BlindSign c blind (bm_Blinded req))))))"

record email_issue_request =
  ei_Decision :: mint_decision
  ei_Email :: string
  ei_HolderJWK :: jwk
  ei_IssuedAt :: gotime
  ei_TTL :: duration
  ei_DecisionID :: string
  ei_Rnd :: "bytes option"

definition policyEmailOptions ::
  "utables \<Rightarrow> email_issue_request \<Rightarrow> (service_error, policy_email_options) result" where
  "policyEmailOptions u req =
     (let con = md_Constraints (ei_Decision req) in
      bind_result (validateDecision (ei_Decision req) TokenPolicyEmail 1 0 (ei_IssuedAt req)) (\<lambda>_.
      guard (ei_Email req \<noteq> []) EEmailRequired
     (guard (\<not> (mc_Address con \<noteq> [] \<and> \<not> equal_fold u (mc_Address con) (ei_Email req))) EEmailMismatch
     (Inr \<lparr>po_Email = ei_Email req, po_HolderJWK = ei_HolderJWK req,
        po_Policy = \<lparr>pb_TokenFamily = mc_TokenFamily con, pb_BindingB64 = mc_BindingB64 con,
          pb_BudgetKey = mc_BudgetKey con, pb_Origin = mc_Origin con,
          pb_AuthorizationExpiresAt = mc_ExpiresAt con, pb_AuthorizationDecisionID = ei_DecisionID req\<rparr>,
        po_IssuedAt = ei_IssuedAt req, po_TTL = ei_TTL req, po_Rnd = ei_Rnd req\<rparr>))))"

definition service_IssuePolicyEmail ::
  "utables \<Rightarrow> email_env \<Rightarrow> service \<Rightarrow> email_issue_request \<Rightarrow> (service_error, string) result" where
  "service_IssuePolicyEmail u E s req =
     (case sv_email s of None \<Rightarrow> Inl EEmailMissing
      | Some signer \<Rightarrow>
          bind_result (policyEmailOptions u req) (\<lambda>opts. map_error EEmailToken (IssuePolicyEmail E signer opts)))"

definition IssuePolicyEmailPQ ::
  "utables \<Rightarrow> email_env \<Rightarrow> service \<Rightarrow> email_issue_request \<Rightarrow> (service_error, string) result" where
  "IssuePolicyEmailPQ u E s req =
     (case sv_pqEmail s of None \<Rightarrow> Inl EPQEmailMissing
      | Some signer \<Rightarrow>
          bind_result (policyEmailOptions u req) (\<lambda>opts. map_error EEmailToken (pq_IssuePolicyEmail E signer opts)))"

definition IssueGoogleEVT ::
  "email_env \<Rightarrow> service \<Rightarrow> string \<Rightarrow> jwk \<Rightarrow> gotime \<Rightarrow> duration \<Rightarrow> (service_error, string) result" where
  "IssueGoogleEVT E s email holder issuedAt ttl =
     (case sv_email s of None \<Rightarrow> Inl EEmailMissing
      | Some signer \<Rightarrow> map_error EEmailToken (IssueEVT E signer email holder issuedAt ttl))"

definition VerifyBurnTokenBytes ::
  "'ps crypto \<Rightarrow> service_verifier \<Rightarrow> bytes \<Rightarrow> bytes \<Rightarrow> (service_error, burn_token) result" where
  "VerifyBurnTokenBytes c v tokenBytes challengeDigest =
     (case vf_blind v of None \<Rightarrow> Inl EBlindMissing
      | Some blind \<Rightarrow>
          map_error EProfile
            (bind_result (ParseBurnToken tokenBytes) (\<lambda>token.
             bind_result (VerifyBurnToken c blind token challengeDigest) (\<lambda>_. Inr token))))"

definition service_VerifyPrivateIdentityPresentation ::
  "'ps crypto \<Rightarrow> service_verifier \<Rightarrow> pi_presentation \<Rightarrow> gotime \<Rightarrow> duration \<Rightarrow> (service_error, bytes) result" where
  "service_VerifyPrivateIdentityPresentation c v p now maxSkew =
     (case vf_blind v of None \<Rightarrow> Inl EBlindMissing
      | Some blind \<Rightarrow> map_error EProfile (VerifyPrivateIdentityPresentation c blind p now maxSkew))"

definition VerifyGoogleEVTPresentation ::
  "email_env \<Rightarrow> service_verifier \<Rightarrow> string \<Rightarrow> presentation_options \<Rightarrow>
   (service_error, evt_claims \<times> kb_claims) result" where
  "VerifyGoogleEVTPresentation E v pres opts =
     (case vf_email v of None \<Rightarrow> Inl EEmailMissing
      | Some ev \<Rightarrow> map_error EEmailToken (VerifyPresentation E ev pres opts))"

definition service_VerifyPolicyEmailPresentation ::
  "email_env \<Rightarrow> service_verifier \<Rightarrow> string \<Rightarrow> presentation_options \<Rightarrow>
   (service_error, policy_email_claims \<times> kb_claims) result" where
  "service_VerifyPolicyEmailPresentation E v pres opts =
     (case vf_email v of None \<Rightarrow> Inl EEmailMissing
      | Some ev \<Rightarrow> map_error EEmailToken (VerifyPolicyEmailPresentation E ev pres opts))"

definition VerifyPolicyEmailPresentationPQ ::
  "email_env \<Rightarrow> service_verifier \<Rightarrow> string \<Rightarrow> presentation_options \<Rightarrow>
   (service_error, policy_email_claims \<times> kb_claims) result" where
  "VerifyPolicyEmailPresentationPQ E v pres opts =
     (case vf_pqEmail v of None \<Rightarrow> Inl EPQEmailMissing
      | Some ev \<Rightarrow> map_error EEmailToken (pq_VerifyPolicyEmailPresentation E ev pres opts))"

section \<open>From decision to signature\<close>

lemma validateDecision_Inr:
  "validateDecision d fam n kv now = Inr () \<longleftrightarrow>
     md_Allow d \<and> mc_TokenFamily (md_Constraints d) = fam \<and> 0 < n \<and> mc_Count (md_Constraints d) = n
     \<and> (kv = 0 \<or> mc_KeyVersion (md_Constraints d) = kv) \<and> mc_BindingB64 (md_Constraints d) \<noteq> []
     \<and> mc_ExpiresAt (md_Constraints d) \<noteq> 0 \<and> (now = zero_time \<or> unix now \<le> mc_ExpiresAt (md_Constraints d))"
  unfolding validateDecision_def Let_def guard_Inr_iff by auto

lemma SignAuthorizedBlind_Inr:
  "SignAuthorizedBlind c s req = Inr sigs \<longleftrightarrow>
     (\<exists>blind. sv_blind s = Some blind \<and> (bm_Family req = TokenBurn \<or> bm_Family req = TokenPrivateIdentity)
      \<and> validateDecision (bm_Decision req) (bm_Family req) (int (length (bm_Blinded req))) (is_keyVersion blind)
          (bm_Now req) = Inr ()
      \<and> b64url_encode (BindingOf c (bm_Blinded req)) = mc_BindingB64 (md_Constraints (bm_Decision req))
      \<and> BlindSign c blind (bm_Blinded req) = Inr sigs)"
  by (auto simp: SignAuthorizedBlind_def result_simps split: option.splits)

lemma blind_sign_from_length: "blind_sign_from c csk i xs = Inr ys \<Longrightarrow> length ys = length xs"
  by (induction c csk i xs arbitrary: ys rule: blind_sign_from.induct) (auto simp: result_simps Let_def)

lemma BlindSign_length: "BlindSign c i xs = Inr ys \<Longrightarrow> length ys = length xs"
  using blind_sign_from_length by (auto simp: BlindSign_def guard_Inr_iff)

text \<open>
  C11: One decision, one batch. Whenever the issuer signs two batches under the same mint decision,
  each batch has exactly the number of targets the decision was charged for, one signature per
  target is returned, and the two batches are the same list of targets, or else their binding
  preimages are two different byte strings with the same SHA-256 value. So the tokens obtained
  under a decision are bounded by what its budget reservation paid for.
\<close>

theorem one_decision_one_batch:
  assumes "SignAuthorizedBlind c s req = Inr sigs" and "SignAuthorizedBlind c s' req' = Inr sigs'"
    and "bm_Decision req' = bm_Decision req"
    and "\<forall>x \<in> set (bm_Blinded req) \<union> set (bm_Blinded req'). length x < 2 ^ 32"
    and "mc_Count (md_Constraints (bm_Decision req)) < 2 ^ 32"
  shows "int (length sigs) = mc_Count (md_Constraints (bm_Decision req))
    \<and> int (length sigs') = mc_Count (md_Constraints (bm_Decision req))
    \<and> (bm_Blinded req = bm_Blinded req' \<or>
        binding_preimage (bm_Blinded req) \<noteq> binding_preimage (bm_Blinded req') \<and>
        sha256 c (binding_preimage (bm_Blinded req)) = sha256 c (binding_preimage (bm_Blinded req')))"
proof -
  have each: "int (length (bm_Blinded r)) = mc_Count (md_Constraints (bm_Decision r)) \<and> length ss = length (bm_Blinded r)
      \<and> b64url_encode (BindingOf c (bm_Blinded r)) = mc_BindingB64 (md_Constraints (bm_Decision r))"
    if "SignAuthorizedBlind c t r = Inr ss" for t r ss
    using that BlindSign_length unfolding SignAuthorizedBlind_Inr validateDecision_Inr by metis
  have "b64url_encode (BindingOf c (bm_Blinded req)) = b64url_encode (BindingOf c (bm_Blinded req'))"
    using each [OF assms(1)] each [OF assms(2)] assms(3) by simp
  then have "BindingOf c (bm_Blinded req) = BindingOf c (bm_Blinded req')" by simp
  then show ?thesis
    using each [OF assms(1)] each [OF assms(2)] assms(3)
      batches_distinct [of "bm_Blinded req" "bm_Blinded req'"] assms(4,5)
    by (auto simp: BindingOf_def)
qed

lemma blind_sign_all:
  "\<forall>x \<in> set xs. length x = MBytes \<and> mayo_SignWithoutHashing c x csk \<noteq> [] \<Longrightarrow>
   blind_sign_from c csk i xs = Inr (map (\<lambda>x. mayo_SignWithoutHashing c x csk) xs)"
  by (induction xs arbitrary: i) (simp_all add: Let_def)

lemma AuthorizeMint_allowed:
  assumes "AuthorizeMint u (Some p) req store s now = (s', d)" "md_Allow d"
  obtains tok elig budget where "mint_permitted u p req now tok elig budget"
    "md_Constraints d = \<lparr>mc_TokenFamily = mq_TokenFamily req, mc_Count = mq_Count req,
       mc_KeyVersion = mq_KeyVersion req, mc_BindingB64 = b64url_encode (mq_Binding req),
       mc_BudgetKey = budget_key_of elig tok, mc_Origin = mq_Origin req, mc_Address = mq_Address req,
       mc_ExpiresAt = unix (now + seconds (AuthorizationTTL (po_defaults p)))\<rparr>"
proof (cases "\<exists>tok elig budget. mint_permitted u p req now tok elig budget")
  case True
  then obtain tok elig budget where ok: "mint_permitted u p req now tok elig budget" by blast
  obtain t out where res: "charge store s (budget_key_of elig tok) (mq_Count req) budget now = (t, out)" by fastforce
  show ?thesis
    using assms AuthorizeMint_permitted [OF ok, of store s] res that [OF ok] by (cases out) auto
next
  case False
  then obtain cs r where "AuthorizeMint u (Some p) req store s now = (s, denial cs r)"
    by (rule AuthorizeMint_refused)
  then show ?thesis using assms by auto
qed

text \<open>
  C12: An authorized batch is signed until the authorization expires. If the policy engine allows a
  blind mint for the binding of a batch, an issuer of the requested key version signs exactly that
  batch, target by target, at every moment up to the decision's expiry, which is the decision's
  time plus the policy's TTL, and refuses it afterwards.
\<close>

theorem authorized_batch_signed:
  assumes "AuthorizeMint u (Some p) req store st now = (st', d)" and "md_Allow d"
    and "mq_TokenFamily req = TokenBurn \<or> mq_TokenFamily req = TokenPrivateIdentity"
    and "mq_Binding req = BindingOf c blinded" and "mq_Count req = int (length blinded)"
    and "sv_blind s = Some i" and "is_keyVersion i = mq_KeyVersion req" and "is_csk i \<noteq> []"
    and "\<forall>x \<in> set blinded. length x = MBytes \<and> mayo_SignWithoutHashing c x (is_csk i) \<noteq> []"
    and "expires = unix (now + seconds (AuthorizationTTL (po_defaults p)))" and "expires \<noteq> 0"
    and "later \<noteq> zero_time"
  shows "SignAuthorizedBlind c s \<lparr>bm_Decision = d, bm_Family = mq_TokenFamily req, bm_Blinded = blinded, bm_Now = later\<rparr> =
    (if unix later \<le> expires then Inr (map (\<lambda>x. mayo_SignWithoutHashing c x (is_csk i)) blinded)
     else Inl EDecisionExpired)"
proof -
  obtain tok elig budget where ok: "mint_permitted u p req now tok elig budget"
    and con: "md_Constraints d = \<lparr>mc_TokenFamily = mq_TokenFamily req, mc_Count = mq_Count req,
       mc_KeyVersion = mq_KeyVersion req, mc_BindingB64 = b64url_encode (mq_Binding req),
       mc_BudgetKey = budget_key_of elig tok, mc_Origin = mq_Origin req, mc_Address = mq_Address req,
       mc_ExpiresAt = unix (now + seconds (AuthorizationTTL (po_defaults p)))\<rparr>"
    using AuthorizeMint_allowed [OF assms(1,2)] by metis
  have "0 < mq_Count req" "mq_KeyVersion req \<noteq> 0" "length (mq_Binding req) = 32"
    using ok by (simp_all add: mint_permitted_def request_satisfied_def)
  moreover from this(3) have "mq_Binding req \<noteq> []" by auto
  moreover have "BlindSign c i blinded = Inr (map (\<lambda>x. mayo_SignWithoutHashing c x (is_csk i)) blinded)"
    using assms(8) blind_sign_all [OF assms(9)] by (simp add: BlindSign_def)
  ultimately show ?thesis
    using assms(2-7,10-) con
    by (simp add: SignAuthorizedBlind_def validateDecision_def Let_def guard_def)
qed


section \<open>Concrete runs\<close>

definition batch_request :: mint_request where
  "batch_request = sample_request\<lparr>mq_Count := 1, mq_KeyVersion := 7,
     mq_Binding := BindingOf toy_crypto [replicate 39 0]\<rparr>"

definition toy_service :: service where
  "toy_service = \<lparr>sv_blind = Some toy_issuer, sv_email = None, sv_pqEmail = None\<rparr>"

abbreviation ascii_tables :: utables where
  "ascii_tables \<equiv> \<lparr>ulower = id, ufold = (=)\<rparr>"

lemma batch_permitted:
  "mint_permitted ascii_tables dev_policy batch_request (5 * second)
     (the (po_tokens dev_policy ''private_identity'')) (hd (mq_Eligibility batch_request))
     \<lparr>br_Limit = 8, br_WindowSeconds = 3600\<rparr>"
  using toy_crypto_correct(2)
  by (simp add: mint_permitted_def request_satisfied_def gate_satisfied_def eligible_def batch_request_def
      sample_request_def dev_policy_def software_witness_def AssuranceVerified_def is_ascii_def ascii_lower_def
      zero_time_def second_def unix_to_internal_def char_of_eq_iff BindingOf_def)

lemma batch_decision:
  obtains st d where "AuthorizeMint ascii_tables (Some dev_policy) batch_request None () (5 * second) = (st, d)"
    "md_Allow d" "mc_BindingB64 (md_Constraints d) = b64url_encode (BindingOf toy_crypto [replicate 39 0])"
proof -
  obtain st d where d: "AuthorizeMint ascii_tables (Some dev_policy) batch_request None () (5 * second) = (st, d)"
    by (rule prod.exhaust)
  then have "md_Allow d" "mc_BindingB64 (md_Constraints d) = b64url_encode (mq_Binding batch_request)"
    unfolding AuthorizeMint_permitted [OF batch_permitted] by (auto simp: charge_def)
  then show ?thesis using d that by (simp add: batch_request_def)
qed

lemma batch_facts:
  "mq_TokenFamily batch_request = TokenBurn \<or> mq_TokenFamily batch_request = TokenPrivateIdentity"
  "mq_Binding batch_request = BindingOf toy_crypto [replicate 39 0]"
  "mq_Count batch_request = int (length [replicate 39 (0 :: byte)])"
  "sv_blind toy_service = Some toy_issuer" "is_keyVersion toy_issuer = mq_KeyVersion batch_request"
  "is_csk toy_issuer \<noteq> []"
  "\<forall>x \<in> set [replicate 39 0]. length x = MBytes \<and> mayo_SignWithoutHashing toy_crypto x (is_csk toy_issuer) \<noteq> []"
  "unix (5 * second + seconds (AuthorizationTTL (po_defaults dev_policy))) = 125"
  by (simp_all add: batch_request_def sample_request_def policy_consts toy_service_def toy_issuer_def MBytes_def
      toy_crypto_def unix_def seconds_def second_def dev_policy_def wrap64_def)

theorem authorized_batch_signed_witness:
  "\<exists>st d. AuthorizeMint ascii_tables (Some dev_policy) batch_request None () (5 * second) = (st, d)
    \<and> SignAuthorizedBlind toy_crypto toy_service
        \<lparr>bm_Decision = d, bm_Family = mq_TokenFamily batch_request, bm_Blinded = [replicate 39 0], bm_Now = 125 * second\<rparr>
      = Inr [[2, 9]]
    \<and> SignAuthorizedBlind toy_crypto toy_service
        \<lparr>bm_Decision = d, bm_Family = mq_TokenFamily batch_request, bm_Blinded = [replicate 39 0], bm_Now = 126 * second\<rparr>
      = Inl EDecisionExpired"
proof -
  obtain st d where d: "AuthorizeMint ascii_tables (Some dev_policy) batch_request None () (5 * second) = (st, d)"
    "md_Allow d" by (rule batch_decision)
  have t: "125 * second \<noteq> zero_time" "126 * second \<noteq> zero_time" "(125 :: int) \<noteq> 0"
    "unix (125 * second) = 125" "unix (126 * second) = 126"
    by (simp_all add: zero_time_def second_def unix_to_internal_def unix_def)
  note signed = authorized_batch_signed [OF d batch_facts(1-7) batch_facts(8) [symmetric] t(3)]
  have "mayo_SignWithoutHashing toy_crypto x (is_csk toy_issuer) = [2, 9]" for x
    by (simp add: toy_crypto_def toy_issuer_def)
  then show ?thesis using d(1) signed [OF t(1)] signed [OF t(2)] t by auto
qed

theorem one_decision_one_batch_witness:
  "\<exists>req sigs. SignAuthorizedBlind toy_crypto toy_service req = Inr sigs \<and> int (length sigs) = 1"
proof -
  obtain st d where d: "AuthorizeMint ascii_tables (Some dev_policy) batch_request None () (5 * second) = (st, d)"
    "md_Allow d" "mc_BindingB64 (md_Constraints d) = b64url_encode (BindingOf toy_crypto [replicate 39 0])"
    by (rule batch_decision)
  have con: "md_Constraints d = \<lparr>mc_TokenFamily = mq_TokenFamily batch_request, mc_Count = mq_Count batch_request,
       mc_KeyVersion = mq_KeyVersion batch_request, mc_BindingB64 = b64url_encode (mq_Binding batch_request),
       mc_BudgetKey = budget_key_of (hd (mq_Eligibility batch_request)) (the (po_tokens dev_policy ''private_identity'')),
       mc_Origin = mq_Origin batch_request, mc_Address = mq_Address batch_request,
       mc_ExpiresAt = unix (5 * second + seconds (AuthorizationTTL (po_defaults dev_policy)))\<rparr>"
    using d(1) unfolding AuthorizeMint_permitted [OF batch_permitted] by (auto simp: charge_def)
  let ?r = "\<lparr>bm_Decision = d, bm_Family = TokenPrivateIdentity, bm_Blinded = [replicate 39 0], bm_Now = zero_time\<rparr>"
  have f: "mq_TokenFamily batch_request = TokenPrivateIdentity"
    by (simp add: batch_request_def sample_request_def policy_consts)
  have nonempty: "b64url_encode (BindingOf toy_crypto [replicate 39 0]) \<noteq> []"
    using toy_crypto_correct(2) [of "binding_preimage [replicate 39 0]"] by (auto simp: BindingOf_def)
  have "BlindSign toy_crypto toy_issuer [replicate 39 0] = Inr [[2, 9]]"
    by (simp add: BlindSign_def toy_crypto_def toy_issuer_def MBytes_def)
  then have s: "SignAuthorizedBlind toy_crypto toy_service ?r = Inr [[2, 9]]"
    unfolding SignAuthorizedBlind_Inr validateDecision_Inr
    using batch_facts d(2) con f nonempty by simp
  from one_decision_one_batch [OF s s] con batch_facts(3) have "int (length [[2 :: byte, 9]]) = 1"
    by simp
  then show ?thesis using s by blast
qed

definition email_policy_source :: policy_source where
  "email_policy_source = builtinDevPolicy\<lparr>
     ps_TokenFamilies := [(''policy_email'',
       \<lparr>tr_Enabled = True, tr_AllowedGates = [''email''], tr_AllowedOrigins = [],
        tr_BudgetGroup = ''mailproof'', tr_MaxBatch = 1, tr_RequiresAddressClaim = True,
        tr_RequiresAttestation = False, tr_RequiresOrigin = False\<rparr>)],
     ps_Gates := [(''email'',
       \<lparr>gr_Enabled = True, gr_BucketClaim = [], gr_BucketSource = ''caller'',
        gr_AddressClaim = ''address'', gr_AllowedHosts = []\<rparr>)]\<rparr>"

definition email_policy :: policy where
  "email_policy = dev_policy\<lparr>
     po_tokens := [''policy_email'' \<mapsto>
       \<lparr>ct_name = ''policy_email'', ct_enabled = True, ct_allowedGates = {''email''},
        ct_allowedOrigins = {}, ct_budgetGroup = ''mailproof'', ct_maxBatch = 1,
        ct_requiresAddressClaim = True, ct_requiresAttestation = False, ct_requiresOrigin = False\<rparr>],
     po_gates := [''email'' \<mapsto>
       \<lparr>cg_name = ''email'', cg_enabled = True, cg_bucketClaim = [], cg_bucketSource = ''caller'',
        cg_addressClaim = ''address'', cg_allowedHosts = {}\<rparr>]\<rparr>"

lemma Compile_email_policy: "Compile email_policy_source = Inr email_policy"
  by (simp add: Compile_def email_policy_source_def builtinDevPolicy_def email_policy_def dev_policy_def
      compile_budget_def compile_gate_def compile_token_def check_gate_def check_attestation_def validName_def
      in_range_def name_char_def validTokenFamily_def policy_consts measurement_map_Nil)

definition email_request :: mint_request where
  "email_request = sample_request\<lparr>mq_TokenFamily := ''policy_email'', mq_Count := 1, mq_Address := ''a@b.c'',
     mq_Eligibility := [\<lparr>el_GateKind = ''email'', el_BucketID = ''b'', el_Assurance = ''verified'',
       el_Claims = [''address'' \<mapsto> ''A@b.c'']\<rparr>]\<rparr>"

lemma email_permitted:
  "mint_permitted ascii_tables email_policy email_request (5 * second)
     (the (po_tokens email_policy ''policy_email'')) (hd (mq_Eligibility email_request))
     \<lparr>br_Limit = 8, br_WindowSeconds = 3600\<rparr>"
proof -
  have "trim_space ''a@b.c'' = ''a@b.c''" by (rule trim_space_graph) (simp add: is_graph_def)
  then show ?thesis
    by (simp add: mint_permitted_def request_satisfied_def gate_satisfied_def eligible_def email_request_def
      sample_request_def email_policy_def dev_policy_def software_witness_def AssuranceVerified_def is_ascii_def
      ascii_lower_def claim_of_def zero_time_def second_def unix_to_internal_def char_of_eq_iff)
qed


end
