(* ===== verification/Transparency.thy ===== *)
theory Transparency
  imports Envelope
begin

text \<open>
  \<^verbatim>\<open>transparency/transparency.go\<close>: the key transparency log. Records are hash-chained, the head is
  signed, and clients check a served log against the signed head, a key for inclusion, and a newer
  log for consistency with an older head. \<open>h\<close> is SHA-256. Go's conversion \<^verbatim>\<open>int(seq)\<close> of a uint64
  wraps, and an index out of range panics: both are in the model.
\<close>

section \<open>Definitions\<close>

definition leafDomain :: bytes where "leafDomain = bytes_of (''eat-pass/kt/leaf'' @ [CHR 0x00])"
definition headDomain :: bytes where "headDomain = bytes_of (''eat-pass/kt/head'' @ [CHR 0x00])"
definition sthDomain :: bytes where "sthDomain = bytes_of (''eat-pass/kt/sth'' @ [CHR 0x00])"

datatype transparency_error =
    ErrHeadMismatch | ErrBadSignature | ErrNotIncluded | ErrNotConsistent
  | EKeyIDHex | EKeyIDLength | EHeadHex | EHeadLength | ESeq u64 nat | ESigBase64 | ESeedSize | EGen
  | EIndexPanic

record key_record =
  kr_Seq :: u64
  kr_KeyVersion :: u32
  kr_TokenKeyID :: string
  kr_NotBefore :: u64

definition hex32 :: "'e \<Rightarrow> 'e \<Rightarrow> string \<Rightarrow> ('e, bytes) result" where
  "hex32 bad_hex bad_len s =
     bind_result (of_option bad_hex (hex_decode (trim_space s))) (\<lambda>v. guard (length v = 32) bad_len (Inr v))"

definition tokenKeyIDBytes :: "key_record \<Rightarrow> (transparency_error, bytes) result" where
  "tokenKeyIDBytes r = hex32 EKeyIDHex EKeyIDLength (kr_TokenKeyID r)"

definition leaf_preimage :: "key_record \<Rightarrow> bytes \<Rightarrow> bytes" where
  "leaf_preimage r tkid =
     leafDomain @ be_bytes 8 (kr_Seq r) @ be_bytes 4 (kr_KeyVersion r) @ tkid @ be_bytes 8 (kr_NotBefore r)"

definition leafHash :: "(bytes \<Rightarrow> bytes) \<Rightarrow> key_record \<Rightarrow> (transparency_error, bytes) result" where
  "leafHash h r = bind_result (tokenKeyIDBytes r) (\<lambda>tkid. Inr (h (leaf_preimage r tkid)))"

record signed_head =
  sh_Seq :: u64
  sh_Head :: string
  sh_Sig :: string

definition genesisHead :: "(bytes \<Rightarrow> bytes) \<Rightarrow> bytes" where
  "genesisHead h = h (headDomain @ bytes_of ''genesis'')"

definition chain_step :: "(bytes \<Rightarrow> bytes) \<Rightarrow> bytes \<Rightarrow> bytes \<Rightarrow> bytes" where
  "chain_step h prev leaf = h (headDomain @ prev @ leaf)"

fun chain_from :: "(bytes \<Rightarrow> bytes) \<Rightarrow> bytes \<Rightarrow> key_record list \<Rightarrow> (transparency_error, bytes list) result" where
  "chain_from h cur [] = Inr []"
| "chain_from h cur (r # rs) =
     bind_result (leafHash h r) (\<lambda>leaf.
     let cur' = chain_step h cur leaf in
     bind_result (chain_from h cur' rs) (\<lambda>heads. Inr (cur' # heads)))"

definition chainHeads :: "(bytes \<Rightarrow> bytes) \<Rightarrow> key_record list \<Rightarrow> (transparency_error, bytes list) result" where
  "chainHeads h records = chain_from h (genesisHead h) records"

definition HeadOf :: "(bytes \<Rightarrow> bytes) \<Rightarrow> key_record list \<Rightarrow> (transparency_error, bytes) result" where
  "HeadOf h records =
     bind_result (chainHeads h records) (\<lambda>heads. Inr (if heads = [] then genesisHead h else last heads))"

text \<open>The operator's log is its list of records.\<close>

definition NewKeyLog :: "key_record list" where "NewKeyLog = []"

definition log_Append :: "key_record list \<Rightarrow> u32 \<Rightarrow> bytes \<Rightarrow> u64 \<Rightarrow> key_record list \<times> u64" where
  "log_Append records keyVersion tokenKeyID notBefore =
     (let seq = of_nat (length records) in
      (records @ [\<lparr>kr_Seq = seq, kr_KeyVersion = keyVersion, kr_TokenKeyID = hex_encode tokenKeyID,
                   kr_NotBefore = notBefore\<rparr>], seq))"

definition log_Head :: "(bytes \<Rightarrow> bytes) \<Rightarrow> key_record list \<Rightarrow> (transparency_error, bytes) result" where
  "log_Head h records = HeadOf h records"

definition NewLogSigner :: "faest \<Rightarrow> bytes \<Rightarrow> (transparency_error, signer) result" where
  "NewLogSigner F seed =
     guard (length seed = 32) ESeedSize
     (bind_result (of_option EGen (fa_KeyGen F (bytes_of (''tamayo/kt/log-signer'' @ [CHR 0x00]) @ seed))) (\<lambda>(sk, pk).
      Inr \<lparr>sg_sk = sk, sg_pk = pk\<rparr>))"

definition sthMessage :: "u64 \<Rightarrow> bytes \<Rightarrow> bytes" where
  "sthMessage seq head = sthDomain @ be_bytes 8 seq @ head"

text \<open>Signing panics (the error of \<open>log_Head\<close>) when a record's key id is not 32 hexadecimal bytes.\<close>

definition log_Sign ::
  "(bytes \<Rightarrow> bytes) \<Rightarrow> faest \<Rightarrow> signer \<Rightarrow> key_record list \<Rightarrow> bytes option \<Rightarrow> (transparency_error, signed_head) result" where
  "log_Sign h F s records rho =
     bind_result (log_Head h records) (\<lambda>head.
     let seq = (if 0 < length records then of_nat (length records - 1) else 0) in
     Inr \<lparr>sh_Seq = seq, sh_Head = hex_encode head,
          sh_Sig = b64std_encode (fa_Sign F (sthMessage seq head) (sg_sk s) (signer_rho F rho))\<rparr>)"

definition parseHead :: "signed_head \<Rightarrow> (transparency_error, bytes) result" where
  "parseHead sth = hex32 EHeadHex EHeadLength (sh_Head sth)"

definition go_int :: "u64 \<Rightarrow> int" where
  "go_int w = wrap64 (uint w)"

definition VerifyLog ::
  "(bytes \<Rightarrow> bytes) \<Rightarrow> faest \<Rightarrow> bytes \<Rightarrow> key_record list \<Rightarrow> signed_head \<Rightarrow> (transparency_error, unit) result" where
  "VerifyLog h F logPub records sth =
     guard (wrap64 (go_int (sh_Seq sth) + 1) = int (length records)) (ESeq (sh_Seq sth) (length records))
     (bind_result (HeadOf h records) (\<lambda>head.
      bind_result (parseHead sth) (\<lambda>want.
      guard (head = want) ErrHeadMismatch
     (bind_result (of_option ESigBase64 (b64std_decode (trim_space (sh_Sig sth)))) (\<lambda>sig.
      guard (fa_Verify F (sthMessage (sh_Seq sth) head) (pk_of_bytes logPub) sig) ErrBadSignature (Inr ()))))))"

definition VerifyInclusion ::
  "utables \<Rightarrow> key_record list \<Rightarrow> bytes \<Rightarrow> (transparency_error, u64) result" where
  "VerifyInclusion u records tokenKeyID =
     (case find (\<lambda>r. equal_fold u (trim_space (kr_TokenKeyID r)) (hex_encode tokenKeyID)) records of
        None \<Rightarrow> Inl ErrNotIncluded
      | Some r \<Rightarrow> Inr (kr_Seq r))"

definition VerifyConsistency ::
  "(bytes \<Rightarrow> bytes) \<Rightarrow> signed_head \<Rightarrow> key_record list \<Rightarrow> (transparency_error, unit) result" where
  "VerifyConsistency h old newRecords =
     (let oldIdx = go_int (sh_Seq old) in
      guard (\<not> oldIdx \<ge> int (length newRecords)) ErrNotConsistent
     (bind_result (chainHeads h newRecords) (\<lambda>heads.
      bind_result (parseHead old) (\<lambda>want.
      if oldIdx < 0 then Inl EIndexPanic
      else guard (heads ! nat oldIdx = want) ErrNotConsistent (Inr ())))))"

section \<open>The chain commits to its records\<close>

text \<open>What the log says of a key: the four fields, with the key id as bytes.\<close>

definition content :: "key_record \<Rightarrow> u64 \<times> u32 \<times> (transparency_error, bytes) result \<times> u64" where
  "content r = (kr_Seq r, kr_KeyVersion r, tokenKeyIDBytes r, kr_NotBefore r)"

text \<open>All byte strings that are hashed when the chain over the records is computed from \<open>cur\<close>.\<close>

fun hashed_from :: "(bytes \<Rightarrow> bytes) \<Rightarrow> bytes \<Rightarrow> key_record list \<Rightarrow> bytes list" where
  "hashed_from h cur [] = []"
| "hashed_from h cur (r # rs) =
     (case tokenKeyIDBytes r of Inl _ \<Rightarrow> []
      | Inr tkid \<Rightarrow>
          (let p = leaf_preimage r tkid; q = headDomain @ cur @ h p in p # q # hashed_from h (h q) rs))"

definition hashed :: "(bytes \<Rightarrow> bytes) \<Rightarrow> key_record list \<Rightarrow> bytes list" where
  "hashed h rs = hashed_from h (genesisHead h) rs"

text \<open>Two different hashed strings, one of each log, with the same hash.\<close>

definition collide :: "(bytes \<Rightarrow> bytes) \<Rightarrow> key_record list \<Rightarrow> key_record list \<Rightarrow> bool" where
  "collide h rs rs' \<longleftrightarrow> (\<exists>x \<in> set (hashed h rs). \<exists>y \<in> set (hashed h rs'). x \<noteq> y \<and> h x = h y)"

lemma chain_from_length: "chain_from h cur rs = Inr hs \<Longrightarrow> length hs = length rs"
  by (induction rs arbitrary: cur hs) (auto simp: result_simps Let_def)

lemma tokenKeyIDBytes_length: "tokenKeyIDBytes r = Inr t \<Longrightarrow> length t = 32"
  by (auto simp: tokenKeyIDBytes_def hex32_def result_simps)

lemma leaf_preimage_inject:
  assumes "tokenKeyIDBytes r = Inr t" "tokenKeyIDBytes r' = Inr t'" "leaf_preimage r t = leaf_preimage r' t'"
  shows "content r = content r'"
proof -
  have "length t = 32" "length t' = 32" using assms(1,2) tokenKeyIDBytes_length by auto
  then show ?thesis
    using assms by (simp add: leaf_preimage_def content_def be_bytes_append_inject)
qed

text \<open>
  Equal last heads of two chains of the same length, started from any two values of 32 bytes, force
  equal starts and equal contents, or a collision among what was hashed.
\<close>

lemma chain_from_inject:
  assumes "length rs = length rs'" "rs \<noteq> []" "length cur = 32" "length cur' = 32" "\<And>x. length (h x) = 32"
    and "chain_from h cur rs = Inr hs" "chain_from h cur' rs' = Inr hs'" "last hs = last hs'"
    and "\<not> (\<exists>x \<in> set (hashed_from h cur rs). \<exists>y \<in> set (hashed_from h cur' rs'). x \<noteq> y \<and> h x = h y)"
  shows "cur = cur' \<and> map content rs = map content rs'"
  using assms(1-4,6-)
proof (induction rs rs' arbitrary: cur cur' hs hs' rule: list_induct2)
  case Nil
  then show ?case by simp
next
  case (Cons r rs r' rs')
  obtain t where t: "tokenKeyIDBytes r = Inr t" using Cons.prems by (auto simp: leafHash_def result_simps)
  obtain t' where t': "tokenKeyIDBytes r' = Inr t'" using Cons.prems by (auto simp: leafHash_def result_simps)
  let ?p = "leaf_preimage r t" and ?p' = "leaf_preimage r' t'"
  let ?q = "headDomain @ cur @ h ?p" and ?q' = "headDomain @ cur' @ h ?p'"
  obtain gs where gs: "chain_from h (h ?q) rs = Inr gs" "hs = h ?q # gs"
    using Cons.prems t by (auto simp: leafHash_def chain_step_def result_simps Let_def)
  obtain gs' where gs': "chain_from h (h ?q') rs' = Inr gs'" "hs' = h ?q' # gs'"
    using Cons.prems t' by (auto simp: leafHash_def chain_step_def result_simps Let_def)
  have no: "\<not> (\<exists>x \<in> set (hashed_from h (h ?q) rs). \<exists>y \<in> set (hashed_from h (h ?q') rs'). x \<noteq> y \<and> h x = h y)"
    "h ?q = h ?q' \<longrightarrow> ?q = ?q'" "h ?p = h ?p' \<longrightarrow> ?p = ?p'"
    using Cons.prems(7) t t' by (auto simp: Let_def)
  have "h ?q = h ?q' \<and> map content rs = map content rs'"
  proof (cases "rs = []")
    case True
    then have "rs' = []" "gs = []" "gs' = []" using Cons.hyps gs gs' by auto
    then show ?thesis using Cons.prems(6) gs gs' True by simp
  next
    case False
    then have "gs \<noteq> []" "gs' \<noteq> []" using gs gs' Cons.hyps chain_from_length by fastforce+
    then have "last gs = last gs'" using Cons.prems(6) gs gs' by simp
    then show ?thesis
      using Cons.IH [OF False _ _ gs(1) gs'(1) _ no(1)] assms(5) by blast
  qed
  moreover from this have "?q = ?q'" using no(2) by blast
  then have "cur = cur'" "h ?p = h ?p'" using Cons.prems(2,3) by simp_all
  moreover from this have "content r = content r'" using no(3) leaf_preimage_inject [OF t t'] by blast
  ultimately show ?case by simp
qed

definition hash32 :: "(bytes \<Rightarrow> bytes) \<Rightarrow> bool" where
  "hash32 h \<longleftrightarrow> (\<forall>x. length (h x) = 32)"

lemma HeadOf_nonempty:
  "rs \<noteq> [] \<Longrightarrow> HeadOf h rs = Inr x \<longleftrightarrow> (\<exists>hs. chainHeads h rs = Inr hs \<and> x = last hs)"
  using chain_from_length [of h "genesisHead h" rs] by (auto simp: HeadOf_def chainHeads_def bind_result_Inr_iff)

lemma chainHeads_inject:
  assumes "hash32 h" "length rs = length rs'" "rs \<noteq> []" "chainHeads h rs = Inr hs" "chainHeads h rs' = Inr hs'"
    and "last hs = last hs'" "\<not> collide h rs rs'"
  shows "map content rs = map content rs'"
  using chain_from_inject [OF assms(2,3), of "genesisHead h" "genesisHead h" h hs hs'] assms
  by (simp add: hash32_def chainHeads_def genesisHead_def collide_def hashed_def)

lemma chain_from_take:
  "chain_from h cur rs = Inr hs \<Longrightarrow> chain_from h cur (take n rs) = Inr (take n hs)"
proof (induction rs arbitrary: cur hs n)
  case Nil
  then show ?case by simp
next
  case (Cons r rs)
  then show ?case by (cases n) (auto simp: result_simps Let_def)
qed

lemma set_hashed_take: "set (hashed_from h cur (take n rs)) \<subseteq> set (hashed_from h cur rs)"
proof (induction rs arbitrary: cur n)
  case Nil
  then show ?case by simp
next
  case (Cons r rs)
  then show ?case by (cases n) (auto simp: Let_def split: sum.splits)
qed

lemma go_int_small:
  fixes w :: u64
  assumes "w < 2 ^ 62"
  shows "go_int w = int (unat w)" "wrap64 (int (unat w) + 1) = int (unat w) + 1"
proof -
  obtain k where k: "unat w = k" by simp
  then have "k < 2 ^ 62" using assms by (simp add: word_less_nat_alt)
  then have "is_int64 (int k)" "is_int64 (int k + 1)" by (auto simp: is_int64_def)
  moreover have "uint w = int k" using k by (metis int_nat_eq uint_nonnegative unat_eq_nat_uint of_nat_nat nat_int)
  ultimately show "go_int w = int (unat w)" "wrap64 (int (unat w) + 1) = int (unat w) + 1"
    unfolding k go_int_def by (simp_all add: wrap64_id)
qed

text \<open>What an accepted log tells: the head recomputed from the records is the signed one.\<close>

lemma VerifyLog_Inr:
  assumes "VerifyLog h F pub rs sth = Inr ()" "sh_Seq sth < 2 ^ 62"
  shows "length rs = Suc (unat (sh_Seq sth))
    \<and> (\<exists>hs. chainHeads h rs = Inr hs \<and> length hs = length rs \<and> parseHead sth = Inr (last hs))"
proof -
  have "int (unat (sh_Seq sth)) + 1 = int (length rs)"
    using assms go_int_small [OF assms(2)] by (simp add: VerifyLog_def guard_Inr_iff)
  then have l: "length rs = Suc (unat (sh_Seq sth))" by linarith
  then have "rs \<noteq> []" by auto
  moreover obtain head where "HeadOf h rs = Inr head" "parseHead sth = Inr head"
    using assms(1) by (auto simp: VerifyLog_def result_simps)
  ultimately show ?thesis
    using l HeadOf_nonempty [of rs h head] chain_from_length by (auto simp: chainHeads_def)
qed

text \<open>
  C14: The log is append-only. If a client accepted an old log with its signed head, accepts a new log
  with a new signed head, and the consistency check passes between the old head and the new
  records, then the old records are, field by field, the first records of the new log: nothing the
  client has seen was changed, dropped or reordered. The only way out is two different strings
  hashed in computing the two logs that have the same SHA-256 value.
\<close>

theorem log_append_only:
  assumes "hash32 h" and "VerifyLog h F pub old sth = Inr ()" and "VerifyLog h F pub new sth' = Inr ()"
    and "VerifyConsistency h sth new = Inr ()" and "sh_Seq sth < 2 ^ 62"
    and "\<not> collide h old new"
  shows "length old \<le> length new \<and> map content old = map content (take (length old) new)"
proof -
  define n where "n = unat (sh_Seq sth)"
  obtain hs where old: "length old = Suc n" "chainHeads h old = Inr hs" "length hs = length old"
    "parseHead sth = Inr (last hs)"
    using VerifyLog_Inr [OF assms(2,5)] by (auto simp: n_def)
  have idx: "go_int (sh_Seq sth) = int n"
    using go_int_small(1) [OF assms(5)] by (simp add: n_def)
  obtain gs where gs: "chainHeads h new = Inr gs" "n < length new" "gs ! n = last hs"
    using assms(4) idx old(4) by (auto simp: VerifyConsistency_def Let_def result_simps split: if_splits)
  have "length gs = length new" using gs(1) chain_from_length by (auto simp: chainHeads_def)
  then have "last (take (Suc n) gs) = last hs" using gs by (simp add: take_Suc_conv_app_nth)
  moreover have "chainHeads h (take (Suc n) new) = Inr (take (Suc n) gs)"
    using gs(1) chain_from_take by (simp add: chainHeads_def)
  moreover have "\<not> collide h old (take (Suc n) new)"
    using assms(6) set_hashed_take [of h "genesisHead h" "Suc n" new] by (auto simp: collide_def hashed_def)
  moreover have "length old = length (take (Suc n) new)" "old \<noteq> []" using old(1) gs(2) by auto
  ultimately have "map content old = map content (take (Suc n) new)"
    using chainHeads_inject [OF assms(1), of old "take (Suc n) new" hs] old(2) by simp
  then show ?thesis using old(1) gs(2) by simp
qed

section \<open>The operator's side\<close>

text \<open>A log as the operator builds it: one append per vouched key.\<close>

definition append_all :: "key_record list \<Rightarrow> (u32 \<times> bytes \<times> u64) list \<Rightarrow> key_record list" where
  "append_all rs es = foldl (\<lambda>rs (kv, tkid, nb). fst (log_Append rs kv tkid nb)) rs es"

definition entry_ok :: "u32 \<times> bytes \<times> u64 \<Rightarrow> bool" where
  "entry_ok = (\<lambda>(kv, tkid, nb). length tkid = 32)"

definition record_ok :: "key_record \<Rightarrow> bool" where
  "record_ok r \<longleftrightarrow> (\<exists>tkid. kr_TokenKeyID r = hex_encode tkid \<and> length tkid = 32)"

lemma log_Append_records:
  "\<exists>r. fst (log_Append rs kv tkid nb) = rs @ [r] \<and> kr_TokenKeyID r = hex_encode tkid
     \<and> kr_Seq r = of_nat (length rs)"
  by (simp add: log_Append_def Let_def)

lemma append_all_extends:
  "list_all entry_ok es \<Longrightarrow> \<exists>ext. append_all rs es = rs @ ext \<and> list_all record_ok ext \<and> length ext = length es"
proof (induction es arbitrary: rs)
  case Nil
  then show ?case by (simp add: append_all_def)
next
  case (Cons e es)
  obtain kv tkid nb where e: "e = (kv, tkid, nb)" by (cases e)
  obtain r where r: "fst (log_Append rs kv tkid nb) = rs @ [r]" "kr_TokenKeyID r = hex_encode tkid"
    using log_Append_records by blast
  then have "record_ok r" using Cons.prems e by (auto simp: record_ok_def entry_ok_def)
  moreover obtain ext where "append_all (rs @ [r]) es = (rs @ [r]) @ ext" "list_all record_ok ext" "length ext = length es"
    using Cons.IH [of "rs @ [r]"] Cons.prems by auto
  ultimately show ?case using e r by (intro exI [of _ "r # ext"]) (simp add: append_all_def)
qed

lemma record_ok_leaf: "record_ok r \<Longrightarrow> \<exists>l. leafHash h r = Inr l"
  by (auto simp: record_ok_def leafHash_def tokenKeyIDBytes_def hex32_def)

lemma chain_ok: "list_all record_ok rs \<Longrightarrow> \<exists>hs. chain_from h cur rs = Inr hs"
proof (induction rs arbitrary: cur)
  case Nil
  then show ?case by simp
next
  case (Cons r rs)
  obtain l where l: "leafHash h r = Inr l" using record_ok_leaf Cons.prems by fastforce
  obtain hs where "chain_from h (chain_step h cur l) rs = Inr hs" using Cons by fastforce
  then show ?case using l by (simp add: Let_def)
qed

lemma chain_from_append_prefix:
  "chain_from h cur (rs @ ext) = Inr hs \<Longrightarrow> chain_from h cur rs = Inr (take (length rs) hs)"
  using chain_from_take [of h cur "rs @ ext" hs "length rs"] by simp

lemma parseHead_hex: "length x = 32 \<Longrightarrow> parseHead \<lparr>sh_Seq = q, sh_Head = hex_encode x, sh_Sig = s\<rparr> = Inr x"
  by (simp add: parseHead_def hex32_def)

lemma last_head_length:
  assumes "hash32 h" "chain_from h cur rs = Inr hs" "rs \<noteq> []"
  shows "length (last hs) = 32"
proof -
  have "\<forall>x \<in> set hs. length x = 32"
    using assms(1,2) by (induction rs arbitrary: cur hs) (auto simp: hash32_def chain_step_def result_simps Let_def)
  moreover have "hs \<noteq> []" using assms(2,3) chain_from_length by fastforce
  ultimately show ?thesis by simp
qed

lemma log_accepted:
  assumes "hash32 h" and "faest_correct F" and "rho_ok F rho" and "NewLogSigner F seed = Inr s"
    and "list_all entry_ok es" and "es \<noteq> []" and "length es < 2 ^ 62" and "list_all entry_ok es'"
  shows "\<exists>sth. log_Sign h F s (append_all NewKeyLog es) rho = Inr sth
    \<and> VerifyLog h F (Public s) (append_all NewKeyLog es) sth = Inr ()
    \<and> VerifyConsistency h sth (append_all (append_all NewKeyLog es) es') = Inr ()"
proof -
  define rs where "rs = append_all NewKeyLog es"
  have rs: "list_all record_ok rs" "length rs = length es" "rs \<noteq> []"
    using append_all_extends [OF assms(5), of NewKeyLog] assms(6) by (auto simp: rs_def NewKeyLog_def)
  obtain ext where ext: "append_all rs es' = rs @ ext" "list_all record_ok ext"
    using append_all_extends [OF assms(8), of rs] by blast
  obtain hs where hs: "chainHeads h (rs @ ext) = Inr hs"
    using chain_ok [of "rs @ ext" h "genesisHead h"] rs(1) ext(2) by (auto simp: chainHeads_def)
  define head where "head = last (take (length rs) hs)"
  have pre: "chainHeads h rs = Inr (take (length rs) hs)"
    using hs chain_from_append_prefix by (simp add: chainHeads_def)
  have len: "length hs = length rs + length ext" using hs chain_from_length by (fastforce simp: chainHeads_def)
  have hd: "HeadOf h rs = Inr head" using HeadOf_nonempty [OF rs(3)] pre by (simp add: head_def)
  have h32: "length head = 32" using last_head_length [OF assms(1) _ rs(3)] pre by (simp add: chainHeads_def head_def)
  define n where "n = length rs - 1"
  define q :: u64 where "q = of_nat n"
  have n: "length rs = Suc n" "n < 2 ^ 62" using rs assms(6,7) by (auto simp: n_def)
  have q1: "unat q = n" using n(2) by (simp add: q_def unsigned_of_nat take_bit_nat_eq_self)
  then have q: "unat q = n" "q < 2 ^ 62" using n(2) by (simp_all add: word_less_nat_alt)
  have nth: "hs ! n = head"
    using n(1) len by (simp add: head_def take_Suc_conv_app_nth)
  define sth where "sth = \<lparr>sh_Seq = q, sh_Head = hex_encode head,
      sh_Sig = b64std_encode (fa_Sign F (sthMessage q head) (sg_sk s) (signer_rho F rho))\<rparr>"
  have sign: "log_Sign h F s rs rho = Inr sth"
    using hd rs(3) by (simp add: log_Sign_def log_Head_def sth_def q_def n_def Let_def)
  have ver: "fa_Verify F (sthMessage q head) (pk_of_bytes (Public s))
      (fa_Sign F (sthMessage q head) (sg_sk s) (signer_rho F rho))"
    using new_signer_Inr [of "''tamayo/kt/log-signer''" F seed s] assms(2,4) length_signer_rho [OF assms(3)]
    by (auto simp: NewLogSigner_def new_signer_def result_simps)
  have parse: "parseHead sth = Inr head" using parseHead_hex [OF h32] by (simp add: sth_def)
  have "VerifyLog h F (Public s) rs sth = Inr ()"
    using go_int_small [OF q(2)] q(1) n(1) hd parse ver by (simp add: VerifyLog_def sth_def)
  moreover have "VerifyConsistency h sth (rs @ ext) = Inr ()"
    using go_int_small(1) [OF q(2)] q(1) n(1) hs parse nth by (simp add: VerifyConsistency_def sth_def Let_def)
  ultimately show ?thesis using sign ext(1) by (auto simp: rs_def)
qed

text \<open>
  C15: What the operator signs, clients accept, now and later. For every non-empty log built by
  appending 32-byte key ids, signing succeeds and the served records verify against the signed
  head under the operator's public key; and whatever keys are appended afterwards, the longer log
  passes the consistency check against that head.
\<close>

theorem operator_log_accepted:
  assumes "hash32 h" and "faest_correct F" and "rho_ok F rho" and "NewLogSigner F seed = Inr s"
    and "list_all entry_ok es" and "es \<noteq> []" and "length es < 2 ^ 62" and "list_all entry_ok es'"
  shows "\<exists>sth. log_Sign h F s (append_all NewKeyLog es) rho = Inr sth
    \<and> VerifyLog h F (Public s) (append_all NewKeyLog es) sth = Inr ()
    \<and> VerifyConsistency h sth (append_all (append_all NewKeyLog es) es') = Inr ()"
  using assms by (rule log_accepted)

text \<open>
  The consistency check can crash. An old head whose sequence number is at least 2 to the 63
  converts to a negative index, which passes the length check; if the head parses and the new
  records hash, the check panics with an index out of range instead of returning an error.
\<close>

lemma VerifyConsistency_panics:
  assumes "2 ^ 63 \<le> uint (sh_Seq old)" and "parseHead old = Inr want" and "chainHeads h new = Inr heads"
  shows "VerifyConsistency h old new = Inl EIndexPanic"
proof -
  have "uint (sh_Seq old) < 2 ^ 64" using uint_lt2p [of "sh_Seq old"] by simp
  then have "(uint (sh_Seq old) + 2 ^ 63) mod 2 ^ 64 = uint (sh_Seq old) - 2 ^ 63"
    using assms(1) mod_pos_pos_trivial [of "uint (sh_Seq old) - 2 ^ 63" "2 ^ 64"]
      mod_add_self2 [of "uint (sh_Seq old) - 2 ^ 63" "2 ^ 64"] by (simp add: add.commute)
  then have "go_int (sh_Seq old) < 0"
    using \<open>uint (sh_Seq old) < 2 ^ 64\<close> by (simp add: go_int_def wrap64_def)
  then show ?thesis using assms(2,3) by (simp add: VerifyConsistency_def Let_def guard_def)
qed

text \<open>A stand-in hash for concrete runs: the length of the input, 32 times.\<close>

definition toy_hash32 :: "bytes \<Rightarrow> bytes" where
  "toy_hash32 x = replicate 32 (of_nat (length x))"

lemma hash32_toy: "hash32 toy_hash32"
  by (simp add: hash32_def toy_hash32_def)

lemma toy_hash32_differs: "length x = 69 \<Longrightarrow> length y = 81 \<Longrightarrow> toy_hash32 x \<noteq> toy_hash32 y"
  by (simp add: toy_hash32_def)

definition toy_log_signer :: signer where
  "toy_log_signer = \<lparr>sg_sk = [7], sg_pk = \<lparr>OwfInput = replicate 16 7, OwfOutput = replicate 16 8\<rparr>\<rparr>"

lemma toy_log_signer: "NewLogSigner toy_faest (replicate 32 1) = Inr toy_log_signer"
  by (simp add: NewLogSigner_def toy_faest_def toy_log_signer_def)

theorem operator_log_accepted_witness:
  "\<exists>sth. log_Sign toy_hash32 toy_faest toy_log_signer (append_all NewKeyLog [(1, replicate 32 9, 0)]) None = Inr sth
    \<and> VerifyConsistency toy_hash32 sth
        (append_all (append_all NewKeyLog [(1, replicate 32 9, 0)]) [(2, replicate 32 8, 5)]) = Inr ()"
proof -
  have "rho_ok toy_faest None" "list_all entry_ok [(1 :: u32, replicate 32 (9 :: byte), 0 :: u64)]"
    "[(1 :: u32, replicate 32 (9 :: byte), 0 :: u64)] \<noteq> []"
    "length [(1 :: u32, replicate 32 (9 :: byte), 0 :: u64)] < 2 ^ 62"
    "list_all entry_ok [(2 :: u32, replicate 32 (8 :: byte), 5 :: u64)]"
    by (simp_all add: rho_ok_def entry_ok_def)
  from operator_log_accepted [OF hash32_toy toy_faest_correct this(1) toy_log_signer this(2-5)]
  show ?thesis by blast
qed

definition one_record :: "key_record list" where
  "one_record = [\<lparr>kr_Seq = 0, kr_KeyVersion = 1, kr_TokenKeyID = hex_encode (replicate 32 9), kr_NotBefore = 0\<rparr>]"

lemma one_record_chain: "\<exists>hs. chainHeads toy_hash32 one_record = Inr hs"
  using chain_ok [of one_record toy_hash32 "genesisHead toy_hash32"]
  by (auto simp: one_record_def record_ok_def chainHeads_def)

lemma log_Sign_Seq:
  "log_Sign h F s rs rho = Inr sth \<Longrightarrow> sh_Seq sth = (if 0 < length rs then of_nat (length rs - 1) else 0)"
  by (auto simp: log_Sign_def bind_result_Inr_iff Let_def)

theorem log_append_only_witness:
  "\<exists>sth. VerifyLog toy_hash32 toy_faest (Public toy_log_signer) one_record sth = Inr ()
    \<and> VerifyConsistency toy_hash32 sth one_record = Inr ()
    \<and> map content one_record = map content (take (length one_record) one_record)"
proof -
  have es: "append_all NewKeyLog [(1, replicate 32 9, 0)] = one_record" "append_all one_record [] = one_record"
    by (simp_all add: append_all_def NewKeyLog_def log_Append_def one_record_def)
  have ok: "rho_ok toy_faest None" "list_all entry_ok [(1 :: u32, replicate 32 (9 :: byte), 0 :: u64)]"
    "[(1 :: u32, replicate 32 (9 :: byte), 0 :: u64)] \<noteq> []"
    "length [(1 :: u32, replicate 32 (9 :: byte), 0 :: u64)] < 2 ^ 62" "list_all entry_ok []"
    by (simp_all add: rho_ok_def entry_ok_def)
  obtain sth where sth: "VerifyLog toy_hash32 toy_faest (Public toy_log_signer) one_record sth = Inr ()"
    "VerifyConsistency toy_hash32 sth one_record = Inr ()"
    "log_Sign toy_hash32 toy_faest toy_log_signer one_record None = Inr sth"
    using log_accepted [OF hash32_toy toy_faest_correct ok(1) toy_log_signer ok(2-5)] unfolding es by blast
  have seq: "sh_Seq sth < 2 ^ 62" using log_Sign_Seq [OF sth(3)] by (simp add: one_record_def)
  let ?leaf = "leaf_preimage (hd one_record) (replicate 32 9)"
  let ?node = "headDomain @ genesisHead toy_hash32 @ toy_hash32 ?leaf"
  have hashed: "set (hashed toy_hash32 one_record) = {?leaf, ?node}"
    by (simp add: hashed_def one_record_def tokenKeyIDBytes_def hex32_def Let_def)
  have "length ?leaf = 69" "length ?node = 81"
    by (simp_all add: leaf_preimage_def leafDomain_def headDomain_def genesisHead_def toy_hash32_def)
  then have "toy_hash32 ?leaf \<noteq> toy_hash32 ?node" by (rule toy_hash32_differs)
  then have "\<not> collide toy_hash32 one_record one_record" by (auto simp: collide_def hashed)
  from log_append_only [OF hash32_toy sth(1) sth(1,2) seq this] sth show ?thesis by blast
qed

lemma hex_digit_lower: "n < 16 \<Longrightarrow> is_ascii (hex_digit n) \<and> ascii_lower (hex_digit n) = hex_digit n"
proof -
  have "\<forall>n < 16. is_ascii (hex_digit n) \<and> ascii_lower (hex_digit n) = hex_digit n"
    by (simp add: hex_digit_def All_less_Suc numeral_eq_Suc is_ascii_def ascii_lower_def)
  then show "n < 16 \<Longrightarrow> is_ascii (hex_digit n) \<and> ascii_lower (hex_digit n) = hex_digit n" by blast
qed

lemma hex_encode_lower: "list_all is_ascii (hex_encode x) \<and> map ascii_lower (hex_encode x) = hex_encode x"
proof (induction x)
  case Nil
  then show ?case by (simp add: hex_encode_def)
next
  case (Cons b x)
  have "unat b div 16 < 16" "unat b mod 16 < 16" using unat_byte_bound [of b] by (simp_all add: less_mult_imp_div_less)
  then show ?case using Cons hex_digit_lower by (simp add: hex_encode_def)
qed

lemma equal_fold_hex: "equal_fold u (hex_encode x) (hex_encode y) \<longleftrightarrow> x = y"
  using hex_encode_lower [of x] hex_encode_lower [of y] by (simp add: equal_fold_ascii)

text \<open>
  Inclusion finds the first record of a key. On a log of operator records, the inclusion check
  succeeds for a 32-byte key id exactly when some record carries it, and returns the sequence
  number of the first such record.
\<close>

lemma VerifyInclusion_first:
  assumes "list_all record_ok rs"
  shows "VerifyInclusion u rs tkid =
     (case find (\<lambda>r. tokenKeyIDBytes r = Inr tkid) rs of None \<Rightarrow> Inl ErrNotIncluded | Some r \<Rightarrow> Inr (kr_Seq r))"
proof -
  have "equal_fold u (trim_space (kr_TokenKeyID r)) (hex_encode tkid) \<longleftrightarrow> tokenKeyIDBytes r = Inr tkid"
    if "r \<in> set rs" for r
    using that assms by (auto simp: list_all_iff record_ok_def tokenKeyIDBytes_def hex32_def equal_fold_hex)
  then have "find (\<lambda>r. equal_fold u (trim_space (kr_TokenKeyID r)) (hex_encode tkid)) rs =
      find (\<lambda>r. tokenKeyIDBytes r = Inr tkid) rs" by (intro find_cong) simp_all
  then show ?thesis by (simp add: VerifyInclusion_def)
qed

end
