(* ===== verification/Journal.thy ===== *)
theory Journal
  imports TokenService
begin

text \<open>
  The durable state of the reference runtime (\<^verbatim>\<open>cmd/tamayo/state.go\<close>): an append-only file of JSON
  lines, one per spend, presentation nonce and budget reservation, replayed into fresh stores when
  the server starts. The file is a byte string; each write has an outcome chosen by the environment
  (complete, cut short after some bytes, or complete but not synced); the JSON codec is a parameter.
  The main results are about runs with restarts in them: an acknowledged spend stays spent, an
  acknowledged presentation nonce stays used, and a window's grants stay within the limit. Two
  lemmas show what a restart does with a torn or an overlong line.
\<close>

section \<open>Records, codec and file\<close>

record state_record =
  sr_T :: string
  sr_Epoch :: u32
  sr_Nonce :: string
  sr_Key :: string
  sr_BudgetKey :: string
  sr_Amount :: int
  sr_Limit :: int
  sr_WindowS :: int
  sr_Unix :: int

definition no_record :: state_record where
  "no_record = \<lparr>sr_T = [], sr_Epoch = 0, sr_Nonce = [], sr_Key = [], sr_BudgetKey = [], sr_Amount = 0,
     sr_Limit = 0, sr_WindowS = 0, sr_Unix = 0\<rparr>"

text \<open>\<^verbatim>\<open>json.Marshal\<close> and \<^verbatim>\<open>json.Unmarshal\<close> at this record type.\<close>

record rec_json =
  rj_Marshal :: "state_record \<Rightarrow> bytes option"
  rj_Unmarshal :: "bytes \<Rightarrow> state_record option"

datatype journal_error =
    EMarshal | EWrite | ESync
  | EMkdir | EOpenFile | ETooLong
  | EBadLine nat | EBadSpendNonce nat | EBadPvtKey nat | EUnknownRecord nat string

text \<open>What becomes of one write: \<^verbatim>\<open>WriteFails n\<close> leaves the first \<^verbatim>\<open>n\<close> bytes of the line in the file.\<close>

datatype write_outcome = WroteAll | WriteFails nat | SyncFails

text \<open>A journal is the file it appends to; nil is the in-memory configuration.\<close>

type_synonym journal = "bytes option"

definition newline :: byte where "newline = 10"

definition journal_append ::
  "rec_json \<Rightarrow> write_outcome \<Rightarrow> journal \<Rightarrow> state_record \<Rightarrow> journal \<times> journal_error option" where
  "journal_append J w j rec =
     (case j of None \<Rightarrow> (None, None)
      | Some f \<Rightarrow>
          (case rj_Marshal J rec of None \<Rightarrow> (Some f, Some EMarshal)
           | Some raw \<Rightarrow>
               (case w of
                  WroteAll \<Rightarrow> (Some (f @ raw @ [newline]), None)
                | WriteFails n \<Rightarrow> (Some (f @ take n (raw @ [newline])), Some EWrite)
                | SyncFails \<Rightarrow> (Some (f @ raw @ [newline]), Some ESync))))"

definition spend_record :: "u32 \<Rightarrow> bytes \<Rightarrow> state_record" where
  "spend_record epoch nonce =
     no_record\<lparr>sr_T := ''spend'', sr_Epoch := epoch, sr_Nonce := b64url_encode nonce\<rparr>"

definition journal_spend ::
  "rec_json \<Rightarrow> write_outcome \<Rightarrow> journal \<Rightarrow> u32 \<Rightarrow> bytes \<Rightarrow> journal \<times> journal_error option" where
  "journal_spend J w j epoch nonce = journal_append J w j (spend_record epoch nonce)"

definition pvt_record :: "string \<Rightarrow> state_record" where
  "pvt_record key = no_record\<lparr>sr_T := ''pvt'', sr_Key := b64url_encode (bytes_of key)\<rparr>"

definition journal_pvt ::
  "rec_json \<Rightarrow> write_outcome \<Rightarrow> journal \<Rightarrow> string \<Rightarrow> journal \<times> journal_error option" where
  "journal_pvt J w j key = journal_append J w j (pvt_record key)"

definition budget_record :: "string \<Rightarrow> int \<Rightarrow> int \<Rightarrow> duration \<Rightarrow> gotime \<Rightarrow> state_record" where
  "budget_record key amount limit window now =
     no_record\<lparr>sr_T := ''budget'', sr_BudgetKey := key, sr_Amount := amount, sr_Limit := limit,
       sr_WindowS := window sdiv second, sr_Unix := unix now\<rparr>"

text \<open>\<^verbatim>\<open>journaledBudgets.Reserve\<close>: the inner store first, then the journal.\<close>

definition journaled_Reserve :: "rec_json \<Rightarrow> write_outcome \<Rightarrow> (budget_store \<times> journal) reserve_fun" where
  "journaled_Reserve J w s key amount limit window now =
     (case Reserve (fst s) key amount limit window now of
        (m, Some e) \<Rightarrow> ((m, snd s), Some e)
      | (m, None) \<Rightarrow>
          (case journal_append J w (snd s) (budget_record key amount limit window now) of
             (j, None) \<Rightarrow> ((m, j), None)
           | (j, Some _) \<Rightarrow> ((m, j), Some ErrStore)))"

section \<open>Replay\<close>

record stores =
  st_spent :: memory_spent
  st_seen :: "string set"
  st_budgets :: budget_store

definition fresh_stores :: stores where
  "fresh_stores = \<lparr>st_spent = NewMemorySpentStore, st_seen = {}, st_budgets = NewMemoryBudgetStore\<rparr>"

text \<open>
  \<^verbatim>\<open>bufio.Scanner\<close> with a 1 MiB buffer: lines end at a newline, a last line may lack it, a carriage
  return before the end is dropped, and a line that does not fit the buffer ends the scan.
\<close>

definition maxLine :: nat where "maxLine = 2 ^ 20"

fun split_lines :: "bytes \<Rightarrow> bytes \<Rightarrow> bytes list" where
  "split_lines acc [] = (if acc = [] then [] else [acc])"
| "split_lines acc (b # bs) = (if b = newline then acc # split_lines [] bs else split_lines (acc @ [b]) bs)"

definition drop_cr :: "bytes \<Rightarrow> bytes" where
  "drop_cr l = (if l \<noteq> [] \<and> last l = 13 then butlast l else l)"

definition scan_lines :: "bytes \<Rightarrow> bytes list \<times> bool" where
  "scan_lines f =
     (let ls = split_lines [] f in
      (map drop_cr (takeWhile (\<lambda>l. length l < maxLine) ls), list_all (\<lambda>l. length l < maxLine) ls))"

definition replay_record :: "nat \<Rightarrow> stores \<Rightarrow> state_record \<Rightarrow> (journal_error, stores) result" where
  "replay_record line st rec =
     (if sr_T rec = ''spend'' then
        (case b64url_decode (sr_Nonce rec) of
           Some v \<Rightarrow> if length v = 32 then Inr (st\<lparr>st_spent := fst (CheckAndMark (st_spent st) (sr_Epoch rec) v)\<rparr>)
                     else Inl (EBadSpendNonce line)
         | None \<Rightarrow> Inl (EBadSpendNonce line))
      else if sr_T rec = ''pvt'' then
        (case b64url_decode (sr_Key rec) of
           Some v \<Rightarrow> Inr (st\<lparr>st_seen := insert (string_of v) (st_seen st)\<rparr>)
         | None \<Rightarrow> Inl (EBadPvtKey line))
      else if sr_T rec = ''budget'' then
        Inr (st\<lparr>st_budgets := fst (Reserve (st_budgets st) (sr_BudgetKey rec) (sr_Amount rec) (sr_Limit rec)
               (seconds (sr_WindowS rec)) (time_unix (sr_Unix rec)))\<rparr>)
      else Inl (EUnknownRecord line (sr_T rec)))"

fun replay_lines :: "rec_json \<Rightarrow> nat \<Rightarrow> stores \<Rightarrow> bytes list \<Rightarrow> stores \<times> journal_error option" where
  "replay_lines J n st [] = (st, None)"
| "replay_lines J n st (l # ls) =
     (case rj_Unmarshal J l of
        None \<Rightarrow> (st, Some (EBadLine n))
      | Some rec \<Rightarrow>
          (case replay_record n st rec of
             Inl e \<Rightarrow> (st, Some e)
           | Inr st' \<Rightarrow> replay_lines J (Suc n) st' ls))"

text \<open>The state directory as the process finds it.\<close>

record state_dir =
  sd_mkdir_ok :: bool
  sd_file :: "bytes option"
  sd_readable :: bool
  sd_append_ok :: bool

definition openJournal :: "rec_json \<Rightarrow> state_dir \<Rightarrow> stores \<Rightarrow> stores \<times> (journal_error, journal) result" where
  "openJournal J d st =
     (if \<not> sd_mkdir_ok d then (st, Inl EMkdir)
      else
        (case (case sd_file d of
                 Some raw \<Rightarrow>
                   if sd_readable d then
                     (case scan_lines raw of (ls, complete) \<Rightarrow>
                        (case replay_lines J 1 st ls of
                           (st', Some e) \<Rightarrow> (st', Some e)
                         | (st', None) \<Rightarrow> (st', if complete then None else Some ETooLong)))
                   else (st, None)
               | None \<Rightarrow> (st, None)) of
           (st', Some e) \<Rightarrow> (st', Inl e)
         | (st', None) \<Rightarrow>
             if sd_append_ok d then (st', Inr (Some (case sd_file d of None \<Rightarrow> [] | Some raw \<Rightarrow> raw)))
             else (st', Inl EOpenFile)))"

text \<open>The directory of a process that comes back to the file it wrote.\<close>

definition left_behind :: "bytes \<Rightarrow> state_dir" where
  "left_behind f = \<lparr>sd_mkdir_ok = True, sd_file = Some f, sd_readable = True, sd_append_ok = True\<rparr>"

section \<open>Operations on a journaled server, with restarts\<close>

datatype journal_op =
    JSpend u32 bytes write_outcome
  | JPvt string write_outcome
  | JReserve string int int duration gotime write_outcome
  | JCrash
  | JRestart

datatype journal_out = Acked | Refused | NotStored | Unavailable

text \<open>The stores of a running process, or nothing while it is down, and the file.\<close>

type_synonym journal_state = "stores option \<times> journal"

definition ack :: "journal_error option \<Rightarrow> journal_out" where
  "ack e = (case e of None \<Rightarrow> Acked | Some _ \<Rightarrow> NotStored)"

text \<open>A spend as the verification handler makes it: the spent set first, then the journal.\<close>

definition do_spend ::
  "rec_json \<Rightarrow> write_outcome \<Rightarrow> stores \<times> journal \<Rightarrow> u32 \<Rightarrow> bytes \<Rightarrow> (stores \<times> journal) \<times> journal_out" where
  "do_spend J w s e n =
     (case CheckAndMark (st_spent (fst s)) e n of
        (m, Some _) \<Rightarrow> (((fst s)\<lparr>st_spent := m\<rparr>, snd s), Refused)
      | (m, None) \<Rightarrow>
          (case journal_spend J w (snd s) e n of
             (j, err) \<Rightarrow> (((fst s)\<lparr>st_spent := m\<rparr>, j), ack err)))"

definition do_pvt ::
  "rec_json \<Rightarrow> write_outcome \<Rightarrow> stores \<times> journal \<Rightarrow> string \<Rightarrow> (stores \<times> journal) \<times> journal_out" where
  "do_pvt J w s key =
     (if key \<in> st_seen (fst s) then (s, Refused)
      else
        (case journal_pvt J w (snd s) key of
           (j, err) \<Rightarrow> (((fst s)\<lparr>st_seen := insert key (st_seen (fst s))\<rparr>, j), ack err)))"

definition do_reserve ::
  "rec_json \<Rightarrow> write_outcome \<Rightarrow> stores \<times> journal \<Rightarrow> string \<Rightarrow> int \<Rightarrow> int \<Rightarrow> duration \<Rightarrow> gotime \<Rightarrow>
   (stores \<times> journal) \<times> budget_error option" where
  "do_reserve J w s key a l win t =
     (case journaled_Reserve J w (st_budgets (fst s), snd s) key a l win t of
        ((m, j), err) \<Rightarrow> (((fst s)\<lparr>st_budgets := m\<rparr>, j), err))"

definition restart :: "rec_json \<Rightarrow> journal \<Rightarrow> journal_state \<times> journal_out" where
  "restart J j =
     (case j of
        None \<Rightarrow> ((Some fresh_stores, None), Acked)
      | Some f \<Rightarrow>
          (case openJournal J (left_behind f) fresh_stores of
             (st, Inr j') \<Rightarrow> ((Some st, j'), Acked)
           | (st, Inl _) \<Rightarrow> ((None, j), Unavailable)))"

fun journal_step :: "rec_json \<Rightarrow> journal_state \<Rightarrow> journal_op \<Rightarrow> journal_state \<times> journal_out" where
  "journal_step J (Some st, j) (JSpend e n w) = apfst (apfst Some) (do_spend J w (st, j) e n)"
| "journal_step J (Some st, j) (JPvt key w) = apfst (apfst Some) (do_pvt J w (st, j) key)"
| "journal_step J (Some st, j) (JReserve key a l win t w) =
     (case do_reserve J w (st, j) key a l win t of
        (s, None) \<Rightarrow> (apfst Some s, Acked) | (s, Some _) \<Rightarrow> (apfst Some s, Refused))"
| "journal_step J (st, j) JCrash = ((None, j), Unavailable)"
| "journal_step J (st, j) JRestart = restart J j"
| "journal_step J (None, j) i = ((None, j), Unavailable)"

section \<open>What the file says\<close>

datatype entry = Spent u32 bytes | Used string | Reserved string int int duration gotime

fun record_of :: "entry \<Rightarrow> state_record" where
  "record_of (Spent e n) = spend_record e n"
| "record_of (Used key) = pvt_record key"
| "record_of (Reserved key a l win t) = budget_record key a l win t"

fun apply_entry :: "stores \<Rightarrow> entry \<Rightarrow> stores" where
  "apply_entry st (Spent e n) = st\<lparr>st_spent := insert (e, n) (st_spent st)\<rparr>"
| "apply_entry st (Used key) = st\<lparr>st_seen := insert key (st_seen st)\<rparr>"
| "apply_entry st (Reserved key a l win t) = st\<lparr>st_budgets := fst (Reserve (st_budgets st) key a l win t)\<rparr>"

definition restored :: "entry list \<Rightarrow> stores" where
  "restored es = foldl apply_entry fresh_stores es"

text \<open>Strings short enough that their escaped form fits a line, and numbers of their Go types.\<close>

definition rec_sane :: "state_record \<Rightarrow> bool" where
  "rec_sane r \<longleftrightarrow> ascii (sr_T r) \<and> ascii (sr_Nonce r) \<and> ascii (sr_Key r) \<and> ascii (sr_BudgetKey r)
     \<and> is_int64 (sr_Amount r) \<and> is_int64 (sr_Limit r) \<and> is_int64 (sr_WindowS r) \<and> is_int64 (sr_Unix r)
     \<and> length (sr_T r) + length (sr_Nonce r) + length (sr_Key r) + length (sr_BudgetKey r) \<le> 2 ^ 17"

text \<open>
  Go's JSON codec at the record type: the encoding of a sane record is one line, decodes to the
  record and fits the scanner's buffer (an ASCII character takes at most six bytes).
\<close>

definition json_line :: "rec_json \<Rightarrow> state_record \<Rightarrow> bytes \<Rightarrow> bool" where
  "json_line J r raw \<longleftrightarrow> rj_Marshal J r = Some raw \<and> rj_Unmarshal J raw = Some r \<and> newline \<notin> set raw
     \<and> raw \<noteq> [] \<and> last raw \<noteq> 13 \<and> length raw < maxLine"

definition json_lines :: "rec_json \<Rightarrow> bool" where
  "json_lines J \<longleftrightarrow> (\<forall>r. rec_sane r \<longrightarrow> (\<exists>raw. json_line J r raw))"

text \<open>
  Requests whose records are sane. A window counts as whole when it is a number of seconds (or
  below one second, which the store rounds to one); a reservation outside that is charged to
  another counter on replay.
\<close>

definition whole_window :: "duration \<Rightarrow> bool" where
  "whole_window w \<longleftrightarrow> (w sdiv second \<le> 0 \<or> w sdiv second * second = w) \<and> is_int64 w"

definition reserve_sane :: "string \<Rightarrow> int \<Rightarrow> int \<Rightarrow> duration \<Rightarrow> gotime \<Rightarrow> bool" where
  "reserve_sane key a l win t \<longleftrightarrow> ascii key \<and> length key \<le> 2 ^ 16 \<and> small_req a l \<and> is_int64 a \<and> is_int64 l
     \<and> whole_window win \<and> \<bar>unix t\<bar> < 2 ^ 62"

fun entry_sane :: "entry \<Rightarrow> bool" where
  "entry_sane (Spent e n) \<longleftrightarrow> length n = 32"
| "entry_sane (Used key) \<longleftrightarrow> length key \<le> 2 ^ 15"
| "entry_sane (Reserved key a l win t) \<longleftrightarrow> reserve_sane key a l win t"

text \<open>Writes that leave a whole line or nothing.\<close>

fun clean :: "write_outcome \<Rightarrow> bool" where
  "clean (WriteFails n) \<longleftrightarrow> n = 0"
| "clean _ \<longleftrightarrow> True"

fun journal_op_sane :: "journal_op \<Rightarrow> bool" where
  "journal_op_sane (JSpend e n w) \<longleftrightarrow> entry_sane (Spent e n) \<and> clean w"
| "journal_op_sane (JPvt key w) \<longleftrightarrow> entry_sane (Used key) \<and> clean w"
| "journal_op_sane (JReserve key a l win t w) \<longleftrightarrow> entry_sane (Reserved key a l win t) \<and> clean w"
| "journal_op_sane JCrash \<longleftrightarrow> True"
| "journal_op_sane JRestart \<longleftrightarrow> True"

definition line_of :: "rec_json \<Rightarrow> entry \<Rightarrow> bytes" where
  "line_of J e = (case rj_Marshal J (record_of e) of None \<Rightarrow> [] | Some raw \<Rightarrow> raw @ [newline])"

definition journal_file :: "rec_json \<Rightarrow> entry list \<Rightarrow> bytes" where
  "journal_file J es = concat (map (line_of J) es)"

section \<open>Replaying a well-formed file\<close>

lemma length_sextets: "3 * length (sextets bs) \<le> 4 * length bs + 4 \<and> 4 * length bs \<le> 3 * length (sextets bs)"
  by (induction bs rule: sextets.induct) auto

lemma length_b64url_encode:
  "3 * length (b64url_encode bs) \<le> 4 * length bs + 4" "4 * length bs \<le> 3 * length (b64url_encode bs)"
  using length_sextets [of bs] by (simp_all add: b64url_encode_def)

lemma ascii_fixed [simp]: "ascii ''spend''" "ascii ''pvt''" "ascii ''budget''" "ascii []"
  by (simp_all add: ascii_def is_ascii_def)

lemma is_int64_small [simp]: "is_int64 0" "small_req a l \<Longrightarrow> l < 2 ^ 62"
  by (simp_all add: is_int64_def small_req_def)

lemma is_int64_sdiv: "is_int64 w \<Longrightarrow> is_int64 (w sdiv second)"
proof (cases "0 \<le> w")
  case True
  assume "is_int64 w"
  with True show ?thesis using sdiv_le_self [of w second] pos_imp_zdiv_nonneg_iff [of second w]
    by (simp add: sdiv_nonneg is_int64_def)
next
  case False
  assume w: "is_int64 w"
  have "w sdiv second = - (- w div second)"
    using False by (simp add: signed_divide_int_def second_def)
  moreover have "- w div second \<le> - w" "0 \<le> - w div second"
    using False zdiv_mono2 [of "- w" 1 second] by (simp_all add: pos_imp_zdiv_nonneg_iff second_def)
  ultimately show ?thesis using w by (simp add: is_int64_def)
qed

lemma rec_sane_record_of: "entry_sane e \<Longrightarrow> rec_sane (record_of e)"
proof (cases e)
  case (Spent ep n)
  assume "entry_sane e"
  then show ?thesis using Spent length_b64url_encode(1) [of n]
    by (simp add: rec_sane_def spend_record_def no_record_def ascii_b64url)
next
  case (Used key)
  assume "entry_sane e"
  then show ?thesis using Used length_b64url_encode(1) [of "bytes_of key"]
    by (simp add: rec_sane_def pvt_record_def no_record_def ascii_b64url)
next
  case (Reserved key a l win t)
  assume "entry_sane e"
  then show ?thesis using Reserved is_int64_sdiv [of win]
    by (simp add: rec_sane_def budget_record_def no_record_def reserve_sane_def whole_window_def
        is_int64_def [of "unix t"] abs_less_iff)
qed

lemma line_of_sane:
  assumes "json_lines J" "entry_sane e"
  obtains raw where "json_line J (record_of e) raw" "line_of J e = raw @ [newline]"
  using assms rec_sane_record_of [of e] by (auto simp: json_lines_def json_line_def line_of_def)

lemma split_lines_line:
  "newline \<notin> set raw \<Longrightarrow> split_lines acc (raw @ newline # f) = (acc @ raw) # split_lines [] f"
  by (induction raw arbitrary: acc) auto

lemma split_lines_partial:
  "newline \<notin> set raw \<Longrightarrow> split_lines acc raw = (if acc @ raw = [] then [] else [acc @ raw])"
  by (induction raw arbitrary: acc) auto

lemma split_lines_journal:
  assumes "json_lines J" "list_all entry_sane es"
  shows "split_lines [] (journal_file J es @ f) =
    map (\<lambda>e. the (rj_Marshal J (record_of e))) es @ split_lines [] f"
  using assms(2)
proof (induction es)
  case Nil
  then show ?case by (simp add: journal_file_def)
next
  case (Cons e es)
  obtain raw where "json_line J (record_of e) raw" "line_of J e = raw @ [newline]"
    using line_of_sane [OF assms(1)] Cons.prems by auto
  with Cons show ?case by (simp add: journal_file_def split_lines_line json_line_def)
qed

lemma time_unix_id: "\<bar>unix t\<bar> < 2 ^ 62 \<Longrightarrow> unix (time_unix (unix t)) = unix t"
  by (simp add: time_unix_small unix_def second_def)

lemma window_key_replayed:
  assumes "whole_window win" "\<bar>unix t\<bar> < 2 ^ 62"
  shows "window_key key (seconds (win sdiv second)) (time_unix (unix t)) = window_key key win t"
proof (cases "win sdiv second \<le> 0")
  case True
  have small: "seconds (win sdiv second) sdiv second \<le> 0"
  proof -
    have "win sdiv second * second = - (- win div second * second)" if "win < 0"
      using that by (simp add: signed_divide_int_def second_def)
    moreover have "- win div second * second \<le> - win"
      using div_mult_mod_eq [of "- win" second] pos_mod_sign [OF second_pos, of "- win"] by linarith
    moreover have "win sdiv second * second \<le> 0" using True by (simp add: mult_le_0_iff second_def)
    moreover have "win sdiv second = 0" if "0 \<le> win"
      using that True pos_imp_zdiv_nonneg_iff [of second win] by (simp add: sdiv_nonneg)
    ultimately have "is_int64 (win sdiv second * second)"
      using assms(1) by (cases "win < 0") (auto simp: whole_window_def is_int64_def)
    then have "seconds (win sdiv second) = win sdiv second * second" by (simp add: seconds_def wrap64_id)
    moreover have "(n * second) sdiv second = n" for n
      by (simp add: signed_divide_int_def abs_mult sgn_mult second_def sgn_mult_abs)
    ultimately show ?thesis using True by simp
  qed
  show ?thesis using True small assms(2) by (simp add: window_key_def Let_def time_unix_id)
next
  case False
  then have "win sdiv second * second = win" using assms(1) by (simp add: whole_window_def)
  then have "seconds (win sdiv second) = win" using assms(1) by (simp add: seconds_def wrap64_id whole_window_def)
  then show ?thesis using assms(2) by (simp add: window_key_def Let_def time_unix_id)
qed

lemma Reserve_replayed:
  "whole_window win \<Longrightarrow> \<bar>unix t\<bar> < 2 ^ 62 \<Longrightarrow>
   Reserve m key a l (seconds (win sdiv second)) (time_unix (unix t)) = Reserve m key a l win t"
  by (simp add: Reserve_def window_key_replayed)

lemma replay_record_of: "entry_sane e \<Longrightarrow> replay_record n st (record_of e) = Inr (apply_entry st e)"
proof (cases e)
  case (Spent ep nonce)
  assume "entry_sane e"
  then show ?thesis using Spent
    by (simp add: replay_record_def spend_record_def no_record_def CheckAndMark_def insert_absorb)
next
  case (Used key)
  then show ?thesis
    by (simp add: replay_record_def pvt_record_def no_record_def)
next
  case (Reserved key a l win t)
  assume "entry_sane e"
  then show ?thesis using Reserved
    by (simp add: replay_record_def budget_record_def no_record_def Reserve_replayed reserve_sane_def)
qed

lemma replay_lines_journal:
  assumes "json_lines J" "list_all entry_sane es"
  shows "replay_lines J n st (map (\<lambda>e. the (rj_Marshal J (record_of e))) es @ ls) =
    replay_lines J (n + length es) (foldl apply_entry st es) ls"
  using assms(2)
proof (induction es arbitrary: n st)
  case Nil
  then show ?case by simp
next
  case (Cons e es)
  obtain raw where "json_line J (record_of e) raw" using line_of_sane [OF assms(1)] Cons.prems by auto
  with Cons show ?case by (simp add: json_line_def replay_record_of)
qed

lemma journal_lines_fit:
  assumes "json_lines J" "list_all entry_sane es"
  shows "map drop_cr (map (\<lambda>e. the (rj_Marshal J (record_of e))) es) = map (\<lambda>e. the (rj_Marshal J (record_of e))) es
    \<and> list_all (\<lambda>l. length l < maxLine) (map (\<lambda>e. the (rj_Marshal J (record_of e))) es)"
  using assms(2)
proof (induction es)
  case Nil
  then show ?case by simp
next
  case (Cons e es)
  obtain raw where "json_line J (record_of e) raw" using line_of_sane [OF assms(1)] Cons.prems by auto
  with Cons show ?case by (simp add: json_line_def drop_cr_def)
qed

text \<open>A restart on a well-formed file followed by more bytes replays the entries and goes on with the rest.\<close>

lemma takeWhile_all: "list_all P xs \<Longrightarrow> takeWhile P (xs @ ys) = xs @ takeWhile P ys"
  by (induction xs) auto

lemma scan_lines_journal:
  assumes "json_lines J" "list_all entry_sane es"
  shows "scan_lines (journal_file J es @ f) =
    (map (\<lambda>e. the (rj_Marshal J (record_of e))) es @ fst (scan_lines f), snd (scan_lines f))"
  using journal_lines_fit [OF assms]
  by (simp add: scan_lines_def Let_def split_lines_journal [OF assms] takeWhile_all)

lemma openJournal_file:
  assumes "json_lines J" "list_all entry_sane es"
  shows "openJournal J (left_behind (journal_file J es)) fresh_stores =
    (restored es, Inr (Some (journal_file J es)))"
  using scan_lines_journal [OF assms, of "[]"] replay_lines_journal [OF assms, where ls = "[]"]
  by (simp add: openJournal_def left_behind_def restored_def scan_lines_def)

section \<open>The invariant: memory covers the file\<close>

definition covered :: "stores \<Rightarrow> stores \<Rightarrow> bool" where
  "covered r st \<longleftrightarrow> st_spent r \<subseteq> st_spent st \<and> st_seen r \<subseteq> st_seen st
     \<and> (\<forall>k. used_of (st_budgets r) k \<le> used_of (st_budgets st) k)
     \<and> budget_inv (st_budgets r) \<and> budget_inv (st_budgets st)"

definition journal_inv :: "rec_json \<Rightarrow> journal_state \<Rightarrow> bool" where
  "journal_inv J s \<longleftrightarrow> json_lines J \<and> (\<exists>es. list_all entry_sane es \<and> snd s = Some (journal_file J es)
     \<and> (\<forall>st. fst s = Some st \<longrightarrow> covered (restored es) st))"

text \<open>What a restart would recover.\<close>

definition on_disk :: "rec_json \<Rightarrow> journal \<Rightarrow> stores" where
  "on_disk J j = fst (openJournal J (left_behind (case j of None \<Rightarrow> [] | Some f \<Rightarrow> f)) fresh_stores)"

lemma on_disk_file: "json_lines J \<Longrightarrow> list_all entry_sane es \<Longrightarrow> on_disk J (Some (journal_file J es)) = restored es"
  by (simp add: on_disk_def openJournal_file)

lemma restored_simps [simp]: "restored [] = fresh_stores" "restored (es @ [e]) = apply_entry (restored es) e"
  by (simp_all add: restored_def)

lemma budget_inv_restored: "list_all entry_sane es \<Longrightarrow> budget_inv (st_budgets (restored es))"
proof (induction es rule: rev_induct)
  case Nil
  then show ?case by (simp add: fresh_stores_def)
next
  case (snoc e es)
  then show ?case by (cases e) (simp_all add: budget_inv_Reserve reserve_sane_def)
qed

lemma covered_refl: "budget_inv (st_budgets r) \<Longrightarrow> covered r r"
  by (simp add: covered_def)

text \<open>An append leaves the entry in the file or reports an error, with a clean write.\<close>

lemma journal_append_cases:
  assumes "json_lines J" "entry_sane e" "clean w"
  obtains "journal_append J w (Some (journal_file J es)) (record_of e) = (Some (journal_file J (es @ [e])), None)"
  | err es' where "journal_append J w (Some (journal_file J es)) (record_of e) = (Some (journal_file J es'), Some err)"
      "es' = es \<or> es' = es @ [e]"
proof -
  obtain raw where "rj_Marshal J (record_of e) = Some raw"
    using line_of_sane [OF assms(1,2)] by (auto simp: json_line_def)
  then have written: "journal_file J (es @ [e]) = journal_file J es @ raw @ [newline]"
    and "rj_Marshal J (record_of e) = Some raw"
    by (simp_all add: journal_file_def line_of_def)
  then show ?thesis using assms(3) that(1) that(2) [of es EWrite] that(2) [of "es @ [e]" ESync]
    by (cases w) (simp_all add: journal_append_def)
qed

lemma covered_apply:
  assumes "covered r st" "entry_sane e"
    and "\<And>key a l win t. e = Reserved key a l win t \<Longrightarrow> snd (Reserve (st_budgets st) key a l win t) = None"
  shows "covered (apply_entry r e) (apply_entry st e)" "covered r (apply_entry st e)"
proof -
  have "covered (apply_entry r e) (apply_entry st e) \<and> covered r (apply_entry st e)"
  proof (cases e)
    case (Reserved key a l win t)
    define k where "k = window_key key win t"
    obtain m' where m': "Reserve (st_budgets st) key a l win t = (m', None)"
      using assms(3) [OF Reserved] by (metis prod.collapse)
    have small: "small_req a l" using assms(2) Reserved by (simp add: reserve_sane_def)
    have inv: "budget_inv (st_budgets st)" "budget_inv (st_budgets r)"
      and le: "used_of (st_budgets r) k' \<le> used_of (st_budgets st) k'" for k'
      using assms(1) by (simp_all add: covered_def)
    have g: "0 < a" "used_of (st_budgets st) k + a \<le> l" "m' = (st_budgets st)(k \<mapsto> used_of (st_budgets st) k + a)"
      using m' Reserve_granted_iff [OF inv(1) small] by (simp_all add: k_def)
    have "Reserve (st_budgets r) key a l win t = ((st_budgets r)(k \<mapsto> used_of (st_budgets r) k + a), None)"
      using g le [of k] by (subst Reserve_granted_iff [OF inv(2) small]) (simp add: k_def)
    moreover have "budget_inv m'" "budget_inv (fst (Reserve (st_budgets r) key a l win t))"
      using budget_inv_Reserve [OF inv(1) small, of key win t] budget_inv_Reserve [OF inv(2) small] m'
      by simp_all
    ultimately show ?thesis using assms(1) m' Reserved g le [of k]
      by (auto simp: covered_def used_of_def intro: order_trans)
  qed (use assms in \<open>auto simp: covered_def\<close>)
  then show "covered (apply_entry r e) (apply_entry st e)" "covered r (apply_entry st e)" by simp_all
qed

text \<open>The entry an operation makes.\<close>

fun entry_of :: "journal_op \<Rightarrow> entry option" where
  "entry_of (JSpend e n w) = Some (Spent e n)"
| "entry_of (JPvt key w) = Some (Used key)"
| "entry_of (JReserve key a l win t w) = Some (Reserved key a l win t)"
| "entry_of JCrash = None"
| "entry_of JRestart = None"

text \<open>The store would accept the entry.\<close>

fun fresh_for :: "entry \<Rightarrow> stores \<Rightarrow> bool" where
  "fresh_for (Spent e n) st \<longleftrightarrow> (e, n) \<notin> st_spent st"
| "fresh_for (Used key) st \<longleftrightarrow> key \<notin> st_seen st"
| "fresh_for (Reserved key a l win t) st \<longleftrightarrow> snd (Reserve (st_budgets st) key a l win t) = None"

text \<open>Every request is: refuse, or change the memory and append.\<close>

lemma journal_step_request:
  assumes "entry_of i = Some e" "journal_op_sane i"
  obtains w where "clean w" "entry_sane e"
    "journal_step J (Some st, j) i =
       (if fresh_for e st
        then (case journal_append J w j (record_of e) of (j', err) \<Rightarrow>
                ((Some (apply_entry st e), j'),
                 if err = None then Acked else case e of Reserved _ _ _ _ _ \<Rightarrow> Refused | _ \<Rightarrow> NotStored))
        else ((Some st, j), Refused))"
proof (cases i)
  case (JSpend ep n w)
  then show ?thesis using assms
    by (intro that [of w])
      (auto simp: do_spend_def CheckAndMark_def journal_spend_def ack_def split: prod.splits option.splits)
next
  case (JPvt key w)
  then show ?thesis using assms
    by (intro that [of w]) (auto simp: do_pvt_def journal_pvt_def ack_def split: prod.splits option.splits)
next
  case (JReserve key a l win t w)
  then show ?thesis using assms
    by (intro that [of w])
      (auto simp: do_reserve_def journaled_Reserve_def Reserve_refused_same split: prod.splits option.splits)
qed (use assms in simp_all)

lemma fresh_for_covered:
  assumes "covered r st" "entry_sane e" "fresh_for e st"
  shows "fresh_for e r"
proof (cases e)
  case (Reserved key a l win t)
  have small: "small_req a l" using assms(2) Reserved by (simp add: reserve_sane_def)
  have inv: "budget_inv (st_budgets st)" "budget_inv (st_budgets r)"
    and le: "used_of (st_budgets r) (window_key key win t) \<le> used_of (st_budgets st) (window_key key win t)"
    using assms(1) by (simp_all add: covered_def)
  obtain m' where "Reserve (st_budgets st) key a l win t = (m', None)"
    using assms(3) Reserved by (metis fresh_for.simps(3) prod.collapse)
  then show ?thesis using le Reserved
    by (simp add: Reserve_exact [OF inv(1) small] Reserve_exact [OF inv(2) small] Let_def split: if_splits)
qed (use assms in \<open>auto simp: covered_def\<close>)

text \<open>One step, in terms of the entries in the file.\<close>

lemma journal_step_effect:
  assumes "journal_inv J (Some st, j)" "journal_op_sane i" "entry_of i = Some e"
  obtains es es' st' where "list_all entry_sane es" "j = Some (journal_file J es)"
    "fst (journal_step J (Some st, j) i) = (Some st', Some (journal_file J es'))"
    "list_all entry_sane es'" "covered (restored es') st'"
    "es' = es \<or> es' = es @ [e] \<and> fresh_for e (restored es)"
    "snd (journal_step J (Some st, j) i) = Acked \<Longrightarrow> es' = es @ [e] \<and> fresh_for e (restored es)"
proof -
  from assms(1) obtain es where es: "list_all entry_sane es" "j = Some (journal_file J es)"
    and cov: "covered (restored es) st" and J: "json_lines J"
    by (auto simp: journal_inv_def)
  obtain w where w: "clean w" "entry_sane e" and step: "journal_step J (Some st, j) i =
       (if fresh_for e st
        then (case journal_append J w j (record_of e) of (j', err) \<Rightarrow>
                ((Some (apply_entry st e), j'),
                 if err = None then Acked else case e of Reserved _ _ _ _ _ \<Rightarrow> Refused | _ \<Rightarrow> NotStored))
        else ((Some st, j), Refused))"
    using journal_step_request [OF assms(3,2)] .
  show ?thesis
  proof (cases "fresh_for e st")
    case False
    then show ?thesis using es cov step by (intro that [of es st es]) simp_all
  next
    case True
    have acc: "\<And>key a l win t. e = Reserved key a l win t \<Longrightarrow> snd (Reserve (st_budgets st) key a l win t) = None"
      using True by simp
    note cov' = covered_apply [OF cov w(2) acc] and fresh = fresh_for_covered [OF cov w(2) True]
    show ?thesis
    proof (cases rule: journal_append_cases [OF J w(2,1), of es])
      case 1
      then show ?thesis using es cov' fresh True step w
        by (intro that [of es "apply_entry st e" "es @ [e]"]) simp_all
    next
      case (2 err es')
      then show ?thesis using es cov' fresh True step w
        by (intro that [of es "apply_entry st e" es']) (auto split: entry.splits)
    qed
  qed
qed

lemma restart_effect:
  assumes "journal_inv J (so, j)"
  obtains es where "list_all entry_sane es" "j = Some (journal_file J es)"
    "journal_step J (so, j) JRestart = ((Some (restored es), j), Acked)"
  using assms by (cases so) (auto simp: journal_inv_def restart_def openJournal_file)

lemma journal_inv_step:
  assumes "journal_inv J s" "journal_op_sane i"
  shows "journal_inv J (fst (journal_step J s i))"
proof (cases "entry_of i")
  case None
  then have i: "i = JCrash \<or> i = JRestart" by (cases i) simp_all
  obtain so j where s: "s = (so, j)" by fastforce
  obtain es where es: "list_all entry_sane es" "j = Some (journal_file J es)"
    "journal_step J (so, j) JRestart = ((Some (restored es), j), Acked)"
    using restart_effect assms(1) s by metis
  show ?thesis
  proof (cases "i = JRestart")
    case True
    then show ?thesis using assms(1) es s
      by (auto simp: journal_inv_def intro!: exI [of _ es] covered_refl budget_inv_restored)
  next
    case False
    then show ?thesis using assms(1) i s by (cases so) (auto simp: journal_inv_def)
  qed
next
  case (Some e)
  obtain so j where s: "s = (so, j)" by fastforce
  show ?thesis
  proof (cases so)
    case None
    then show ?thesis using assms Some s by (cases i) simp_all
  next
    case (Some st)
    then have inv: "journal_inv J (Some st, j)" using assms(1) s by simp
    obtain es' st' where "fst (journal_step J (Some st, j) i) = (Some st', Some (journal_file J es'))"
      "list_all entry_sane es'" "covered (restored es') st'"
      using journal_step_effect [OF inv assms(2) \<open>entry_of i = Some e\<close>] by metis
    then show ?thesis using inv s Some by (auto simp: journal_inv_def)
  qed
qed

interpretation journaled: guarded_machine "journal_step J" journal_op_sane "journal_inv J" for J
  by unfold_locales (rule journal_inv_step)

text \<open>
  How the recoverable state moves: a request leaves it or adds its own entry, which was acceptable
  to it; an acknowledged request adds its entry; a restart leaves it.
\<close>

lemma on_disk_step:
  assumes "journal_inv J s" "journal_op_sane i"
  obtains "on_disk J (snd (fst (journal_step J s i))) = on_disk J (snd s)"
      "\<And>e. entry_of i = Some e \<Longrightarrow> snd (journal_step J s i) \<noteq> Acked"
  | e where "entry_of i = Some e" "fresh_for e (on_disk J (snd s))" "entry_sane e"
      "on_disk J (snd (fst (journal_step J s i))) = apply_entry (on_disk J (snd s)) e"
proof -
  have J: "json_lines J" using assms(1) by (simp add: journal_inv_def)
  obtain so j where s: "s = (so, j)" by fastforce
  show ?thesis
  proof (cases "entry_of i")
    case None
    then have i: "i = JCrash \<or> i = JRestart" by (cases i) simp_all
    obtain es where "journal_step J (so, j) JRestart = ((Some (restored es), j), Acked)"
      using restart_effect assms(1) s by metis
    then show ?thesis using that(1) None i s by (cases so) auto
  next
    case (Some e)
    show ?thesis
    proof (cases so)
      case None
      then show ?thesis using that(1) Some s by (cases i) simp_all
    next
      case (Some st)
      then have inv: "journal_inv J (Some st, j)" using assms(1) s by simp
      obtain es es' st' where es: "list_all entry_sane es" "j = Some (journal_file J es)"
        "fst (journal_step J (Some st, j) i) = (Some st', Some (journal_file J es'))"
        "list_all entry_sane es'" "es' = es \<or> es' = es @ [e] \<and> fresh_for e (restored es)"
        "snd (journal_step J (Some st, j) i) = Acked \<Longrightarrow> es' = es @ [e] \<and> fresh_for e (restored es)"
        using journal_step_effect [OF inv assms(2) \<open>entry_of i = Some e\<close>] by metis
      show ?thesis
      proof (cases "es' = es @ [e]")
        case True
        then show ?thesis using that(2) es Some s \<open>entry_of i = Some e\<close> by (auto simp: on_disk_file [OF J])
      next
        case False
        then show ?thesis using that(1) es Some s \<open>entry_of i = Some e\<close> by (auto simp: on_disk_file [OF J])
      qed
    qed
  qed
qed

section \<open>What survives restarts\<close>

fun acked_spend :: "u32 \<Rightarrow> bytes \<Rightarrow> journal_op \<Rightarrow> journal_out \<Rightarrow> bool" where
  "acked_spend e n (JSpend e' n' w) out \<longleftrightarrow> e' = e \<and> n' = n \<and> out = Acked"
| "acked_spend e n _ out \<longleftrightarrow> False"

fun acked_pvt :: "string \<Rightarrow> journal_op \<Rightarrow> journal_out \<Rightarrow> bool" where
  "acked_pvt key (JPvt key' w) out \<longleftrightarrow> key' = key \<and> out = Acked"
| "acked_pvt key _ out \<longleftrightarrow> False"

text \<open>What a request with a limit of at most \<open>L\<close> was granted of window \<open>k\<close>.\<close>

fun acked_grant :: "budget_key \<Rightarrow> int \<Rightarrow> journal_op \<Rightarrow> journal_out \<Rightarrow> int" where
  "acked_grant k L (JReserve key a l win t w) out =
     (if out = Acked \<and> window_key key win t = k \<and> l \<le> L then a else 0)"
| "acked_grant k L _ out = 0"

lemma spend_pays:
  assumes "journal_inv J s" "journal_op_sane i"
  shows "of_bool (acked_spend e n i (snd (journal_step J s i)))
      + of_bool ((e, n) \<notin> st_spent (on_disk J (snd (fst (journal_step J s i)))))
      \<le> (of_bool ((e, n) \<notin> st_spent (on_disk J (snd s))) :: int) + 0"
proof (cases rule: on_disk_step [OF assms])
  case 1
  then show ?thesis by (cases i) auto
next
  case (2 en)
  then show ?thesis by (cases i; cases en) auto
qed

lemma pvt_pays:
  assumes "journal_inv J s" "journal_op_sane i"
  shows "of_bool (acked_pvt key i (snd (journal_step J s i)))
      + of_bool (key \<notin> st_seen (on_disk J (snd (fst (journal_step J s i)))))
      \<le> (of_bool (key \<notin> st_seen (on_disk J (snd s))) :: int) + 0"
proof (cases rule: on_disk_step [OF assms])
  case 1
  then show ?thesis by (cases i) auto
next
  case (2 en)
  then show ?thesis by (cases i; cases en) auto
qed

lemma budget_inv_on_disk: "journal_inv J s \<Longrightarrow> budget_inv (st_budgets (on_disk J (snd s)))"
  by (auto simp: journal_inv_def on_disk_file budget_inv_restored)

lemma grant_pays:
  assumes "journal_inv J s" "journal_op_sane i"
  shows "acked_grant k L i (snd (journal_step J s i))
      + max 0 (L - used_of (st_budgets (on_disk J (snd (fst (journal_step J s i))))) k)
      \<le> max 0 (L - used_of (st_budgets (on_disk J (snd s))) k) + 0"
proof (cases rule: on_disk_step [OF assms])
  case 1
  then show ?thesis by (cases i) auto
next
  case (2 en)
  show ?thesis
  proof (cases en)
    case (Reserved key a l win t)
    let ?m = "st_budgets (on_disk J (snd s))"
    have small: "small_req a l" using 2 Reserved by (simp add: reserve_sane_def)
    have res: "Reserve ?m key a l win t = (fst (Reserve ?m key a l win t), None)"
      using 2 Reserved by (metis fresh_for.simps(3) prod.collapse)
    from iffD1 [OF Reserve_granted_iff [OF budget_inv_on_disk [OF assms(1)] small] this]
    have g: "0 < a" "used_of ?m (window_key key win t) + a \<le> l"
      "fst (Reserve ?m key a l win t) = ?m(window_key key win t \<mapsto> used_of ?m (window_key key win t) + a)"
      by simp_all
    obtain w where i: "i = JReserve key a l win t w" using 2 Reserved by (cases i) auto
    have "used_of (st_budgets (on_disk J (snd (fst (journal_step J s i))))) k =
        used_of ?m k + (if window_key key win t = k then a else 0)"
      using 2 Reserved g(3) by (simp add: used_of_def)
    then show ?thesis using g(1,2) by (auto simp: i)
  qed (use 2 in \<open>cases i; simp\<close>)+
qed

lemma journal_inv_fresh: "json_lines J \<Longrightarrow> journal_inv J (Some fresh_stores, Some [])"
  by (auto simp: journal_inv_def journal_file_def fresh_stores_def intro!: exI [of _ "[]"] covered_refl)

lemma sum_list_no_income: "sum_list (map (\<lambda>(i, out). 0 :: int) tr) = 0"
  by (induction tr) auto

lemma spent_once:
  assumes "json_lines J" "list_all journal_op_sane ops"
  shows "sum_list (map (\<lambda>(i, out). of_bool (acked_spend e n i out)) (run_trace (journal_step J) (Some fresh_stores, Some []) ops)) \<le> (1 :: int)"
  using journaled.sane_run_potential [where cost = "\<lambda>i out. of_bool (acked_spend e n i out)" and income = "\<lambda>_ _. 0"
      and pot = "\<lambda>s. of_bool ((e, n) \<notin> st_spent (on_disk J (snd s)))", OF spend_pays journal_inv_fresh [OF assms(1)] assms(2)]
  by (simp add: sum_list_no_income of_bool_def split: if_splits)

lemma used_once:
  assumes "json_lines J" "list_all journal_op_sane ops"
  shows "sum_list (map (\<lambda>(i, out). of_bool (acked_pvt key i out)) (run_trace (journal_step J) (Some fresh_stores, Some []) ops)) \<le> (1 :: int)"
  using journaled.sane_run_potential [where cost = "\<lambda>i out. of_bool (acked_pvt key i out)" and income = "\<lambda>_ _. 0"
      and pot = "\<lambda>s. of_bool (key \<notin> st_seen (on_disk J (snd s)))", OF pvt_pays journal_inv_fresh [OF assms(1)] assms(2)]
  by (simp add: sum_list_no_income of_bool_def split: if_splits)

lemma grants_within_limit:
  assumes "json_lines J" "list_all journal_op_sane ops"
  shows "sum_list (map (\<lambda>(i, out). acked_grant k L i out) (run_trace (journal_step J) (Some fresh_stores, Some []) ops)) \<le> max 0 L"
proof -
  have "used_of (st_budgets (on_disk J (Some []))) k = 0"
    using on_disk_file [OF assms(1), of "[]"]
    by (simp add: journal_file_def fresh_stores_def used_of_def NewMemoryBudgetStore_def)
  then show ?thesis
    using journaled.sane_run_potential [where cost = "acked_grant k L" and income = "\<lambda>_ _. 0"
        and pot = "\<lambda>s. max 0 (L - used_of (st_budgets (on_disk J (snd s))) k)", OF grant_pays journal_inv_fresh [OF assms(1)] assms(2)]
    by (simp add: sum_list_no_income)
qed


section \<open>What stops a restart\<close>

text \<open>The encoding of a record is at least as long as its key string, and is one line.\<close>

definition json_sized :: "rec_json \<Rightarrow> bool" where
  "json_sized J \<longleftrightarrow> (\<forall>r. \<exists>raw. rj_Marshal J r = Some raw \<and> length (sr_Key r) \<le> length raw \<and> newline \<notin> set raw)"

lemma restart_stops:
  assumes "json_lines J" "list_all entry_sane es"
    and "snd (replay_lines J (Suc (length es)) (restored es) (fst (scan_lines f))) \<noteq> None \<or> \<not> snd (scan_lines f)"
  shows "snd (restart J (Some (journal_file J es @ f))) = Unavailable"
proof -
  have "replay_lines J 1 fresh_stores (fst (scan_lines (journal_file J es @ f))) =
      replay_lines J (Suc (length es)) (restored es) (fst (scan_lines f))"
    by (simp add: scan_lines_journal [OF assms(1,2)] replay_lines_journal [OF assms(1,2)] restored_def)
  then show ?thesis using assms(3)
    by (auto simp: restart_def openJournal_def left_behind_def scan_lines_journal [OF assms(1,2)] split: prod.splits option.splits)
qed

text \<open>
  A long origin disables every later restart. On a running journaled server, a presentation nonce
  record for an origin of at least 786432 bytes (within the one mebibyte a request may have) is
  acknowledged; its base64 form exceeds the one mebibyte line buffer of the replay, so that from
  then on, whatever else is appended, the server does not start any more.
\<close>

lemma long_origin_blocks_restart:
  assumes "json_sized J" and "journal_inv J (Some st, j)" and "key \<notin> st_seen st"
    and "786432 \<le> length key"
  shows "\<exists>st' f. journal_step J (Some st, j) (JPvt key WroteAll) = ((Some st', Some f), Acked)
    \<and> (\<forall>more. snd (restart J (Some (f @ more))) = Unavailable)"
proof -
  obtain es where es: "list_all entry_sane es" "j = Some (journal_file J es)" and J: "json_lines J"
    using assms(2) by (auto simp: journal_inv_def)
  obtain raw where raw: "rj_Marshal J (pvt_record key) = Some raw" "newline \<notin> set raw"
    and "length (b64url_encode (bytes_of key)) \<le> length raw"
    using assms(1) [unfolded json_sized_def, rule_format, of "pvt_record key"]
    by (auto simp: pvt_record_def no_record_def)
  then have long: "\<not> length raw < maxLine"
    using length_b64url_encode(2) [of "bytes_of key"] assms(4) by (simp add: maxLine_def)
  have "snd (restart J (Some (journal_file J es @ (raw @ newline # more)))) = Unavailable" for more
  proof (rule restart_stops [OF J es(1)])
    have "split_lines [] (raw @ newline # more) = raw # split_lines [] more"
      using split_lines_line [OF raw(2), of "[]"] by simp
    then show "snd (replay_lines J (Suc (length es)) (restored es) (fst (scan_lines (raw @ newline # more)))) \<noteq> None
        \<or> \<not> snd (scan_lines (raw @ newline # more))"
      using long by (simp add: scan_lines_def)
  qed
  then show ?thesis using assms(3) es(2) raw(1)
    by (simp add: do_pvt_def journal_pvt_def journal_append_def ack_def)
qed

text \<open>
  A crash in the middle of a write has the same effect: the torn last line is not JSON, and the
  replay refuses the whole file.
\<close>

lemma torn_line_blocks_restart:
  assumes "json_lines J" "list_all entry_sane es" "rj_Marshal J (record_of e) = Some raw" "newline \<notin> set raw"
    and "0 < n" "n \<le> length raw" "rj_Unmarshal J (drop_cr (take n raw)) = None" "length raw < maxLine"
  shows "snd (restart J (fst (journal_append J (WriteFails n) (Some (journal_file J es)) (record_of e)))) = Unavailable"
proof -
  have "newline \<notin> set (take n raw)" using assms(4) in_set_takeD by metis
  then have "scan_lines (take n raw) = ([drop_cr (take n raw)], True)"
    using assms(5,6,8) split_lines_partial [of "take n raw" "[]"] by (cases raw) (simp_all add: scan_lines_def)
  then have "snd (restart J (Some (journal_file J es @ take n raw))) = Unavailable"
    using assms(7) by (intro restart_stops [OF assms(1,2)]) simp
  then show ?thesis using assms(3,6) by (simp add: journal_append_def)
qed

section \<open>A concrete codec\<close>

definition rec_fields :: "state_record \<Rightarrow> string list" where
  "rec_fields r = [sr_T r, sr_Nonce r, sr_Key r, sr_BudgetKey r, int_text (uint (sr_Epoch r)),
     int_text (sr_Amount r), int_text (sr_Limit r), int_text (sr_WindowS r), int_text (sr_Unix r)]"

fun rec_of_fields :: "string list \<Rightarrow> state_record option" where
  "rec_of_fields [t, n, k, b, e, a, l, w, u] = Some \<lparr>sr_T = t, sr_Epoch = word_of_int (text_int e), sr_Nonce = n,
     sr_Key = k, sr_BudgetKey = b, sr_Amount = text_int a, sr_Limit = text_int l, sr_WindowS = text_int w,
     sr_Unix = text_int u\<rparr>"
| "rec_of_fields _ = None"

definition toy_rec_json :: rec_json where
  "toy_rec_json = \<lparr>rj_Marshal = (\<lambda>r. Some (pack (rec_fields r))),
     rj_Unmarshal = (\<lambda>b. Option.bind (unpack b) rec_of_fields)\<rparr>"

lemma length_pack: "length (pack ss) = sum_list (map (\<lambda>s. 2 * length s + 1) ss)"
  by (induction ss) (simp_all add: pack_def length_hex_encode)

lemma length_int_text [simp]: "length (int_text i) = 8"
  by (simp add: int_text_def)

lemma pack_bytes: "b \<in> set (pack ss) \<Longrightarrow> b \<noteq> newline \<and> b \<noteq> 13"
proof -
  assume "b \<in> set (pack ss)"
  then obtain c where b: "b = of_char c" and "c \<in> set (concat (map (\<lambda>s. hex_encode (bytes_of s) @ '' '') ss))"
    unfolding pack_def bytes_of_def by auto
  then have "c = CHR '' '' \<or> (\<exists>s. c \<in> set (hex_encode (bytes_of s)))" by (auto split: if_splits)
  then have "32 < (of_char c :: nat) \<or> c = CHR '' ''"
    using hex_encode_graph by (auto simp: list_all_iff is_graph_def)
  then have "32 \<le> unat b" by (auto simp: b unat_of_char_byte)
  then show ?thesis by (auto simp: newline_def)
qed

lemma toy_record_roundtrip: "rec_sane r \<Longrightarrow> rec_of_fields (rec_fields r) = Some r"
proof -
  have "- (2 ^ 63) \<le> uint (sr_Epoch r)" by (rule order_trans [of _ 0]) simp_all
  then have "is_int64 (uint (sr_Epoch r))" using uint_lt2p [of "sr_Epoch r"] by (simp add: is_int64_def)
  then show "rec_sane r \<Longrightarrow> ?thesis" by (simp add: rec_fields_def rec_sane_def text_int_text)
qed

lemma toy_rec_json_sized: "json_sized toy_rec_json"
  using pack_bytes by (auto simp: json_sized_def toy_rec_json_def length_pack rec_fields_def)

lemma toy_rec_json_ok: "json_lines toy_rec_json"
proof -
  have "json_line toy_rec_json r (pack (rec_fields r))" if r: "rec_sane r" for r
  proof -
    have len: "length (pack (rec_fields r)) < maxLine" "pack (rec_fields r) \<noteq> []"
      using r by (simp_all add: length_pack rec_fields_def rec_sane_def maxLine_def flip: length_greater_0_conv)
    then have "last (pack (rec_fields r)) \<noteq> 13" using pack_bytes last_in_set by blast
    then show ?thesis using len r pack_bytes toy_record_roundtrip [OF r]
      by (auto simp: json_line_def toy_rec_json_def unpack_pack)
  qed
  then show ?thesis by (auto simp: json_lines_def)
qed


end
