(* ===== verification/Cli.thy ===== *)
theory Cli
  imports TokenService Envelope
begin

text \<open>
  The command-line tool (\<^verbatim>\<open>cmd/tamayo/commands.go\<close>): key-epoch files, minting and verifying burn
  tokens, the self-test, the example policy and the policy signer. The operating system is a record
  of files with permissions; random bytes, the JSON codec of the two key files and the cryptography
  are parameters. The results are about chains of commands: what one command writes, the next one
  reads back.
\<close>

section \<open>Files\<close>

record os =
  os_files :: "string \<rightharpoonup> bytes"
  os_can_read :: "string \<Rightarrow> bool"
  os_can_write :: "string \<Rightarrow> bool"

definition ReadFile :: "os \<Rightarrow> string \<Rightarrow> bytes option" where
  "ReadFile w path = (if os_can_read w path then os_files w path else None)"

definition WriteFile :: "os \<Rightarrow> string \<Rightarrow> bytes \<Rightarrow> os option" where
  "WriteFile w path b =
     (if os_can_write w path then Some (w\<lparr>os_files := (os_files w)(path \<mapsto> b)\<rparr>) else None)"

datatype cli_error =
    CRead | CWrite | CJson | CSeedB64 | CRandom | CNoChallenge | CTokenB64
  | CProfile profile_error | CRejected profile_error | CWrongChallengeAccepted
  | CPolicyKeyB64 | CSigner auth_error | CCompile "compile_error option"

record issuer_file =
  if_KeyVersion :: u32
  if_Mayo1SeedB64 :: string

record policy_key_file =
  pf_SeedB64 :: string

text \<open>The encodings of the two key files: \<^verbatim>\<open>json.MarshalIndent\<close> and the strict decoder.\<close>

record cli_json =
  cj_marshal_issuer :: "issuer_file \<Rightarrow> bytes"
  cj_decode_issuer :: "bytes \<Rightarrow> issuer_file option"
  cj_marshal_key :: "policy_key_file \<Rightarrow> bytes"
  cj_decode_key :: "bytes \<Rightarrow> policy_key_file option"

section \<open>Commands\<close>

text \<open>\<open>fresh\<close> is the entropy an issuer draws when it is given no seed.\<close>

definition loadIssuer ::
  "'ps crypto \<Rightarrow> cli_json \<Rightarrow> bytes option \<Rightarrow> os \<Rightarrow> string \<Rightarrow> (cli_error, issuer) result" where
  "loadIssuer c J fresh w path =
     bind_result (of_option CRead (ReadFile w path)) (\<lambda>raw.
     bind_result (of_option CJson (cj_decode_issuer J raw)) (\<lambda>f.
     bind_result (of_option CSeedB64 (b64url_decode (if_Mayo1SeedB64 f))) (\<lambda>seed.
     map_error CProfile (NewIssuer c fresh (if_KeyVersion f) seed))))"

text \<open>The flag is an unsigned 64-bit number; the file keeps its low 32 bits.\<close>

definition cmdKeygen ::
  "'ps crypto \<Rightarrow> cli_json \<Rightarrow> os \<Rightarrow> string \<Rightarrow> u64 \<Rightarrow> bytes option \<Rightarrow> (cli_error, os) result" where
  "cmdKeygen c J w out keyVersion rnd =
     bind_result (of_option CRandom rnd) (\<lambda>seed.
     bind_result (map_error CProfile (NewIssuer c None (ucast keyVersion) seed)) (\<lambda>issuer.
     of_option CWrite (WriteFile w out (cj_marshal_issuer J
       \<lparr>if_KeyVersion = ucast keyVersion, if_Mayo1SeedB64 = b64url_encode seed\<rparr> @ [10]))))"

definition mintBurn ::
  "'ps crypto \<Rightarrow> issuer \<Rightarrow> bytes option \<Rightarrow> bytes option \<Rightarrow> bytes \<Rightarrow> (cli_error, burn_token) result" where
  "mintBurn c issuer rnd_nonce rnd_r challenge =
     bind_result (of_option CRandom rnd_nonce) (\<lambda>nonce.
     bind_result (of_option CRandom rnd_r) (\<lambda>additionalR.
     let challengeDigest = sha256 c challenge;
         input = BurnInput nonce challengeDigest (is_tokenKeyID issuer) in
     case PrepareBlind c input additionalR of (target, state) \<Rightarrow>
     bind_result (map_error CProfile (BlindSign c issuer [target])) (\<lambda>sigs.
     bind_result (map_error CProfile (FinalizeBlind c (is_epk issuer) (sigs ! 0) state)) (\<lambda>authenticator.
     Inr \<lparr>bt_TokenType = BurnTokenType, bt_Nonce = nonce, bt_ChallengeDigest = challengeDigest,
          bt_TokenKeyID = is_tokenKeyID issuer, bt_Authenticator = authenticator\<rparr>))))"

text \<open>The token goes to standard output (the second component) or to a file.\<close>

definition cmdMintBurn ::
  "'ps crypto \<Rightarrow> cli_json \<Rightarrow> bytes option \<Rightarrow> os \<Rightarrow> string \<Rightarrow> string \<Rightarrow> string \<Rightarrow> bytes option \<Rightarrow> bytes option \<Rightarrow>
   (cli_error, os \<times> bytes) result" where
  "cmdMintBurn c J fresh w issuerPath challenge out rnd_nonce rnd_r =
     guard (challenge \<noteq> []) CNoChallenge
     (bind_result (loadIssuer c J fresh w issuerPath) (\<lambda>issuer.
      bind_result (mintBurn c issuer rnd_nonce rnd_r (bytes_of challenge)) (\<lambda>token.
      let enc = bytes_of (b64url_encode (burn_Bytes token)) @ [10] in
      if out = [] \<or> out = ''-'' then Inr (w, enc)
      else bind_result (of_option CWrite (WriteFile w out enc)) (\<lambda>w'. Inr (w', [])))))"

definition cmdVerifyBurn ::
  "'ps crypto \<Rightarrow> cli_json \<Rightarrow> bytes option \<Rightarrow> os \<Rightarrow> string \<Rightarrow> string \<Rightarrow> string \<Rightarrow> bytes option \<Rightarrow>
   (cli_error, unit) result" where
  "cmdVerifyBurn c J fresh w issuerPath tokenPath challenge stdin =
     guard (challenge \<noteq> []) CNoChallenge
     (bind_result (loadIssuer c J fresh w issuerPath) (\<lambda>issuer.
      bind_result (of_option CRead (if tokenPath = ''-'' then stdin else ReadFile w tokenPath)) (\<lambda>raw.
      bind_result (of_option CTokenB64 (b64url_decode (trim_space (string_of raw)))) (\<lambda>tokenBytes.
      bind_result (map_error CProfile (ParseBurnToken tokenBytes)) (\<lambda>token.
      map_error CRejected (VerifyBurnToken c issuer token (sha256 c (bytes_of challenge))))))))"

text \<open>
  The self-test; \<open>holder\<close> is the generated Ed25519 key pair and \<open>sign\<close> its signing function, \<open>rnds\<close> the
  four random strings in the order they are read.
\<close>

record demo_random =
  dr_nonce :: "bytes option"
  dr_r :: "bytes option"
  dr_holder :: "(bytes \<times> bytes) option"
  dr_r' :: "bytes option"
  dr_nonce' :: "bytes option"

definition demo_burn :: "'ps crypto \<Rightarrow> issuer \<Rightarrow> demo_random \<Rightarrow> (cli_error, unit) result" where
  "demo_burn c issuer rnd =
     bind_result (mintBurn c issuer (dr_nonce rnd) (dr_r rnd) (bytes_of ''demo origin challenge'')) (\<lambda>token.
     bind_result (map_error CProfile (VerifyBurnToken c issuer token (sha256 c (bytes_of ''demo origin challenge'')))) (\<lambda>_.
     guard (\<not> is_ok (VerifyBurnToken c issuer token (sha256 c (bytes_of ''other challenge'')))) CWrongChallengeAccepted
     (Inr ())))"

definition demo_pvt ::
  "'ps crypto \<Rightarrow> (bytes \<Rightarrow> bytes \<Rightarrow> bytes) \<Rightarrow> issuer \<Rightarrow> demo_random \<Rightarrow> gotime \<Rightarrow> (cli_error, bytes) result" where
  "demo_pvt c sign issuer rnd now =
     bind_result (of_option CRandom (dr_holder rnd)) (\<lambda>(holderPub, holderPriv).
     let input = NewPrivateIdentityInput (is_keyVersion issuer) (is_tokenKeyID issuer) HolderAlgEd25519 holderPub in
     bind_result (of_option CRandom (dr_r' rnd)) (\<lambda>additionalR.
     case PrepareBlind c (pi_Bytes input) additionalR of (target, state) \<Rightarrow>
     bind_result (map_error CProfile (BlindSign c issuer [target])) (\<lambda>sigs.
     bind_result (map_error CProfile (FinalizeBlind c (is_epk issuer) (sigs ! 0) state)) (\<lambda>authenticator.
     let pvt = \<lparr>pt_Input = input, pt_Authenticator = authenticator\<rparr> in
     bind_result (of_option CRandom (dr_nonce' rnd)) (\<lambda>nonce.
     let msg = PrivateIdentityPresentationMessage ''rp.example'' nonce (pt_Digest c pvt) (unix now) in
     map_error CProfile (VerifyPrivateIdentityPresentation c issuer
       \<lparr>pp_Token = pvt, pp_Origin = ''rp.example'', pp_Nonce = nonce, pp_IssuedAt = unix now,
        pp_Signature = sign holderPriv msg\<rparr> now (60 * second)))))))"

definition cmdDemo ::
  "'ps crypto \<Rightarrow> cli_json \<Rightarrow> (bytes \<Rightarrow> bytes \<Rightarrow> bytes) \<Rightarrow> bytes option \<Rightarrow> os \<Rightarrow> string \<Rightarrow> demo_random \<Rightarrow> gotime \<Rightarrow>
   (cli_error, bytes) result" where
  "cmdDemo c J sign fresh w issuerPath rnd now =
     bind_result (if issuerPath \<noteq> [] then loadIssuer c J fresh w issuerPath
                  else map_error CProfile (NewIssuer c fresh 1 [])) (\<lambda>issuer.
     bind_result (demo_burn c issuer rnd) (\<lambda>_.
     demo_pvt c sign issuer rnd now))"

definition examplePolicy :: policy_source where
  "examplePolicy = \<lparr>ps_Version = 1, ps_Mode = ModeDevelopment,
     ps_Defaults = \<lparr>AllowSoftwareWitness = True, MaxBatch = 8, AuthorizationTTL = 120\<rparr>,
     ps_TokenFamilies = [
       (TokenBurn,
        \<lparr>tr_Enabled = True, tr_AllowedGates = [''tee''], tr_AllowedOrigins = [], tr_BudgetGroup = ''burn'',
         tr_MaxBatch = 0, tr_RequiresAddressClaim = False, tr_RequiresAttestation = True, tr_RequiresOrigin = False\<rparr>),
       (TokenPrivateIdentity,
        \<lparr>tr_Enabled = True, tr_AllowedGates = [''tee''], tr_AllowedOrigins = [], tr_BudgetGroup = ''private'',
         tr_MaxBatch = 0, tr_RequiresAddressClaim = False, tr_RequiresAttestation = True, tr_RequiresOrigin = False\<rparr>)],
     ps_Gates = [(''tee'', \<lparr>gr_Enabled = True, gr_BucketClaim = [], gr_BucketSource = [], gr_AddressClaim = [],
        gr_AllowedHosts = []\<rparr>)],
     ps_Measurements = [\<lparr>mr_ValueX = ''dev-measurement'', mr_Allow = [TokenBurn, TokenPrivateIdentity]\<rparr>],
     ps_Budgets = [(''burn'', \<lparr>br_Limit = 16, br_WindowSeconds = 3600\<rparr>),
        (''private'', \<lparr>br_Limit = 4, br_WindowSeconds = 3600\<rparr>)]\<rparr>"

text \<open>\<open>marshal\<close> is \<^verbatim>\<open>json.MarshalIndent\<close> at the policy type, \<open>json\<close> the strict policy decoder.\<close>

definition cmdExamplePolicy ::
  "(policy_source \<Rightarrow> bytes) \<Rightarrow> (bytes \<Rightarrow> policy_source option) \<Rightarrow> (cli_error, bytes) result" where
  "cmdExamplePolicy marshal json =
     (let raw = marshal examplePolicy in
      bind_result (map_error CCompile (CompileJSON json raw)) (\<lambda>_. Inr raw))"

definition loadOrCreatePolicySigner ::
  "faest \<Rightarrow> cli_json \<Rightarrow> os \<Rightarrow> string \<Rightarrow> bytes option \<Rightarrow> (cli_error, os \<times> signer) result" where
  "loadOrCreatePolicySigner F J w path rnd =
     (case ReadFile w path of
        Some raw \<Rightarrow>
          bind_result (of_option CJson (cj_decode_key J raw)) (\<lambda>f.
          bind_result (of_option CPolicyKeyB64 (b64url_decode (pf_SeedB64 f))) (\<lambda>seed.
          bind_result (map_error CSigner (NewPolicySigner F seed)) (\<lambda>s. Inr (w, s))))
      | None \<Rightarrow>
          bind_result (of_option CRandom rnd) (\<lambda>seed.
          bind_result (of_option CWrite (WriteFile w path (cj_marshal_key J \<lparr>pf_SeedB64 = b64url_encode seed\<rparr> @ [10]))) (\<lambda>w'.
          bind_result (map_error CSigner (NewPolicySigner F seed)) (\<lambda>s. Inr (w', s)))))"

text \<open>Returns the files and the operator key it prints.\<close>

definition cmdSignPolicy ::
  "faest \<Rightarrow> cli_json \<Rightarrow> (bytes \<Rightarrow> policy_source option) \<Rightarrow> os \<Rightarrow> string \<Rightarrow> string \<Rightarrow> bytes option \<Rightarrow>
   (cli_error, os \<times> string) result" where
  "cmdSignPolicy F J json w policyPath keyPath rnd =
     bind_result (loadOrCreatePolicySigner F J w keyPath rnd) (\<lambda>(w1, signer).
     bind_result (of_option CRead (ReadFile w1 policyPath)) (\<lambda>policyJSON.
     bind_result (map_error CCompile (SignPolicy F json signer policyJSON None)) (\<lambda>sidecar.
     bind_result (of_option CWrite (WriteFile w1 (policyPath @ ''.sig'') (bytes_of sidecar @ [10]))) (\<lambda>w2.
     Inr (w2, hex_encode (Public signer))))))"

section \<open>Reading back what was written\<close>

lemma ReadFile_WriteFile:
  "WriteFile w path b = Some w' \<Longrightarrow>
   os_can_read w' = os_can_read w \<and> (os_can_read w path \<longrightarrow> ReadFile w' path = Some b)
   \<and> (\<forall>q. q \<noteq> path \<longrightarrow> ReadFile w' q = ReadFile w q)"
  by (auto simp: WriteFile_def ReadFile_def split: if_splits)

text \<open>A text file's final newline is trimmed.\<close>

lemma trim_space_newline: "list_all is_graph s \<Longrightarrow> trim_space (s @ [CHR 0x0A]) = s"
proof -
  assume s: "list_all is_graph s"
  have seq: "find (\<lambda>w. w \<noteq> [] \<and> prefix w (CHR 0x0A # x)) (map rev space_seqs) = Some [CHR 0x0A]" for x
    by (simp add: space_seqs_def char_of_eq_iff)
  have "s = [] \<or> is_graph (last s)" using s last_in_set [of s] by (auto simp only: list_all_iff)
  then have right: "trim_right (s @ [CHR 0x0A]) = s"
    using trim_right_id [of s] seq [of "rev s"]
    by (simp add: trim_right_def strip_prefixes.simps [of _ "CHR 0x0A # rev s"])
  show ?thesis
  proof (cases "s = []")
    case True
    have "find (\<lambda>w. w \<noteq> [] \<and> prefix w [CHR 0x0A]) space_seqs = Some [CHR 0x0A]"
      by (simp add: space_seqs_def char_of_eq_iff)
    then have "trim_left [CHR 0x0A] = []"
      by (simp add: trim_left_def strip_prefixes.simps [of _ "[CHR 0x0A]"] strip_prefixes_id)
    then show ?thesis using True by (simp add: trim_space_def trim_right_id)
  next
    case False
    then have "trim_left (s @ [CHR 0x0A]) = s @ [CHR 0x0A]"
      using s by (intro trim_left_id) (auto simp: list_all_iff hd_append)
    then show ?thesis using right by (simp add: trim_space_def)
  qed
qed

lemma string_of_newline [simp]: "string_of [10] = [CHR 0x0A]"
  by (simp add: string_of_def char_of_eq_iff)

definition cli_json_ok :: "cli_json \<Rightarrow> bool" where
  "cli_json_ok J \<longleftrightarrow> (\<forall>f. cj_decode_issuer J (cj_marshal_issuer J f @ [10]) = Some f)
     \<and> (\<forall>f. cj_decode_key J (cj_marshal_key J f @ [10]) = Some f)"

lemma keygen_load:
  assumes "cli_json_ok J" "cmdKeygen c J w out kv (Some seed) = Inr w'" "seed \<noteq> []" "os_can_read w out"
  shows "\<exists>i. NewIssuer c None (ucast kv) seed = Inr i \<and> loadIssuer c J fresh w' out = Inr i"
proof -
  obtain i where i: "NewIssuer c None (ucast kv) seed = Inr i"
    and wr: "WriteFile w out (cj_marshal_issuer J \<lparr>if_KeyVersion = ucast kv, if_Mayo1SeedB64 = b64url_encode seed\<rparr> @ [10]) = Some w'"
    using assms(2) by (auto simp: cmdKeygen_def result_simps)
  have "NewIssuer c fresh (ucast kv) seed = NewIssuer c None (ucast kv) seed"
    using assms(3) by (simp add: NewIssuer_def)
  then show ?thesis using i ReadFile_WriteFile [OF wr] assms(1,4)
    by (simp add: loadIssuer_def cli_json_ok_def)
qed

text \<open>The burn protocol run in one process, and its result.\<close>

lemma mintBurn_Inr:
  assumes "mintBurn c i (Some nonce) (Some r) challenge = Inr t"
  obtains target st sig auth where
    "PrepareBlind c (BurnInput nonce (sha256 c challenge) (is_tokenKeyID i)) r = (target, st)"
    "BlindSign c i [target] = Inr [sig]" "FinalizeBlind c (is_epk i) sig st = Inr auth"
    "t = \<lparr>bt_TokenType = BurnTokenType, bt_Nonce = nonce, bt_ChallengeDigest = sha256 c challenge,
       bt_TokenKeyID = is_tokenKeyID i, bt_Authenticator = auth\<rparr>"
proof -
  obtain target st where p: "PrepareBlind c (BurnInput nonce (sha256 c challenge) (is_tokenKeyID i)) r = (target, st)"
    by fastforce
  then obtain sigs auth where s: "BlindSign c i [target] = Inr sigs" "FinalizeBlind c (is_epk i) (sigs ! 0) st = Inr auth"
    "t = \<lparr>bt_TokenType = BurnTokenType, bt_Nonce = nonce, bt_ChallengeDigest = sha256 c challenge,
       bt_TokenKeyID = is_tokenKeyID i, bt_Authenticator = auth\<rparr>"
    using assms by (auto simp: mintBurn_def Let_def result_simps)
  then show ?thesis using that [OF p] BlindSign_single [OF s(1)] by simp
qed

lemma mintBurn_verifies:
  assumes "blind_correct c" "\<And>x. length (sha256 c x) = 32" "NewIssuer c fresh kv seed = Inr i"
    and "length nonce = 32" "length r = 32" "mintBurn c i (Some nonce) (Some r) challenge = Inr t"
  shows "ParseBurnToken (burn_Bytes t) = Inr t"
    "VerifyBurnToken c i t d = (if d = sha256 c challenge then Inr () else Inl EChallenge)"
proof -
  obtain target st sig auth where p: "PrepareBlind c (BurnInput nonce (sha256 c challenge) (is_tokenKeyID i)) r = (target, st)"
    "BlindSign c i [target] = Inr [sig]" "FinalizeBlind c (is_epk i) sig st = Inr auth"
    and t: "t = \<lparr>bt_TokenType = BurnTokenType, bt_Nonce = nonce, bt_ChallengeDigest = sha256 c challenge,
       bt_TokenKeyID = is_tokenKeyID i, bt_Authenticator = auth\<rparr>"
    by (rule mintBurn_Inr [OF assms(6)])
  have auth: "VerifyMessage c i (BurnInput nonce (sha256 c challenge) (is_tokenKeyID i)) auth = Inr ()"
    "authenticatorRandomLength < length auth"
    using minted_authenticator [OF assms(1,3) _ p] assms(5) by (simp_all add: authenticatorRandomLength_def)
  have "length (is_tokenKeyID i) = 32" using NewIssuer_Inr [OF assms(3)] assms(2) by simp
  then have "wf_burn t" using assms(2,4) auth(2) t by (simp add: wf_burn_def)
  then show "ParseBurnToken (burn_Bytes t) = Inr t" using parse_burn_exact by blast
  show "VerifyBurnToken c i t d = (if d = sha256 c challenge then Inr () else Inl EChallenge)"
    using auth(1) t by (auto simp: VerifyBurnToken_def burn_Input_def guard_def)
qed

definition to_stdout :: "string \<Rightarrow> bool" where
  "to_stdout out \<longleftrightarrow> out = [] \<or> out = ''-''"

text \<open>
  C8: Three commands in a row work. After \<^verbatim>\<open>keygen\<close> has written an issuer file and \<^verbatim>\<open>mint-burn\<close> has minted
  a token from it for a challenge, to a file or to standard output, \<^verbatim>\<open>verify-burn\<close> with the same issuer
  file accepts that token for the challenge, and rejects it for every challenge of another digest.
\<close>

theorem keygen_mint_verify:
  assumes "blind_correct c" and "\<And>x. length (sha256 c x) = 32" and "cli_json_ok J"
    and "cmdKeygen c J w keys kv (Some seed) = Inr w1" and "seed \<noteq> []" and "os_can_read w keys"
    and "cmdMintBurn c J fresh w1 keys ch out (Some nonce) (Some r) = Inr (w2, printed)"
    and "length nonce = 32" and "length r = 32" and "out \<noteq> keys" and "to_stdout out \<or> os_can_read w out"
    and "ch' \<noteq> []"
  shows "cmdVerifyBurn c J fresh' w2 keys (if to_stdout out then ''-'' else out) ch' (Some printed) =
    (if sha256 c (bytes_of ch') = sha256 c (bytes_of ch) then Inr () else Inl (CRejected EChallenge))"
proof -
  obtain i where i: "NewIssuer c None (ucast kv) seed = Inr i" and load: "\<And>fresh. loadIssuer c J fresh w1 keys = Inr i"
    using keygen_load [OF assms(3-6)] by (metis sum.inject(2))
  obtain t where t: "mintBurn c i (Some nonce) (Some r) (bytes_of ch) = Inr t"
    using assms(7) load by (auto simp: cmdMintBurn_def result_simps Let_def split: if_splits)
  let ?enc = "bytes_of (b64url_encode (burn_Bytes t)) @ [10]"
  have raw: "(if (if to_stdout out then ''-'' else out) = ''-'' then Some printed
      else ReadFile w2 (if to_stdout out then ''-'' else out)) = Some ?enc \<and> ReadFile w2 keys = ReadFile w1 keys"
  proof (cases "to_stdout out")
    case True
    then show ?thesis using assms(7) load t by (auto simp: cmdMintBurn_def result_simps Let_def to_stdout_def)
  next
    case False
    then obtain w' where wr: "WriteFile w1 out ?enc = Some w'" and w2: "w2 = w'"
      using assms(7) load t by (auto simp: cmdMintBurn_def result_simps Let_def to_stdout_def)
    have "os_can_read w1 = os_can_read w"
      using assms(4) by (auto simp: cmdKeygen_def result_simps WriteFile_def split: if_splits)
    then show ?thesis using ReadFile_WriteFile [OF wr] False assms(10,11) w2 by (auto simp: to_stdout_def)
  qed
  have "loadIssuer c J fresh' w2 keys = Inr i" using load [of fresh'] raw by (simp add: loadIssuer_def)
  then show ?thesis
    using raw assms(12) mintBurn_verifies [OF assms(1,2) i assms(8,9) t]
      trim_space_newline [OF b64url_encode_graph]
    by (simp add: cmdVerifyBurn_def)
qed

text \<open>A concrete codec and a run of the three commands.\<close>

definition toy_cli_json :: cli_json where
  "toy_cli_json = \<lparr>cj_marshal_issuer = (\<lambda>f. be_bytes 4 (if_KeyVersion f) @ bytes_of (if_Mayo1SeedB64 f)),
     cj_decode_issuer = (\<lambda>b. Some \<lparr>if_KeyVersion = be_word (take 4 b), if_Mayo1SeedB64 = butlast (string_of (drop 4 b))\<rparr>),
     cj_marshal_key = (\<lambda>f. bytes_of (pf_SeedB64 f)),
     cj_decode_key = (\<lambda>b. Some \<lparr>pf_SeedB64 = butlast (string_of b)\<rparr>)\<rparr>"

lemma toy_cli_json_ok: "cli_json_ok toy_cli_json"
  by (simp add: cli_json_ok_def toy_cli_json_def)

definition toy_os :: os where
  "toy_os = \<lparr>os_files = Map.empty, os_can_read = (\<lambda>_. True), os_can_write = (\<lambda>_. True)\<rparr>"

theorem keygen_mint_verify_witness:
  "\<exists>w1 w2. cmdKeygen toy_crypto toy_cli_json toy_os ''issuer.json'' 7 (Some (replicate 24 5)) = Inr w1
     \<and> cmdMintBurn toy_crypto toy_cli_json None w1 ''issuer.json'' ''ch'' ''token'' (Some (replicate 32 3)) (Some (replicate 32 6)) = Inr (w2, [])
     \<and> cmdVerifyBurn toy_crypto toy_cli_json None w2 ''issuer.json'' ''token'' ''ch'' (Some []) = Inr ()"
proof -
  obtain w1 where k: "cmdKeygen toy_crypto toy_cli_json toy_os ''issuer.json'' 7 (Some (replicate 24 5)) = Inr w1"
    by (simp add: cmdKeygen_def NewIssuer_def toy_crypto_def SKSeedBytes_def WriteFile_def toy_os_def)
  have r: "os_can_read toy_os x" for x by (simp add: toy_os_def)
  have w1: "os_can_write w1 ''token''" using k
    by (auto simp: cmdKeygen_def result_simps WriteFile_def toy_os_def)
  obtain i where "NewIssuer toy_crypto None 7 (replicate 24 5) = Inr i" and i: "loadIssuer toy_crypto toy_cli_json None w1 ''issuer.json'' = Inr i"
    using keygen_load [OF toy_cli_json_ok k _ r] by auto
  then have "i = toy_issuer" using toy_issuer(1) by simp
  then obtain w2 where m: "cmdMintBurn toy_crypto toy_cli_json None w1 ''issuer.json'' ''ch'' ''token''
      (Some (replicate 32 3)) (Some (replicate 32 6)) = Inr (w2, [])"
    using i w1 by (simp add: cmdMintBurn_def mintBurn_def Let_def PrepareBlind_def BlindSign_def FinalizeBlind_def
        toy_crypto_def toy_issuer_def MBytes_def WriteFile_def)
  from keygen_mint_verify [OF toy_crypto_correct toy_cli_json_ok k _ r m _ _ _ disjI2 [OF r], of "''ch''" None] k m
  show ?thesis by (simp add: to_stdout_def)
qed

text \<open>
  An operator key that can not be read is replaced. If the key file exists and may be written but
  not read, \<^verbatim>\<open>sign-policy\<close> takes any read error for a missing file: it overwrites the operator's
  signing key with a fresh one instead of reporting the error.
\<close>

lemma unreadable_key_replaced:
  assumes "os_files w path = Some old" and "\<not> os_can_read w path" and "os_can_write w path"
    and "NewPolicySigner F seed = Inr s"
  shows "\<exists>w'. loadOrCreatePolicySigner F J w path (Some seed) = Inr (w', s)
    \<and> os_files w' path = Some (cj_marshal_key J \<lparr>pf_SeedB64 = b64url_encode seed\<rparr> @ [10])"
  using assms by (simp add: loadOrCreatePolicySigner_def ReadFile_def WriteFile_def)

text \<open>The example policy compiles, so the command prints it.\<close>

lemma Compile_examplePolicy: "is_ok (Compile examplePolicy)"
  using trim_space_graph [of "''dev-measurement''"]
  by (simp add: is_graph_def Compile_def examplePolicy_def compile_budget_def compile_gate_def compile_token_def check_gate_def
      check_attestation_def compile_measurement_def check_measurement_family_def anyMeasurementAllows_def
      measurement_map_def validName_def in_range_def name_char_def validTokenFamily_def policy_consts Let_def)

lemma cmdExamplePolicy_prints:
  assumes "json (marshal examplePolicy) = Some examplePolicy"
  shows "cmdExamplePolicy marshal json = Inr (marshal examplePolicy)"
  using assms Compile_examplePolicy by (auto simp: cmdExamplePolicy_def CompileJSON_def is_ok_iff)

text \<open>What \<^verbatim>\<open>sign-policy\<close> leaves behind: the sidecar of the policy file under the printed key.\<close>

lemma cmdSignPolicy_Inr:
  assumes "cmdSignPolicy F J json w policyPath keyPath rnd = Inr (w2, key)" "policyPath @ ''.sig'' \<noteq> policyPath"
  obtains s doc sidecar seed where "NewPolicySigner F seed = Inr s" "SignPolicy F json s doc None = Inr sidecar"
    "key = hex_encode (Public s)" "ReadFile w2 policyPath = Some doc"
    "os_can_read w (policyPath @ ''.sig'') \<Longrightarrow> ReadFile w2 (policyPath @ ''.sig'') = Some (bytes_of sidecar @ [10])"
proof -
  obtain w1 s where ld: "loadOrCreatePolicySigner F J w keyPath rnd = Inr (w1, s)"
    and rest: "bind_result (of_option CRead (ReadFile w1 policyPath)) (\<lambda>policyJSON.
     bind_result (map_error CCompile (SignPolicy F json s policyJSON None)) (\<lambda>sidecar.
     bind_result (of_option CWrite (WriteFile w1 (policyPath @ ''.sig'') (bytes_of sidecar @ [10]))) (\<lambda>w2.
     Inr (w2, hex_encode (Public s))))) = Inr (w2, key)"
    using assms(1) by (auto simp: cmdSignPolicy_def bind_result_Inr_iff)
  obtain seed where s: "NewPolicySigner F seed = Inr s" and r: "os_can_read w1 = os_can_read w"
    using ld by (auto simp: loadOrCreatePolicySigner_def result_simps WriteFile_def split: option.splits if_splits)
  from rest obtain doc sidecar where "ReadFile w1 policyPath = Some doc" "SignPolicy F json s doc None = Inr sidecar"
    "WriteFile w1 (policyPath @ ''.sig'') (bytes_of sidecar @ [10]) = Some w2" "key = hex_encode (Public s)"
    by (auto simp: result_simps)
  then show ?thesis using that [OF s] r ReadFile_WriteFile [of w1 "policyPath @ ''.sig''" _ w2] assms(2) by auto
qed

end
