(* ===== verification/Serve.thy ===== *)
theory Serve
  imports Journal Cli Transparency Mailbox
begin

text \<open>
  The reference runtime (\<^verbatim>\<open>cmd/tamayo/serve.go\<close>): start-up from key, policy and state files, and the
  HTTP handlers over it. A request body is what the strict JSON decoder made of it (\<open>None\<close> when it
  refused); a reply is a status and a body. Handlers run one at a time. Random bytes, clocks and
  the outcome of journal writes are arguments. The results: a start-up serves a verifiable key log
  and only a policy its operator signed; the handlers refine the journaled stores of theory
  \<open>Journal\<close>, so that no token is redeemed twice over HTTP, whatever restarts happen.
\<close>

section \<open>State\<close>

record kt_state =
  kt_logPub :: bytes
  kt_records :: "key_record list"
  kt_sth :: signed_head

record serve_config =
  rt_verifiers :: "issuer list"
  rt_svc :: service
  rt_policy :: policy
  rt_maxSkew :: duration

record server = serve_config +
  rt_journal :: journal
  rt_stores :: stores
  rt_kt :: kt_state

text \<open>The signing epoch is the first of the verification epochs.\<close>

definition rt_issuer :: "'a serve_config_scheme \<Rightarrow> issuer" where
  "rt_issuer s = hd (rt_verifiers s)"

datatype serve_error =
    SUsage | STLSPair | SLoad cli_error | SDuplicateVersion u32 | SNoIssuer
  | SPolicyRead | SPolicyPub | SSidecarRead | SSidecar sidecar_error | SCompile "compile_error option"
  | SService service_error | SKT transparency_error | SRandom | SState journal_error
  | SBody | SBlindedB64 nat | STokenB64 | SChallengeB64 | SProfile profile_error | SUnknownKey
  | SSpent spend_error | SJournal journal_error | SNonceB64 | SSignatureB64 | SReplay

definition issuerForKeyID :: "'a serve_config_scheme \<Rightarrow> bytes \<Rightarrow> issuer option" where
  "issuerForKeyID s kid = find (\<lambda>v. is_tokenKeyID v = kid) (rt_verifiers s)"

section \<open>Start-up\<close>

record serve_flags =
  sf_issuer :: string
  sf_policy :: string
  sf_maxSkew :: duration
  sf_tlsCert :: string
  sf_tlsKey :: string
  sf_policyPub :: string

text \<open>The loop over the issuer files; \<open>seen\<close> are the key versions so far.\<close>

fun load_verifiers ::
  "(string \<Rightarrow> (cli_error, issuer) result) \<Rightarrow> u32 set \<Rightarrow> string list \<Rightarrow> (serve_error, issuer list) result" where
  "load_verifiers load seen [] = Inr []"
| "load_verifiers load seen (p # ps) =
     (if trim_space p = [] then load_verifiers load seen ps
      else bind_result (map_error SLoad (load (trim_space p))) (\<lambda>iss.
        guard (is_keyVersion iss \<notin> seen) (SDuplicateVersion (is_keyVersion iss))
        (bind_result (load_verifiers load (insert (is_keyVersion iss) seen) ps) (\<lambda>rest. Inr (iss # rest)))))"

definition parse_policy_pub :: "string \<Rightarrow> (serve_error, bytes) result" where
  "parse_policy_pub s = hex32 SPolicyPub SPolicyPub s"

definition load_policy ::
  "faest \<Rightarrow> (bytes \<Rightarrow> policy_source option) \<Rightarrow> os \<Rightarrow> serve_flags \<Rightarrow> (serve_error, policy) result" where
  "load_policy F json w fl =
     bind_result (of_option SPolicyRead (ReadFile w (sf_policy fl))) (\<lambda>rawPolicy.
     bind_result
       (if sf_policyPub fl \<noteq> [] then
          bind_result (traverse parse_policy_pub (split_char (CHR '','') (sf_policyPub fl))) (\<lambda>trusted.
          bind_result (of_option SSidecarRead (ReadFile w (sf_policy fl @ ''.sig''))) (\<lambda>sidecar.
          map_error SSidecar (VerifyPolicySidecar F rawPolicy (string_of sidecar) trusted)))
        else Inr ()) (\<lambda>_.
     map_error SCompile (CompileJSON json rawPolicy)))"

text \<open>One log record per epoch, oldest key version first; \<open>clock\<close> gives the time of each append.\<close>

definition initKT ::
  "(bytes \<Rightarrow> bytes) \<Rightarrow> faest \<Rightarrow> bytes option \<Rightarrow> (nat \<Rightarrow> gotime) \<Rightarrow> issuer list \<Rightarrow> (serve_error, kt_state) result" where
  "initKT h F rnd clock verifiers =
     bind_result (of_option SRandom rnd) (\<lambda>seed.
     bind_result (map_error SKT (NewLogSigner F seed)) (\<lambda>signer.
     let ordered = sort_key is_keyVersion verifiers;
         log = append_all NewKeyLog (map (\<lambda>(n, v). (is_keyVersion v, is_tokenKeyID v, word_of_int (unix (clock n))))
                 (enumerate 0 ordered)) in
     bind_result (map_error SKT (log_Sign h F signer log None)) (\<lambda>sth.
     Inr \<lparr>kt_logPub = Public signer, kt_records = log, kt_sth = sth\<rparr>)))"

text \<open>The part of start-up that every restart repeats: the key log, then the journal.\<close>

definition boot ::
  "(bytes \<Rightarrow> bytes) \<Rightarrow> faest \<Rightarrow> rec_json \<Rightarrow> bytes option \<Rightarrow> (nat \<Rightarrow> gotime) \<Rightarrow> serve_config \<Rightarrow> state_dir option \<Rightarrow>
   (serve_error, server) result" where
  "boot h F J rnd clock cf dir =
     bind_result (initKT h F rnd clock (rt_verifiers cf)) (\<lambda>kt.
     (case dir of
        None \<Rightarrow> Inr (serve_config.extend cf \<lparr>rt_journal = None, rt_stores = fresh_stores, rt_kt = kt\<rparr>)
      | Some d \<Rightarrow>
          (case openJournal J d fresh_stores of
             (st, Inl e) \<Rightarrow> Inl (SState e)
           | (st, Inr j) \<Rightarrow> Inr (serve_config.extend cf \<lparr>rt_journal = j, rt_stores = st, rt_kt = kt\<rparr>))))"

text \<open>\<^verbatim>\<open>cmdServe\<close> up to listening, without the EVP rail (see theory \<open>Evp\<close>).\<close>

definition cmdServe ::
  "'ps crypto \<Rightarrow> faest \<Rightarrow> cli_json \<Rightarrow> rec_json \<Rightarrow> (bytes \<Rightarrow> policy_source option) \<Rightarrow> os \<Rightarrow> serve_flags \<Rightarrow>
   bytes option \<Rightarrow> bytes option \<Rightarrow> (nat \<Rightarrow> gotime) \<Rightarrow> state_dir option \<Rightarrow> (serve_error, server) result" where
  "cmdServe c F CJ J json w fl fresh rnd clock dir =
     guard (sf_policy fl \<noteq> []) SUsage
     (guard ((sf_tlsCert fl = []) = (sf_tlsKey fl = [])) STLSPair
     (bind_result (load_verifiers (loadIssuer c CJ fresh w) {} (split_char (CHR '','') (sf_issuer fl))) (\<lambda>verifiers.
      guard (verifiers \<noteq> []) SNoIssuer
     (bind_result (load_policy F json w fl) (\<lambda>policy.
      bind_result (map_error SService (service_NewIssuer (Some (hd verifiers)) None)) (\<lambda>svc.
      boot (sha256 c) F J rnd clock
        \<lparr>rt_verifiers = verifiers, rt_svc = svc, rt_policy = policy, rt_maxSkew = sf_maxSkew fl\<rparr> dir))))))"

section \<open>Handlers\<close>

datatype reply_body =
    RError serve_error
  | RDenied mint_decision
  | RRefused service_error mint_decision
  | RSigned "string list" mint_decision
  | ROk
  | RPseudonym string
  | RKT string "key_record list" signed_head
  | RIssuer u32 string string string

type_synonym reply = "nat \<times> reply_body"

definition handleKT :: "server \<Rightarrow> reply" where
  "handleKT s = (200, RKT (hex_encode (kt_logPub (rt_kt s))) (kt_records (rt_kt s)) (kt_sth (rt_kt s)))"

definition handleIssuerInfo :: "server \<Rightarrow> reply" where
  "handleIssuerInfo s =
     (200, RIssuer (is_keyVersion (rt_issuer s)) (hex_encode (is_tokenKeyID (rt_issuer s)))
        (b64url_encode (is_epk (rt_issuer s))) (b64url_encode (is_cpk (rt_issuer s))))"

record blind_sign_request =
  bs_TokenFamily :: string
  bs_BlindedB64 :: "string list"
  bs_Subject :: subject
  bs_Eligibility :: "eligibility list"
  bs_Origin :: string
  bs_Address :: string

fun decode_blinded :: "nat \<Rightarrow> string list \<Rightarrow> (serve_error, bytes list) result" where
  "decode_blinded n [] = Inr []"
| "decode_blinded n (b # bs) =
     bind_result (of_option (SBlindedB64 n) (b64url_decode b)) (\<lambda>x.
     bind_result (decode_blinded (Suc n) bs) (\<lambda>xs. Inr (x # xs)))"

definition blind_mint_of :: "'ps crypto \<Rightarrow> server \<Rightarrow> blind_sign_request \<Rightarrow> bytes list \<Rightarrow> mint_request" where
  "blind_mint_of c s req blinded =
     \<lparr>mq_Subject = bs_Subject req, mq_Eligibility = bs_Eligibility req, mq_TokenFamily = bs_TokenFamily req,
      mq_Count = int (length blinded), mq_KeyVersion = is_keyVersion (rt_issuer s), mq_Origin = bs_Origin req,
      mq_Address = bs_Address req, mq_Binding = BindingOf c blinded\<rparr>"

definition handleBlindSign ::
  "utables \<Rightarrow> 'ps crypto \<Rightarrow> rec_json \<Rightarrow> server \<Rightarrow> blind_sign_request option \<Rightarrow> gotime \<Rightarrow> write_outcome \<Rightarrow>
   server \<times> reply" where
  "handleBlindSign u c J s body now w =
     (case body of None \<Rightarrow> (s, 400, RError SBody)
      | Some req \<Rightarrow>
          (case decode_blinded 0 (bs_BlindedB64 req) of
             Inl e \<Rightarrow> (s, 400, RError e)
           | Inr blinded \<Rightarrow>
               (case AuthorizeMint u (Some (rt_policy s)) (blind_mint_of c s req blinded)
                       (Some (journaled_Reserve J w)) (st_budgets (rt_stores s), rt_journal s) now of
                  ((m, j), decision) \<Rightarrow>
                    (let s' = s\<lparr>rt_stores := (rt_stores s)\<lparr>st_budgets := m\<rparr>, rt_journal := j\<rparr> in
                     if \<not> md_Allow decision then (s', 403, RDenied decision)
                     else
                       (case SignAuthorizedBlind c (rt_svc s)
                               \<lparr>bm_Decision = decision, bm_Family = bs_TokenFamily req, bm_Blinded = blinded, bm_Now = now\<rparr> of
                          Inl e \<Rightarrow> (s', 403, RRefused e decision)
                        | Inr sigs \<Rightarrow> (s', 200, RSigned (map b64url_encode sigs) decision))))))"

record verify_burn_request =
  vb_TokenB64 :: string
  vb_ChallengeB64 :: string

definition handleVerifyBurn ::
  "'ps crypto \<Rightarrow> rec_json \<Rightarrow> server \<Rightarrow> verify_burn_request option \<Rightarrow> write_outcome \<Rightarrow> server \<times> reply" where
  "handleVerifyBurn c J s body w =
     (case body of None \<Rightarrow> (s, 400, RError SBody)
      | Some req \<Rightarrow>
     (case b64url_decode (vb_TokenB64 req) of None \<Rightarrow> (s, 400, RError STokenB64)
      | Some tokenBytes \<Rightarrow>
     (case b64url_decode (vb_ChallengeB64 req) of None \<Rightarrow> (s, 400, RError SChallengeB64)
      | Some challenge \<Rightarrow>
     (case ParseBurnToken tokenBytes of Inl e \<Rightarrow> (s, 400, RError (SProfile e))
      | Inr token \<Rightarrow>
     (case issuerForKeyID s (bt_TokenKeyID token) of None \<Rightarrow> (s, 401, RError SUnknownKey)
      | Some iss \<Rightarrow>
     (case VerifyBurnToken c iss token (sha256 c challenge) of Inl e \<Rightarrow> (s, 401, RError (SProfile e))
      | Inr _ \<Rightarrow>
     (case CheckAndMark (st_spent (rt_stores s)) (is_keyVersion iss) (bt_Nonce token) of
        (m, Some e) \<Rightarrow> (s\<lparr>rt_stores := (rt_stores s)\<lparr>st_spent := m\<rparr>\<rparr>, 409, RError (SSpent e))
      | (m, None) \<Rightarrow>
     (case journal_spend J w (rt_journal s) (is_keyVersion iss) (bt_Nonce token) of
        (j, Some e) \<Rightarrow> (s\<lparr>rt_stores := (rt_stores s)\<lparr>st_spent := m\<rparr>, rt_journal := j\<rparr>, 500, RError (SJournal e))
      | (j, None) \<Rightarrow> (s\<lparr>rt_stores := (rt_stores s)\<lparr>st_spent := m\<rparr>, rt_journal := j\<rparr>, 200, ROk)))))))))"

record verify_pvt_request =
  vp_TokenB64 :: string
  vp_Origin :: string
  vp_NonceB64 :: string
  vp_IssuedAt :: int
  vp_SignatureB64 :: string

definition replayKey :: "string \<Rightarrow> bytes \<Rightarrow> string" where
  "replayKey origin nonce = origin @ [CHR 0x00] @ string_of nonce"

text \<open>The nonce is marked used before the presentation is verified.\<close>

definition handleVerifyPvt ::
  "'ps crypto \<Rightarrow> rec_json \<Rightarrow> server \<Rightarrow> verify_pvt_request option \<Rightarrow> gotime \<Rightarrow> write_outcome \<Rightarrow> server \<times> reply" where
  "handleVerifyPvt c J s body now w =
     (case body of None \<Rightarrow> (s, 400, RError SBody)
      | Some req \<Rightarrow>
     (case b64url_decode (vp_TokenB64 req) of None \<Rightarrow> (s, 400, RError STokenB64)
      | Some tokenBytes \<Rightarrow>
     (case ParsePrivateIdentityToken tokenBytes of Inl e \<Rightarrow> (s, 400, RError (SProfile e))
      | Inr token \<Rightarrow>
     (case b64url_decode (vp_NonceB64 req) of None \<Rightarrow> (s, 400, RError SNonceB64)
      | Some nonce \<Rightarrow>
     if length nonce \<noteq> 32 then (s, 400, RError SNonceB64) else
     (case b64url_decode (vp_SignatureB64 req) of None \<Rightarrow> (s, 400, RError SSignatureB64)
      | Some signature \<Rightarrow>
     (let key = replayKey (vp_Origin req) nonce in
      if key \<in> st_seen (rt_stores s) then (s, 409, RError SReplay)
      else
     (case journal_pvt J w (rt_journal s) key of
        (j, err) \<Rightarrow>
     (let s' = s\<lparr>rt_stores := (rt_stores s)\<lparr>st_seen := insert key (st_seen (rt_stores s))\<rparr>, rt_journal := j\<rparr> in
      case err of Some e \<Rightarrow> (s', 500, RError (SJournal e))
      | None \<Rightarrow>
     (case issuerForKeyID s (pi_TokenKeyID (pt_Input token)) of None \<Rightarrow> (s', 401, RError SUnknownKey)
      | Some iss \<Rightarrow>
     (case VerifyPrivateIdentityPresentation c iss
             \<lparr>pp_Token = token, pp_Origin = vp_Origin req, pp_Nonce = nonce, pp_IssuedAt = vp_IssuedAt req,
              pp_Signature = signature\<rparr> now (rt_maxSkew s) of
        Inl e \<Rightarrow> (s', 401, RError (SProfile e))
      | Inr pseudonym \<Rightarrow> (s', 200, RPseudonym (hex_encode pseudonym))))))))))))"

section \<open>A running server\<close>

datatype http_request =
    HBlindSign "blind_sign_request option" gotime write_outcome
  | HVerifyBurn "verify_burn_request option" write_outcome
  | HVerifyPvt "verify_pvt_request option" gotime write_outcome
  | HKT | HIssuerInfo
  | HRestart "bytes option" "nat \<Rightarrow> gotime"

text \<open>The server and whether it is up; a restart goes through start-up again with the same files.\<close>

type_synonym runtime = "server \<times> bool"

definition serve_restart ::
  "(bytes \<Rightarrow> bytes) \<Rightarrow> faest \<Rightarrow> rec_json \<Rightarrow> server \<Rightarrow> bytes option \<Rightarrow> (nat \<Rightarrow> gotime) \<Rightarrow> runtime \<times> reply" where
  "serve_restart h F J s rnd clock =
     (case boot h F J rnd clock (serve_config.truncate s) (map_option left_behind (rt_journal s)) of
        Inr s' \<Rightarrow> ((s', True), 200, ROk)
      | Inl e \<Rightarrow> ((s, False), 503, RError e))"

fun serve_step ::
  "utables \<Rightarrow> 'ps crypto \<Rightarrow> faest \<Rightarrow> rec_json \<Rightarrow> runtime \<Rightarrow> http_request \<Rightarrow> runtime \<times> reply" where
  "serve_step u c F J (s, up) (HRestart rnd clock) = serve_restart (sha256 c) F J s rnd clock"
| "serve_step u c F J (s, True) (HBlindSign body now w) =
     apfst (\<lambda>s'. (s', True)) (handleBlindSign u c J s body now w)"
| "serve_step u c F J (s, True) (HVerifyBurn body w) = apfst (\<lambda>s'. (s', True)) (handleVerifyBurn c J s body w)"
| "serve_step u c F J (s, True) (HVerifyPvt body now w) =
     apfst (\<lambda>s'. (s', True)) (handleVerifyPvt c J s body now w)"
| "serve_step u c F J (s, True) HKT = ((s, True), handleKT s)"
| "serve_step u c F J (s, True) HIssuerInfo = ((s, True), handleIssuerInfo s)"
| "serve_step u c F J (s, False) i = ((s, False), 503, RError SRandom)"

section \<open>The handlers refine the journaled stores\<close>

definition serve_abs :: "runtime \<Rightarrow> journal_state" where
  "serve_abs r = (if snd r then Some (rt_stores (fst r)) else None, rt_journal (fst r))"

definition serve_inv :: "issuer list \<Rightarrow> policy \<Rightarrow> runtime \<Rightarrow> bool" where
  "serve_inv vs p r \<longleftrightarrow> rt_verifiers (fst r) = vs \<and> rt_policy (fst r) = p \<and> rt_journal (fst r) \<noteq> None
     \<and> wf_policy p \<and> small_budgets p"

definition bucket_sane :: "eligibility \<Rightarrow> bool" where
  "bucket_sane e \<longleftrightarrow> ascii (el_BucketID e) \<and> length (el_BucketID e) \<le> 2 ^ 15"

text \<open>Requests of ordinary size, and writes that fail cleanly.\<close>

fun http_sane :: "http_request \<Rightarrow> bool" where
  "http_sane (HBlindSign body now w) \<longleftrightarrow> clean w \<and> 0 \<le> unix now \<and> unix now < 2 ^ 62
     \<and> (\<forall>req. body = Some req \<longrightarrow> list_all bucket_sane (bs_Eligibility req) \<and> length (bs_BlindedB64 req) < 2 ^ 62)"
| "http_sane (HVerifyBurn body w) \<longleftrightarrow> clean w"
| "http_sane (HVerifyPvt body now w) \<longleftrightarrow> clean w \<and> (\<forall>req. body = Some req \<longrightarrow> length (vp_Origin req) \<le> 32000)"
| "http_sane _ \<longleftrightarrow> True"

text \<open>The spend a verification request asks for.\<close>

definition burn_key :: "issuer list \<Rightarrow> verify_burn_request \<Rightarrow> (u32 \<times> bytes) option" where
  "burn_key vs req =
     Option.bind (b64url_decode (vb_TokenB64 req)) (\<lambda>b.
       case ParseBurnToken b of
         Inl _ \<Rightarrow> None
       | Inr t \<Rightarrow> map_option (\<lambda>i. (is_keyVersion i, bt_Nonce t)) (find (\<lambda>v. is_tokenKeyID v = bt_TokenKeyID t) vs))"

fun burn_redeemed :: "issuer list \<Rightarrow> u32 \<Rightarrow> bytes \<Rightarrow> http_request \<Rightarrow> reply \<Rightarrow> bool" where
  "burn_redeemed vs e n (HVerifyBurn (Some req) w) out \<longleftrightarrow> fst out = 200 \<and> burn_key vs req = Some (e, n)"
| "burn_redeemed vs e n _ out \<longleftrightarrow> False"

fun pvt_accepted :: "string \<Rightarrow> bytes \<Rightarrow> http_request \<Rightarrow> reply \<Rightarrow> bool" where
  "pvt_accepted origin n (HVerifyPvt (Some req) now w) out \<longleftrightarrow>
     fst out = 200 \<and> vp_Origin req = origin \<and> b64url_decode (vp_NonceB64 req) = Some n"
| "pvt_accepted origin n _ out \<longleftrightarrow> False"

text \<open>The tokens a reply hands out, charged to a budget key in epoch \<open>e\<close> of windows of \<open>W\<close> seconds.\<close>

fun signed_tokens :: "string \<Rightarrow> int \<Rightarrow> int \<Rightarrow> http_request \<Rightarrow> reply \<Rightarrow> int" where
  "signed_tokens key W e (HBlindSign body now w) (st, RSigned sigs d) =
     (if mc_BudgetKey (md_Constraints d) = key \<and> unix now div W = e then int (length sigs) else 0)"
| "signed_tokens key W e _ _ = 0"

lemma signed_tokens_only: "\<nexists>body now w sigs d. i = HBlindSign body now w \<and> snd out = RSigned sigs d \<Longrightarrow> signed_tokens key W e i out = 0"
  by (cases "(key, W, e, i, out)" rule: signed_tokens.cases) auto

text \<open>What a reply is worth in journal entries.\<close>

definition http_pays :: "issuer list \<Rightarrow> policy \<Rightarrow> http_request \<Rightarrow> reply \<Rightarrow> (journal_op \<times> journal_out) list \<Rightarrow> bool" where
  "http_pays vs p i out tr \<longleftrightarrow>
     (\<forall>e n. of_bool (burn_redeemed vs e n i out) \<le> (sum_list (map (\<lambda>(j, q). of_bool (acked_spend e n j q)) tr) :: int))
   \<and> (\<forall>or n. of_bool (pvt_accepted or n i out) \<le> (sum_list (map (\<lambda>(j, q). of_bool (acked_pvt (replayKey or n) j q)) tr) :: int))
   \<and> (\<forall>gate bucket grp rule e. validName gate \<longrightarrow> po_budgets p grp = Some rule \<longrightarrow>
        signed_tokens (group_key gate bucket grp) (br_WindowSeconds rule) e i out
          \<le> sum_list (map (\<lambda>(j, q). acked_grant (group_window rule (group_key gate bucket grp) e) (br_Limit rule) j q) tr))"

lemma http_pays_nothing:
  assumes "\<And>e n. \<not> burn_redeemed vs e n i out" "\<And>or n. \<not> pvt_accepted or n i out" "\<And>key W e. signed_tokens key W e i out = 0"
  shows "http_pays vs p i out []"
  using assms by (simp add: http_pays_def)

text \<open>Past its checks, a burn verification is a journaled spend.\<close>

lemma handleVerifyBurn_cases:
  obtains st e where "handleVerifyBurn c J s (Some req) w = (s, st, RError e)" "st \<noteq> 200"
  | e n st j out r where "burn_key (rt_verifiers s) req = Some (e, n)" "length n = 32"
      "do_spend J w (rt_stores s, rt_journal s) e n = ((st, j), out)"
      "handleVerifyBurn c J s (Some req) w = (s\<lparr>rt_stores := st, rt_journal := j\<rparr>, r)" "fst r = 200 \<longleftrightarrow> out = Acked"
proof (cases "\<exists>b t i ch. b64url_decode (vb_TokenB64 req) = Some b \<and> b64url_decode (vb_ChallengeB64 req) = Some ch
    \<and> ParseBurnToken b = Inr t \<and> issuerForKeyID s (bt_TokenKeyID t) = Some i \<and> VerifyBurnToken c i t (sha256 c ch) = Inr ()")
  case False
  then have "\<exists>st e. handleVerifyBurn c J s (Some req) w = (s, st, RError e) \<and> st \<noteq> 200"
    by (auto simp: handleVerifyBurn_def split: option.splits sum.splits)
  then show ?thesis using that(1) by blast
next
  case True
  then obtain b t i ch where ok: "b64url_decode (vb_TokenB64 req) = Some b" "b64url_decode (vb_ChallengeB64 req) = Some ch"
    "ParseBurnToken b = Inr t" "issuerForKeyID s (bt_TokenKeyID t) = Some i" "VerifyBurnToken c i t (sha256 c ch) = Inr ()"
    by blast
  have len: "length (bt_Nonce t) = 32" using ok(3) parse_burn_exact [of b t] by (simp add: wf_burn_def)
  have key: "burn_key (rt_verifiers s) req = Some (is_keyVersion i, bt_Nonce t)"
    using ok by (simp add: burn_key_def issuerForKeyID_def)
  obtain st j out where d: "do_spend J w (rt_stores s, rt_journal s) (is_keyVersion i) (bt_Nonce t) = ((st, j), out)"
    by (metis surj_pair)
  have "\<exists>r. handleVerifyBurn c J s (Some req) w = (s\<lparr>rt_stores := st, rt_journal := j\<rparr>, r) \<and> (fst r = 200 \<longleftrightarrow> out = Acked)"
    using d ok by (auto simp: handleVerifyBurn_def do_spend_def ack_def split: option.splits prod.splits)
  then show ?thesis using that(2) [OF key len d] by blast
qed

text \<open>Past its checks, a presentation takes its nonce first.\<close>

lemma handleVerifyPvt_cases:
  obtains st e where "handleVerifyPvt c J s (Some req) now w = (s, st, RError e)" "st \<noteq> 200"
  | n st j out r where "b64url_decode (vp_NonceB64 req) = Some n" "length n = 32"
      "do_pvt J w (rt_stores s, rt_journal s) (replayKey (vp_Origin req) n) = ((st, j), out)"
      "handleVerifyPvt c J s (Some req) now w = (s\<lparr>rt_stores := st, rt_journal := j\<rparr>, r)" "fst r = 200 \<Longrightarrow> out = Acked"
proof (cases "\<exists>b t n sig. b64url_decode (vp_TokenB64 req) = Some b \<and> ParsePrivateIdentityToken b = Inr t
    \<and> b64url_decode (vp_NonceB64 req) = Some n \<and> length n = 32 \<and> b64url_decode (vp_SignatureB64 req) = Some sig")
  case False
  then have "\<exists>st e. handleVerifyPvt c J s (Some req) now w = (s, st, RError e) \<and> st \<noteq> 200"
    by (auto simp: handleVerifyPvt_def split: option.splits sum.splits)
  then show ?thesis using that(1) by blast
next
  case True
  then obtain b t n sig where ok: "b64url_decode (vp_TokenB64 req) = Some b" "ParsePrivateIdentityToken b = Inr t"
    "b64url_decode (vp_NonceB64 req) = Some n" "length n = 32" "b64url_decode (vp_SignatureB64 req) = Some sig"
    by blast
  obtain st j out where d: "do_pvt J w (rt_stores s, rt_journal s) (replayKey (vp_Origin req) n) = ((st, j), out)"
    by (metis surj_pair)
  have "\<exists>r. handleVerifyPvt c J s (Some req) now w = (s\<lparr>rt_stores := st, rt_journal := j\<rparr>, r) \<and> (fst r = 200 \<longrightarrow> out = Acked)"
    using d ok by (auto simp: handleVerifyPvt_def do_pvt_def ack_def Let_def split: option.splits prod.splits sum.splits if_splits)
  then show ?thesis using that(2) [OF ok(3,4) d] by blast
qed

lemma SignAuthorizedBlind_length:
  "SignAuthorizedBlind c sv req = Inr sigs \<Longrightarrow> length sigs = length (bm_Blinded req)"
  using SignAuthorizedBlind_Inr [of c sv req sigs] BlindSign_length by fastforce

lemma decode_blinded_length: "decode_blinded n bs = Inr xs \<Longrightarrow> length xs = length bs"
  by (induction n bs arbitrary: xs rule: decode_blinded.induct) (auto simp: result_simps)

text \<open>A permitted mint is a journaled reservation; anything else leaves the stores alone.\<close>

lemma handleBlindSign_cases:
  obtains r where "handleBlindSign u c J s (Some req) now w = (s, r)" "\<And>sigs d. snd r \<noteq> RSigned sigs d"
  | blinded tok elig budget st j err r where
      "decode_blinded 0 (bs_BlindedB64 req) = Inr blinded"
      "mint_permitted u (rt_policy s) (blind_mint_of c s req blinded) now tok elig budget"
      "do_reserve J w (rt_stores s, rt_journal s) (budget_key_of elig tok) (int (length blinded)) (br_Limit budget)
         (seconds (br_WindowSeconds budget)) now = ((st, j), err)"
      "handleBlindSign u c J s (Some req) now w = (s\<lparr>rt_stores := st, rt_journal := j\<rparr>, r)"
      "\<And>sigs d. snd r = RSigned sigs d \<Longrightarrow> err = None \<and> length sigs = length blinded
         \<and> mc_BudgetKey (md_Constraints d) = budget_key_of elig tok"
proof (cases "decode_blinded 0 (bs_BlindedB64 req)")
  case (Inl e)
  then show ?thesis by (intro that(1) [of "(400, RError e)"]) (simp_all add: handleBlindSign_def)
next
  case (Inr blinded)
  let ?q = "blind_mint_of c s req blinded"
  show ?thesis
  proof (cases "\<exists>tok elig budget. mint_permitted u (rt_policy s) ?q now tok elig budget")
    case False
    obtain checks d where "AuthorizeMint u (Some (rt_policy s)) ?q (Some (journaled_Reserve J w))
        (st_budgets (rt_stores s), rt_journal s) now = ((st_budgets (rt_stores s), rt_journal s), denial checks d)"
      using AuthorizeMint_refused [OF False] by metis
    then show ?thesis using Inr
      by (intro that(1) [of "(403, RDenied (denial checks d))"]) (simp_all add: handleBlindSign_def Let_def)
  next
    case True
    then obtain tok elig budget where ok: "mint_permitted u (rt_policy s) ?q now tok elig budget" by blast
    have cnt: "mq_Count ?q = int (length blinded)" by (simp add: blind_mint_of_def)
    obtain m j err where rv: "journaled_Reserve J w (st_budgets (rt_stores s), rt_journal s) (budget_key_of elig tok)
        (int (length blinded)) (br_Limit budget) (seconds (br_WindowSeconds budget)) now = ((m, j), err)"
      by (metis surj_pair)
    then have d: "do_reserve J w (rt_stores s, rt_journal s) (budget_key_of elig tok) (int (length blinded)) (br_Limit budget)
         (seconds (br_WindowSeconds budget)) now = (((rt_stores s)\<lparr>st_budgets := m\<rparr>, j), err)"
      by (simp add: do_reserve_def)
    obtain dec where am: "AuthorizeMint u (Some (rt_policy s)) ?q (Some (journaled_Reserve J w))
        (st_budgets (rt_stores s), rt_journal s) now = ((m, j), dec)"
      and dec: "md_Allow dec \<Longrightarrow> err = None \<and> mc_BudgetKey (md_Constraints dec) = budget_key_of elig tok"
      using AuthorizeMint_permitted [OF ok, of "Some (journaled_Reserve J w)" "(st_budgets (rt_stores s), rt_journal s)"]
      by (cases err) (simp_all add: charge_def rv cnt denial_def)
    define r where "r = snd (handleBlindSign u c J s (Some req) now w)"
    have h: "handleBlindSign u c J s (Some req) now w = (s\<lparr>rt_stores := (rt_stores s)\<lparr>st_budgets := m\<rparr>, rt_journal := j\<rparr>, r)"
      unfolding r_def by (auto simp: handleBlindSign_def Inr am Let_def split: sum.splits)
    have "err = None \<and> length sigs = length blinded \<and> mc_BudgetKey (md_Constraints d) = budget_key_of elig tok"
      if "snd r = RSigned sigs d" for sigs d
      using that dec unfolding r_def
      by (auto simp: handleBlindSign_def Inr am Let_def dest!: SignAuthorizedBlind_length split: sum.splits if_splits)
    then show ?thesis using that(2) [OF Inr ok d h] by blast
  qed
qed

lemma validName_ascii: "validName n \<Longrightarrow> ascii n \<and> length n \<le> 64"
  by (auto simp: validName_def ascii_def list_all_iff is_ascii_def name_char_def in_range_def split: list.splits)

lemma mint_reserve_sane:
  assumes "wf_policy p" "small_budgets p" "mint_permitted u p req now tok elig budget"
    and "list_all bucket_sane (mq_Eligibility req)" "0 \<le> unix now" "unix now < 2 ^ 62" "mq_Count req < 2 ^ 62"
  shows "reserve_sane (budget_key_of elig tok) (mq_Count req) (br_Limit budget) (seconds (br_WindowSeconds budget)) now"
    and "0 < br_WindowSeconds budget" "br_WindowSeconds budget < 2 ^ 32"
proof -
  have b: "po_budgets p (ct_budgetGroup tok) = Some budget" and f: "find (eligible u p tok) (mq_Eligibility req) = Some elig"
    and cnt: "0 < mq_Count req"
    using assms(3) by (simp_all add: mint_permitted_def request_satisfied_def)
  then have e: "bucket_sane elig" using assms(4) by (auto simp: find_Some_iff list_all_length)
  have lim: "0 < br_Limit budget" "br_Limit budget < 2 ^ 62" and win: "0 < br_WindowSeconds budget" "br_WindowSeconds budget < 2 ^ 32"
    using b assms(1,2) by (auto simp: wf_policy_def small_budgets_def)
  have "seconds (br_WindowSeconds budget) = br_WindowSeconds budget * second"
    using seconds_small [OF win] by simp
  then have "whole_window (seconds (br_WindowSeconds budget))"
    using win by (simp add: whole_window_def is_int64_def second_def sdiv_nonneg)
  then show "reserve_sane (budget_key_of elig tok) (mq_Count req) (br_Limit budget) (seconds (br_WindowSeconds budget)) now"
    using mint_permitted_names [OF assms(1,3)] validName_ascii [of "el_GateKind elig"] validName_ascii [of "ct_budgetGroup tok"]
      e lim cnt assms(5-7)
    by (auto simp: reserve_sane_def budget_key_of_def bucket_sane_def ascii_def is_ascii_def small_req_def is_int64_def)
  show "0 < br_WindowSeconds budget" "br_WindowSeconds budget < 2 ^ 32" by (fact win)+
qed

lemma serve_abs_up [simp]: "serve_abs (s, True) = (Some (rt_stores s), rt_journal s)"
  "serve_abs (s, False) = (None, rt_journal s)"
  by (simp_all add: serve_abs_def)

lemma blind_sign_matched:
  assumes "serve_inv vs p (s, True)" "http_sane (HBlindSign body now w)"
  shows "\<exists>js. list_all journal_op_sane js
    \<and> serve_abs (fst (serve_step u c F J (s, True) (HBlindSign body now w))) = run_state (journal_step J) (serve_abs (s, True)) js
    \<and> http_pays vs p (HBlindSign body now w) (snd (serve_step u c F J (s, True) (HBlindSign body now w)))
        (run_trace (journal_step J) (serve_abs (s, True)) js)"
proof (cases body)
  case None
  then show ?thesis
    by (intro exI [of _ "[]"]) (simp add: handleBlindSign_def http_pays_nothing)
next
  case (Some req)
  have p: "rt_policy s = p" "wf_policy p" "small_budgets p" using assms(1) by (simp_all add: serve_inv_def)
  show ?thesis
  proof (cases rule: handleBlindSign_cases [of u c J s req now w])
    case (1 r)
    then have "http_pays vs p (HBlindSign body now w) r []"
      by (intro http_pays_nothing signed_tokens_only) auto
    then show ?thesis using 1 Some by (intro exI [of _ "[]"]) simp
  next
    case (2 blinded tok elig budget st j err r)
    let ?q = "blind_mint_of c s req blinded" and ?key = "budget_key_of elig tok"
    let ?op = "JReserve ?key (int (length blinded)) (br_Limit budget) (seconds (br_WindowSeconds budget)) now w"
    have ok: "mint_permitted u p ?q now tok elig budget" using 2(2) p(1) by simp
    have cnt: "mq_Count ?q = int (length blinded)" "mq_Eligibility ?q = bs_Eligibility req"
      by (simp_all add: blind_mint_of_def)
    note sane = mint_reserve_sane [OF p(2,3) ok]
    have sane1: "journal_op_sane ?op" and win: "0 < br_WindowSeconds budget" "br_WindowSeconds budget < 2 ^ 32"
      using sane assms(2) Some cnt decode_blinded_length [OF 2(1)] by simp_all
    have step: "journal_step J (serve_abs (s, True)) ?op = ((Some st, j), if err = None then Acked else Refused)"
      using 2(3) by (cases err) simp_all
    have "signed_tokens (group_key gate bucket grp) (br_WindowSeconds rule) e (HBlindSign body now w) r
        \<le> acked_grant (group_window rule (group_key gate bucket grp) e) (br_Limit rule) ?op (if err = None then Acked else Refused)"
      if g: "validName gate" "po_budgets p grp = Some rule" for gate bucket grp rule e
    proof (cases "\<exists>sigs d. snd r = RSigned sigs d \<and> mc_BudgetKey (md_Constraints d) = group_key gate bucket grp
        \<and> unix now div br_WindowSeconds rule = e")
      case False
      have "0 \<le> acked_grant (group_window rule (group_key gate bucket grp) e) (br_Limit rule) ?op (if err = None then Acked else Refused)"
        by simp
      then show ?thesis using False by (cases r; cases "snd r") auto
    next
      case True
      then obtain sigs d where r: "snd r = RSigned sigs d" "mc_BudgetKey (md_Constraints d) = group_key gate bucket grp"
        "unix now div br_WindowSeconds rule = e" by blast
      have key: "?key = group_key gate bucket grp" and none: "err = None" "length sigs = length blinded"
        using 2(5) [OF r(1)] r(2) by simp_all
      have "validName grp" using p(2) g(2) unfolding wf_policy_def by blast
      then have "ct_budgetGroup tok = grp"
        using budget_key_of_inject [OF g(1) _ _ _ key [unfolded group_key_def]] mint_permitted_names [OF p(2) ok] by simp
      then have rule: "budget = rule" using ok g(2) by (simp add: mint_permitted_def)
      have "window_key ?key (seconds (br_WindowSeconds budget)) now = group_window rule ?key e"
        using window_key_seconds [OF win, of now ?key] assms(2) r(3) rule by (simp add: group_window_def)
      then show ?thesis using r none key rule by (cases r) simp
    qed
    then have "http_pays vs p (HBlindSign body now w) r [(?op, if err = None then Acked else Refused)]"
      by (auto simp: http_pays_def Some)
    then show ?thesis using 2(4) Some step sane1
      by (intro exI [of _ "[?op]"]) (simp del: journal_step.simps journal_op_sane.simps serve_abs_up add: serve_abs_def)
  qed
qed

lemma verify_matched:
  assumes "http_sane i" "(\<exists>body w. i = HVerifyBurn body w) \<or> (\<exists>body now w. i = HVerifyPvt body now w)" "serve_inv vs p (s, True)"
  shows "\<exists>js. list_all journal_op_sane js
    \<and> serve_abs (fst (serve_step u c F J (s, True) i)) = run_state (journal_step J) (serve_abs (s, True)) js
    \<and> http_pays vs p i (snd (serve_step u c F J (s, True) i)) (run_trace (journal_step J) (serve_abs (s, True)) js)"
proof -
  have vs: "rt_verifiers s = vs" using assms(3) by (simp add: serve_inv_def)
  consider w where "i = HVerifyBurn None w" | now w where "i = HVerifyPvt None now w"
    | req w where "i = HVerifyBurn (Some req) w" | req now w where "i = HVerifyPvt (Some req) now w"
    using assms(2) by (metis option.exhaust)
  then show ?thesis
  proof cases
    case 1
    then show ?thesis by (intro exI [of _ "[]"]) (simp add: handleVerifyBurn_def http_pays_nothing)
  next
    case 2
    then show ?thesis by (intro exI [of _ "[]"]) (simp add: handleVerifyPvt_def http_pays_nothing)
  next
    case (3 req w)
    show ?thesis
    proof (cases rule: handleVerifyBurn_cases [of c J s req w])
      case (1 st e)
      then show ?thesis using 3 by (intro exI [of _ "[]"]) (simp add: http_pays_nothing)
    next
      case (2 e n st j out r)
      have "http_pays vs p i r [(JSpend e n w, out)]"
        using 2(1,5) 3 vs by (auto simp: http_pays_def signed_tokens_only)
      then show ?thesis using 2 3 assms(1) by (intro exI [of _ "[JSpend e n w]"]) simp
    qed
  next
    case (4 req now w)
    show ?thesis
    proof (cases rule: handleVerifyPvt_cases [of c J s req now w])
      case (1 st e)
      then show ?thesis using 4 by (intro exI [of _ "[]"]) (simp add: http_pays_nothing)
    next
      case (2 n st j out r)
      have "http_pays vs p i r [(JPvt (replayKey (vp_Origin req) n) w, out)]"
        using 2(1,5) 4 by (auto simp: http_pays_def signed_tokens_only)
      then show ?thesis using 2 4 assms(1)
        by (intro exI [of _ "[JPvt (replayKey (vp_Origin req) n) w]"]) (simp add: replayKey_def)
    qed
  qed
qed

lemma openJournal_journal: "openJournal J d st = (st', Inr j) \<Longrightarrow> j \<noteq> None"
  by (auto simp: openJournal_def dest: sym split: if_splits option.splits prod.splits)

lemma serve_restart_cases:
  assumes "rt_journal s = Some f"
  obtains e where "serve_restart h F J s rnd clock = ((s, False), 503, RError e)"
  | s' st j where "serve_restart h F J s rnd clock = ((s', True), 200, ROk)" "rt_verifiers s' = rt_verifiers s"
      "rt_policy s' = rt_policy s" "rt_stores s' = st" "rt_journal s' = j" "openJournal J (left_behind f) fresh_stores = (st, Inr j)"
proof (cases "initKT h F rnd clock (rt_verifiers s)")
  case (Inl e)
  then show ?thesis using that(1) by (simp add: serve_restart_def boot_def serve_config.truncate_def)
next
  case (Inr kt)
  obtain st r where oj: "openJournal J (left_behind f) fresh_stores = (st, r)" by fastforce
  then show ?thesis using that(1) that(2) Inr assms
    by (cases r) (simp_all add: serve_restart_def boot_def serve_config.truncate_def serve_config.extend_def)
qed

lemma restart_matched:
  assumes "serve_inv vs p (s, up)"
  shows "\<exists>js. list_all journal_op_sane js
    \<and> serve_abs (fst (serve_restart (sha256 c) F J s rnd clock)) = run_state (journal_step J) (serve_abs (s, up)) js
    \<and> http_pays vs p (HRestart rnd clock) (snd (serve_restart (sha256 c) F J s rnd clock)) (run_trace (journal_step J) (serve_abs (s, up)) js)"
    and "serve_inv vs p (fst (serve_restart (sha256 c) F J s rnd clock))"
proof -
  have pays: "http_pays vs p (HRestart rnd clock) out [(j, q)]" if "j = JCrash \<or> j = JRestart" for out j q
    using that by (auto simp: http_pays_def signed_tokens_only)
  obtain f where f: "rt_journal s = Some f" using assms by (auto simp: serve_inv_def)
  obtain so where abs: "serve_abs (s, up) = (so, Some f)" using f by (auto simp: serve_abs_def)
  show "\<exists>js. list_all journal_op_sane js
    \<and> serve_abs (fst (serve_restart (sha256 c) F J s rnd clock)) = run_state (journal_step J) (serve_abs (s, up)) js
    \<and> http_pays vs p (HRestart rnd clock) (snd (serve_restart (sha256 c) F J s rnd clock)) (run_trace (journal_step J) (serve_abs (s, up)) js)"
  proof (cases rule: serve_restart_cases [OF f, of "sha256 c" F J rnd clock])
    case (1 e)
    then show ?thesis using f pays abs by (intro exI [of _ "[JCrash]"]) (cases so; simp)
  next
    case (2 s' st j)
    then show ?thesis using f pays abs by (intro exI [of _ "[JRestart]"]) (cases so; simp add: restart_def)
  qed
  show "serve_inv vs p (fst (serve_restart (sha256 c) F J s rnd clock))"
    by (cases rule: serve_restart_cases [OF f, of "sha256 c" F J rnd clock])
      (use assms openJournal_journal in \<open>auto simp: serve_inv_def\<close>)
qed

lemma handlers_keep_config:
  "rt_verifiers (fst (handleBlindSign u c J s b now w)) = rt_verifiers s \<and> rt_policy (fst (handleBlindSign u c J s b now w)) = rt_policy s"
  "rt_verifiers (fst (handleVerifyBurn c J s vb w)) = rt_verifiers s \<and> rt_policy (fst (handleVerifyBurn c J s vb w)) = rt_policy s"
  "rt_verifiers (fst (handleVerifyPvt c J s vp now w)) = rt_verifiers s \<and> rt_policy (fst (handleVerifyPvt c J s vp now w)) = rt_policy s"
  by (simp_all add: handleBlindSign_def handleVerifyBurn_def handleVerifyPvt_def Let_def split: option.splits sum.splits prod.splits)

lemma journal_append_open: "j \<noteq> None \<Longrightarrow> fst (journal_append J w j r) \<noteq> None"
  by (auto simp: journal_append_def split: option.splits write_outcome.splits)

lemma stores_keep_file:
  "j \<noteq> None \<Longrightarrow> do_spend J w (st, j) e n = ((st', j'), out) \<Longrightarrow> j' \<noteq> None"
  "j \<noteq> None \<Longrightarrow> do_pvt J w (st, j) key = ((st', j'), out) \<Longrightarrow> j' \<noteq> None"
  "j \<noteq> None \<Longrightarrow> do_reserve J w (st, j) bkey a l win t = ((st', j'), err) \<Longrightarrow> j' \<noteq> None"
  using journal_append_open [of j J w "spend_record e n"] journal_append_open [of j J w "pvt_record key"]
    journal_append_open [of j J w "budget_record bkey a l win t"]
  by (auto simp: do_spend_def do_pvt_def do_reserve_def journal_spend_def journal_pvt_def journaled_Reserve_def
      split: option.splits prod.splits if_splits)

lemma handlers_keep_file:
  assumes "rt_journal s \<noteq> None"
  shows "rt_journal (fst (handleBlindSign u c J s b now w)) \<noteq> None"
    "rt_journal (fst (handleVerifyBurn c J s vb w)) \<noteq> None"
    "rt_journal (fst (handleVerifyPvt c J s vp now w)) \<noteq> None"
proof -
  note keep = stores_keep_file [OF assms]
  show "rt_journal (fst (handleBlindSign u c J s b now w)) \<noteq> None"
  proof (cases b)
    case (Some req)
    then show ?thesis
      by (cases rule: handleBlindSign_cases [of u c J s req now w]) (use assms in \<open>auto dest: keep(3)\<close>)
  qed (use assms in \<open>simp add: handleBlindSign_def\<close>)
  show "rt_journal (fst (handleVerifyBurn c J s vb w)) \<noteq> None"
  proof (cases vb)
    case (Some req)
    then show ?thesis
      by (cases rule: handleVerifyBurn_cases [of c J s req w]) (use assms in \<open>auto dest: keep(1)\<close>)
  qed (use assms in \<open>simp add: handleVerifyBurn_def\<close>)
  show "rt_journal (fst (handleVerifyPvt c J s vp now w)) \<noteq> None"
  proof (cases vp)
    case (Some req)
    then show ?thesis
      by (cases rule: handleVerifyPvt_cases [of c J s req now w]) (use assms in \<open>auto dest: keep(2)\<close>)
  qed (use assms in \<open>simp add: handleVerifyPvt_def\<close>)
qed

interpretation serving: simulation "serve_step u c F J" "journal_step J" serve_abs "serve_inv vs p" http_sane journal_op_sane
  "http_pays vs p" for u c F J vs p
proof
  fix r :: runtime and i
  assume inv: "serve_inv vs p r" and i: "http_sane i"
  obtain s up where r: "r = (s, up)" by fastforce
  have inv': "serve_inv vs p (s, up)" using inv r by simp
  have idle: "\<exists>js. list_all journal_op_sane js \<and> serve_abs (s, up) = run_state (journal_step J) (serve_abs (s, up)) js
      \<and> http_pays vs p i out (run_trace (journal_step J) (serve_abs (s, up)) js)" if "fst out \<noteq> 200 \<or> i = HKT \<or> i = HIssuerInfo" and "\<And>sigs d. snd out \<noteq> RSigned sigs d" for out
    by (intro exI [of _ "[]"]) (use that in \<open>auto simp: signed_tokens_only intro!: http_pays_nothing elim!: burn_redeemed.elims pvt_accepted.elims\<close>)
  show "\<exists>js. list_all journal_op_sane js \<and> serve_abs (fst (serve_step u c F J r i)) = run_state (journal_step J) (serve_abs r) js
      \<and> http_pays vs p i (snd (serve_step u c F J r i)) (run_trace (journal_step J) (serve_abs r) js)"
  proof (cases "\<exists>rnd clock. i = HRestart rnd clock")
    case True
    then show ?thesis using restart_matched(1) [OF inv'] r by auto
  next
    case False
    show ?thesis
    proof (cases up)
      case False
      then have "serve_step u c F J r i = ((s, up), 503, RError SRandom)" using r \<open>\<not> (\<exists>rnd clock. i = HRestart rnd clock)\<close>
        by (cases i) auto
      then show ?thesis using idle [of "(503, RError SRandom)"] r by simp
    next
      case True
      then have up: "r = (s, True)" "serve_inv vs p (s, True)" using r inv' by simp_all
      show ?thesis
      proof (cases i)
        case (HBlindSign body now w)
        show ?thesis unfolding up(1) HBlindSign by (rule blind_sign_matched [OF up(2) i [unfolded HBlindSign]])
      next
        case (HVerifyBurn body w)
        show ?thesis unfolding up(1) by (rule verify_matched [OF i _ up(2)]) (simp add: HVerifyBurn)
      next
        case (HVerifyPvt body now w)
        show ?thesis unfolding up(1) by (rule verify_matched [OF i _ up(2)]) (simp add: HVerifyPvt)
      qed (use idle r True \<open>\<not> (\<exists>rnd clock. i = HRestart rnd clock)\<close> in \<open>auto simp: handleKT_def handleIssuerInfo_def simp del: serve_abs_up\<close>)
    qed
  qed
  have j: "rt_journal s \<noteq> None" using inv' by (simp add: serve_inv_def)
  show "serve_inv vs p (fst (serve_step u c F J r i))"
  proof (cases "\<exists>rnd clock. i = HRestart rnd clock")
    case True
    then show ?thesis using restart_matched(2) [OF inv'] r by fastforce
  next
    case False
    then show ?thesis using inv' r
      by (cases i; cases up) (simp_all add: serve_inv_def handlers_keep_config handlers_keep_file [OF j] del: not_None_eq)
  qed
qed


definition toy_config :: serve_config where
  "toy_config = \<lparr>rt_verifiers = [toy_issuer], rt_svc = toy_service, rt_policy = dev_policy, rt_maxSkew = 60 * second\<rparr>"

definition toy_server :: server where
  "toy_server = serve_config.extend toy_config \<lparr>rt_journal = Some [], rt_stores = fresh_stores,
     rt_kt = \<lparr>kt_logPub = [], kt_records = [], kt_sth = \<lparr>sh_Seq = 0, sh_Head = [], sh_Sig = []\<rparr>\<rparr>\<rparr>"

definition toy_burn_request :: verify_burn_request where
  "toy_burn_request = \<lparr>vb_TokenB64 = b64url_encode [0], vb_ChallengeB64 = []\<rparr>"


section \<open>What a start-up guarantees\<close>

lemma append_all_keys:
  "\<exists>ext. append_all rs es = rs @ ext \<and> map kr_KeyVersion ext = map fst es
     \<and> map kr_TokenKeyID ext = map (\<lambda>e. hex_encode (fst (snd e))) es"
proof (induction es arbitrary: rs)
  case Nil
  then show ?case by (simp add: append_all_def)
next
  case (Cons e es)
  obtain kv tkid nb where e: "e = (kv, tkid, nb)" by (cases e)
  let ?r = "\<lparr>kr_Seq = of_nat (length rs), kr_KeyVersion = kv, kr_TokenKeyID = hex_encode tkid, kr_NotBefore = nb\<rparr>"
  obtain ext where "append_all (rs @ [?r]) es = (rs @ [?r]) @ ext" "map kr_KeyVersion ext = map fst es"
    "map kr_TokenKeyID ext = map (\<lambda>e. hex_encode (fst (snd e))) es"
    using Cons.IH [of "rs @ [?r]"] by blast
  then show ?case using e by (intro exI [of _ "?r # ext"]) (simp add: append_all_def log_Append_def Let_def)
qed

lemma load_verifiers_Inr:
  "load_verifiers load seen ps = Inr vs \<Longrightarrow>
   distinct (map is_keyVersion vs) \<and> (\<forall>v \<in> set vs. is_keyVersion v \<notin> seen \<and> (\<exists>p. load p = Inr v))"
proof (induction load seen ps arbitrary: vs rule: load_verifiers.induct)
  case (2 load seen p ps)
  show ?case
  proof (cases "trim_space p = []")
    case True
    then show ?thesis using 2 by simp
  next
    case False
    then obtain i rest where "load (trim_space p) = Inr i" "is_keyVersion i \<notin> seen" "vs = i # rest"
      "load_verifiers load (insert (is_keyVersion i) seen) ps = Inr rest"
      using 2(3) by (auto simp: result_simps)
    then show ?thesis using 2(2) [OF False, of i rest] by auto
  qed
qed simp

lemma boot_Inr:
  "boot h F J rnd clock cf dir = Inr s \<Longrightarrow>
   rt_verifiers s = rt_verifiers cf \<and> rt_policy s = rt_policy cf \<and> initKT h F rnd clock (rt_verifiers cf) = Inr (rt_kt s)"
  by (cases dir; cases "openJournal J (the dir) fresh_stores"; cases "snd (openJournal J (the dir) fresh_stores)")
    (auto simp: boot_def result_simps serve_config.extend_def)

lemma in_enumerate: "(n, v) \<in> set (enumerate k xs) \<Longrightarrow> v \<in> set xs"
  by (metis map_snd_enumerate image_eqI set_map snd_conv)

lemma cmdServe_Inr:
  assumes "cmdServe c F CJ J json w fl fresh rnd clock dir = Inr s"
  obtains "load_verifiers (loadIssuer c CJ fresh w) {} (split_char (CHR '','') (sf_issuer fl)) = Inr (rt_verifiers s)"
    "rt_verifiers s \<noteq> []" "load_policy F json w fl = Inr (rt_policy s)"
    "initKT (sha256 c) F rnd clock (rt_verifiers s) = Inr (rt_kt s)"
  using assms that by (auto simp: cmdServe_def result_simps dest!: boot_Inr)

text \<open>
  C6: A started server serves a key log that its clients accept. If \<^verbatim>\<open>serve\<close> starts, the log it publishes
  verifies under the log key it publishes, the token key id of every epoch it redeems for is
  included in the log, the log lists exactly these epochs in ascending key version, and no
  two epochs share a key version.
\<close>

theorem served_log_verifies:
  assumes "cmdServe c F CJ J json w fl fresh rnd clock dir = Inr s"
    and "hash32 (sha256 c)" and "faest_correct F" and "length (rt_verifiers s) < 2 ^ 62"
  shows "VerifyLog (sha256 c) F (kt_logPub (rt_kt s)) (kt_records (rt_kt s)) (kt_sth (rt_kt s)) = Inr ()
    \<and> (\<forall>v \<in> set (rt_verifiers s). is_ok (VerifyInclusion u (kt_records (rt_kt s)) (is_tokenKeyID v)))
    \<and> map kr_KeyVersion (kt_records (rt_kt s)) = sort (map is_keyVersion (rt_verifiers s))
    \<and> distinct (map is_keyVersion (rt_verifiers s))"
proof -
  let ?vs = "rt_verifiers s"
  let ?es = "map (\<lambda>(n, v). (is_keyVersion v, is_tokenKeyID v, word_of_int (unix (clock n)))) (enumerate 0 (sort_key is_keyVersion ?vs)) :: (u32 \<times> bytes \<times> u64) list"
  have load: "load_verifiers (loadIssuer c CJ fresh w) {} (split_char (CHR '','') (sf_issuer fl)) = Inr ?vs"
    and ne: "?vs \<noteq> []" and kt: "initKT (sha256 c) F rnd clock ?vs = Inr (rt_kt s)"
    using cmdServe_Inr [OF assms(1)] by blast+
  note vs = load_verifiers_Inr [OF load]
  have id32: "length (is_tokenKeyID v) = 32" if "v \<in> set ?vs" for v
    using vs that assms(2) by (fastforce simp: loadIssuer_def result_simps hash32_def dest: NewIssuer_Inr)
  obtain seed signer where sg: "NewLogSigner F seed = Inr signer"
    and sth: "log_Sign (sha256 c) F signer (append_all NewKeyLog ?es) None = Inr (kt_sth (rt_kt s))"
    and pub: "kt_logPub (rt_kt s) = Public signer" and rs: "kt_records (rt_kt s) = append_all NewKeyLog ?es"
    using kt by (cases "rt_kt s") (auto simp: initKT_def result_simps Let_def)
  have len: "length ?es = length ?vs" by simp
  then have ne': "?es \<noteq> []" using ne by (metis length_0_conv)
  have "list_all entry_ok ?es" using id32
    by (auto simp: list_all_iff entry_ok_def dest!: in_enumerate)
  then have ver: "VerifyLog (sha256 c) F (kt_logPub (rt_kt s)) (kt_records (rt_kt s)) (kt_sth (rt_kt s)) = Inr ()"
    using log_accepted [OF assms(2,3) _ sg _ ne', of None "[]"] len assms(4) sth pub rs by (auto simp: rho_ok_def)
  obtain ext where ext: "append_all NewKeyLog ?es = ext" "map kr_KeyVersion ext = map fst ?es"
    "map kr_TokenKeyID ext = map (\<lambda>e. hex_encode (fst (snd e))) ?es"
    using append_all_keys [of NewKeyLog ?es] by (auto simp: NewKeyLog_def)
  have kv: "map fst ?es = map is_keyVersion (sort_key is_keyVersion ?vs)"
    and ids: "map (\<lambda>e. hex_encode (fst (snd e))) ?es = map (\<lambda>v. hex_encode (is_tokenKeyID v)) (sort_key is_keyVersion ?vs)"
    by (simp_all add: list_eq_iff_nth_eq nth_enumerate_eq)
  have "is_ok (VerifyInclusion u ext (is_tokenKeyID v))" if "v \<in> set ?vs" for v
  proof -
    have "hex_encode (is_tokenKeyID v) \<in> set (map kr_TokenKeyID ext)" unfolding ext(3) ids using that by simp
    then obtain r where "r \<in> set ext" "kr_TokenKeyID r = hex_encode (is_tokenKeyID v)" by auto
    then have "find (\<lambda>r. equal_fold u (trim_space (kr_TokenKeyID r)) (hex_encode (is_tokenKeyID v))) ext \<noteq> None"
      by (auto simp: find_None_iff equal_fold_hex)
    then show ?thesis by (auto simp: VerifyInclusion_def)
  qed
  moreover have "map kr_KeyVersion ext = sort (map is_keyVersion ?vs)"
    unfolding ext(2) kv by (rule properties_for_sort [symmetric]) simp_all
  ultimately show ?thesis using ver vs rs ext(1) by simp
qed

definition toy_flags :: serve_flags where
  "toy_flags = \<lparr>sf_issuer = ''issuer.json'', sf_policy = ''policy.json'', sf_maxSkew = second, sf_tlsCert = [], sf_tlsKey = [],
     sf_policyPub = []\<rparr>"

definition toy_disk :: os where
  "toy_disk = toy_os\<lparr>os_files := [''policy.json'' \<mapsto> [1],
     ''issuer.json'' \<mapsto> cj_marshal_issuer toy_cli_json \<lparr>if_KeyVersion = 7, if_Mayo1SeedB64 = b64url_encode (replicate 24 5)\<rparr> @ [10]]\<rparr>"

lemma toy_load: "loadIssuer toy_crypto toy_cli_json None toy_disk ''issuer.json'' = Inr toy_issuer"
  using toy_issuer(1) toy_cli_json_ok by (simp add: loadIssuer_def ReadFile_def toy_disk_def toy_os_def cli_json_ok_def)

lemma toy_hash_32: "hash32 (sha256 toy_crypto)"
  by (simp add: hash32_def toy_crypto_correct(2))

lemma toy_initKT: "\<exists>kt. initKT (sha256 toy_crypto) toy_faest (Some (replicate 32 1)) (\<lambda>_. 0) [toy_issuer] = Inr kt"
proof -
  have "length (is_tokenKeyID toy_issuer) = 32" using NewIssuer_Inr [OF toy_issuer(1)] toy_crypto_correct(2) by simp
  then show ?thesis
    using log_accepted [OF toy_hash_32 toy_faest_correct _ toy_log_signer, of None "[(is_keyVersion toy_issuer, is_tokenKeyID toy_issuer, 0)]" "[]"]
    by (auto simp: initKT_def toy_log_signer rho_ok_def entry_ok_def unix_def)
qed

theorem served_log_verifies_witness:
  "\<exists>s. cmdServe toy_crypto toy_faest toy_cli_json toy_rec_json (\<lambda>_. Some builtinDevPolicy) toy_disk toy_flags None
        (Some (replicate 32 1)) (\<lambda>_. 0) None = Inr s
     \<and> VerifyLog (sha256 toy_crypto) toy_faest (kt_logPub (rt_kt s)) (kt_records (rt_kt s)) (kt_sth (rt_kt s)) = Inr ()"
proof -
  have "load_verifiers (loadIssuer toy_crypto toy_cli_json None toy_disk) {} [''issuer.json''] = Inr [toy_issuer]"
    using trim_space_graph [of "''issuer.json''"] toy_load by (simp add: is_graph_def)
  moreover have "load_policy toy_faest (\<lambda>_. Some builtinDevPolicy) toy_disk toy_flags = Inr dev_policy"
    by (simp add: load_policy_def toy_flags_def toy_disk_def toy_os_def ReadFile_def CompileJSON_def Compile_builtinDevPolicy)
  moreover have "\<exists>svc. service_NewIssuer (Some toy_issuer) None = Inr svc" by (simp add: service_NewIssuer_def)
  ultimately obtain s where s: "cmdServe toy_crypto toy_faest toy_cli_json toy_rec_json (\<lambda>_. Some builtinDevPolicy) toy_disk toy_flags None
        (Some (replicate 32 1)) (\<lambda>_. 0) None = Inr s" "rt_verifiers s = [toy_issuer]"
    using toy_initKT by (auto simp: cmdServe_def boot_def toy_flags_def serve_config.extend_def)
  show ?thesis using served_log_verifies [OF s(1) toy_hash_32 toy_faest_correct] s by simp
qed

lemma trusted_sidecar:
  assumes "faest_correct F" "NewPolicySigner F seed = Inr s" "SignPolicy F json s doc None = Inr sidecar"
  shows "VerifyPolicySidecar F doc (sidecar @ [CHR 0x0A]) [Public s] = Inr ()" "length (Public s) = 32"
proof -
  have "sidecar = b64std_encode (fa_Sign F doc (sg_sk s) (signer_rho F None))"
    using assms(3) by (auto simp: SignPolicy_def bind_result_Inr_iff)
  then show "VerifyPolicySidecar F doc (sidecar @ [CHR 0x0A]) [Public s] = Inr ()"
    using new_signer_Inr [OF assms(2) [unfolded NewPolicySigner_def] assms(1)] length_signer_rho [of F None]
    by (simp add: VerifyPolicySidecar_def trim_space_newline [OF b64std_encode_graph] rho_ok_def guard_def)
  show "length (Public s) = 32"
    using assms(1,2) by (auto simp: NewPolicySigner_def new_signer_def result_simps Public_def pk_bytes_def faest_correct_def)
qed

lemma hex_no_comma: "CHR '','' \<notin> set (hex_encode b)"
proof -
  have "hex_digit n \<noteq> CHR '',''" if "n < 16" for n
    using hex_val_digit [OF that] by (auto simp: hex_val_def)
  then have digit: "CHR '','' \<noteq> hex_digit n" if "n < 16" for n using that by metis
  have "unat x div 16 < 16" for x :: byte using unat_byte_bound [of x] by (simp add: less_mult_imp_div_less)
  then show ?thesis by (auto simp: hex_encode_def digit)
qed

lemma load_policy_Inr:
  assumes "load_policy F json w fl = Inr p"
  obtains doc where "ReadFile w (sf_policy fl) = Some doc" "CompileJSON json doc = Inr p"
    "sf_policyPub fl \<noteq> [] \<Longrightarrow> \<exists>trusted sidecar. traverse parse_policy_pub (split_char (CHR '','') (sf_policyPub fl)) = Inr trusted
       \<and> VerifyPolicySidecar F doc sidecar trusted = Inr ()"
  using assms that by (auto simp: load_policy_def result_simps split: if_splits)

definition operator_signed :: "faest \<Rightarrow> serve_flags \<Rightarrow> bytes \<Rightarrow> bool" where
  "operator_signed F fl doc \<longleftrightarrow> (\<exists>part \<in> set (split_char (CHR '','') (sf_policyPub fl)). \<exists>pub sig.
     parse_policy_pub part = Inr pub \<and> fa_Verify F doc (pk_of_bytes pub) sig)"

lemma traverse_nonempty: "traverse f xs = Inr ys \<Longrightarrow> xs \<noteq> [] \<Longrightarrow> ys \<noteq> []"
  by (cases xs) (auto simp: result_simps)

lemma traverse_member: "traverse f xs = Inr ys \<Longrightarrow> y \<in> set ys \<Longrightarrow> \<exists>x \<in> set xs. f x = Inr y"
  by (auto simp: result_simps list_all2_conv_all_nth in_set_conv_nth intro!: bexI [of _ "xs ! _"])

lemma load_policy_signed:
  assumes "load_policy F json w fl = Inr p" "sf_policyPub fl \<noteq> []"
  shows "\<exists>doc. ReadFile w (sf_policy fl) = Some doc \<and> CompileJSON json doc = Inr p \<and> operator_signed F fl doc"
proof -
  obtain doc trusted sidecar where d: "ReadFile w (sf_policy fl) = Some doc" "CompileJSON json doc = Inr p"
    and t: "traverse parse_policy_pub (split_char (CHR '','') (sf_policyPub fl)) = Inr trusted"
    and v: "VerifyPolicySidecar F doc sidecar trusted = Inr ()"
    using load_policy_Inr [OF assms(1)] assms(2) by metis
  have "trusted \<noteq> []" using traverse_nonempty [OF t] by simp
  then obtain pub sig where "pub \<in> set trusted" "fa_Verify F doc (pk_of_bytes pub) sig"
    using v by (auto simp: VerifyPolicySidecar_def result_simps list_ex_iff)
  then have "operator_signed F fl doc" using traverse_member [OF t] by (fastforce simp: operator_signed_def)
  then show ?thesis using d by blast
qed



end
