(* ===== verification/Evp.thy ===== *)
theory Evp
  imports Serve EmailToken Mailbox
begin

text \<open>
  The e-mail verification rail of the reference runtime (\<^verbatim>\<open>cmd/tamayo/evp.go\<close>): the browser signs its
  request under its own key, proves control of the mailbox with a mailed code that is bound to that key,
  and gets an e-mail token for the key, charged to the mailbox's hourly budget. The header strings
  are parsed character by character, as in the code; the handler runs in the server of theory
  \<open>Serve\<close> and shares its budget store with the other endpoints. The results: a signed
  request verifies for a minute and for no other host or path, a token is only issued after a code went
  to the same mailbox for the same browser key, and the hourly budget holds whatever else the server
  is asked.
\<close>

section \<open>Decimal numbers\<close>

text \<open>\<^verbatim>\<open>%d\<close> prints a number without leading zeros.\<close>

fun decimal :: "nat \<Rightarrow> string" where
  "decimal n = (if n < 10 then [digit_char n] else decimal (n div 10) @ [digit_char (n mod 10)])"

declare decimal.simps [simp del]

definition is_digit :: "char \<Rightarrow> bool" where
  "is_digit c \<longleftrightarrow> 48 \<le> (of_char c :: nat) \<and> (of_char c :: nat) \<le> 57"

definition digits_val :: "string \<Rightarrow> nat" where
  "digits_val s = foldl (\<lambda>a c. 10 * a + (of_char c - 48)) 0 s"

text \<open>
  \<^verbatim>\<open>fmt.Sscanf(v, "%d", &created)\<close> into a uint64: white space other than a newline is skipped, then the longest run of
  digits is read; an empty run or a number of more than 64 bits is an error, what follows is ignored.
\<close>

definition scan_uint :: "string \<Rightarrow> u64 option" where
  "scan_uint v =
     (let s = strip_prefixes (filter (\<lambda>w. w \<noteq> [CHR 0x0A]) space_seqs) v;
          ds = takeWhile is_digit s in
      if ds = [] \<or> digits_val ds \<ge> 2 ^ 64 then None else Some (of_nat (digits_val ds)))"

section \<open>Signed requests\<close>

datatype evp_error =
    EvHeader string | EvAuthority | EvScheme | EvKeyType | EvKey | EvLabel | EvParams | EvCovered | EvCreated
  | EvNoCreated | EvWindow | EvSigForm | EvSigBytes | EvRejected
  | EvDest | EvBody | EvGate gate_error | EvDelivery | EvQuota | EvIssue email_error

definition evpSigMaxAgeSecs :: u64 where "evpSigMaxAgeSecs = 60"

definition evpCodeBindingDomain :: string where
  "evpCodeBindingDomain = ''eat-pass/evp-code-binding'' @ [CHR 0x00]"

definition quoted :: "string \<Rightarrow> string" where
  "quoted s = CHR 0x22 # s @ [CHR 0x22]"

definition evpCovered :: string where
  "evpCovered = ''('' @ quoted ''@method'' @ '' '' @ quoted ''@authority'' @ '' '' @ quoted ''@path'' @ '' '' @ quoted ''signature-key'' @ '')''"

definition evpBudgetGroup :: string where "evpBudgetGroup = ''evt''"

definition evpCodeBinding :: "email_env \<Rightarrow> bytes \<Rightarrow> bytes" where
  "evpCodeBinding E browserPub = en_sha256 E (bytes_of evpCodeBindingDomain @ browserPub)"

text \<open>The \<^verbatim>\<open>%q\<close> verb quotes; the three values have nothing to escape.\<close>

definition evpSignatureKeyValue :: "bytes \<Rightarrow> string" where
  "evpSignatureKeyValue browserPub =
     ''sig=hwk; kty='' @ quoted ''OKP'' @ ''; crv='' @ quoted ''Ed25519'' @ ''; x='' @ quoted (b64url_encode browserPub)"

definition nl :: string where "nl = [CHR 0x0A]"

definition evpSignatureBase :: "string \<Rightarrow> string \<Rightarrow> string \<Rightarrow> string \<Rightarrow> u64 \<Rightarrow> string" where
  "evpSignatureBase method authority path signatureKey tstamp =
     quoted ''@method'' @ '': '' @ method @ nl
     @ quoted ''@authority'' @ '': '' @ authority @ nl
     @ quoted ''@path'' @ '': '' @ path @ nl
     @ quoted ''signature-key'' @ '': '' @ signatureKey @ nl
     @ quoted ''@signature-params'' @ '': '' @ evpCovered @ '';created='' @ decimal (unat tstamp)"

text \<open>The client: the values of \<^verbatim>\<open>Signature-Input\<close>, \<^verbatim>\<open>Signature\<close> and \<^verbatim>\<open>Signature-Key\<close>.\<close>

definition signEVPRequest :: "email_env \<Rightarrow> bytes \<Rightarrow> string \<Rightarrow> string \<Rightarrow> u64 \<Rightarrow> string \<times> string \<times> string" where
  "signEVPRequest E priv authority path tstamp =
     (let sigKey = evpSignatureKeyValue (ed_public E priv);
          base = evpSignatureBase ''POST'' authority path sigKey tstamp;
          raw = ed_sign E priv (bytes_of base) in
      (''sig='' @ evpCovered @ '';created='' @ decimal (unat tstamp),
       ''sig=:'' @ b64std_encode raw @ '':'', sigKey))"

text \<open>The value of a header, empty when it is absent.\<close>

type_synonym headers = "string \<Rightarrow> string"

definition evpHeader :: "headers \<Rightarrow> string \<Rightarrow> (evp_error, string) result" where
  "evpHeader h name = guard (h name \<noteq> []) (EvHeader name) (Inr (h name))"

text \<open>The loop over the parameters of \<^verbatim>\<open>Signature-Key\<close>; a later parameter overrides an earlier one.\<close>

fun key_params :: "string list \<Rightarrow> string \<times> string \<times> string \<Rightarrow> string \<times> string \<times> string" where
  "key_params [] acc = acc"
| "key_params (p # ps) (kty, crv, x) =
     (case cut ''='' p of
        None \<Rightarrow> key_params ps (kty, crv, x)
      | Some (k, v0) \<Rightarrow>
          (let v = trim_quotes (trim_space v0); k' = trim_space k in
           key_params ps
             (if k' = ''kty'' then (v, crv, x) else if k' = ''crv'' then (kty, v, x)
              else if k' = ''x'' then (kty, crv, v) else (kty, crv, x))))"

fun find_created :: "string list \<Rightarrow> (evp_error, u64) result" where
  "find_created [] = Inl EvNoCreated"
| "find_created (p # ps) =
     (case cut_prefix ''created='' (trim_space p) of
        Some v \<Rightarrow> of_option EvCreated (scan_uint v)
      | None \<Rightarrow> find_created ps)"

definition parse_browser_key :: "string \<Rightarrow> (evp_error, bytes) result" where
  "parse_browser_key sigKey =
     (let params = split_char (CHR '';'') sigKey in
      guard (trim_space (hd params) = ''sig=hwk'') EvScheme
      (case key_params (tl params) ([], [], []) of (kty, crv, x) \<Rightarrow>
         guard (\<not> (kty \<noteq> ''OKP'' \<or> crv \<noteq> ''Ed25519'')) EvKeyType
         (bind_result (of_option EvKey (b64url_decode x)) (\<lambda>pubBytes.
          guard (length pubBytes = 32) EvKey (Inr pubBytes)))))"

definition parse_created :: "string \<Rightarrow> (evp_error, u64) result" where
  "parse_created sigInput =
     bind_result (of_option EvLabel (cut_prefix ''sig='' (trim_space sigInput))) (\<lambda>rest.
     bind_result (of_option EvParams (cut '';'' rest)) (\<lambda>(components, sigParams).
     guard (trim_space components = evpCovered) EvCovered
     (find_created (split_char (CHR '';'') sigParams))))"

definition parse_signature :: "string \<Rightarrow> (evp_error, bytes) result" where
  "parse_signature sigHeader =
     bind_result (of_option EvSigForm (cut_prefix ''sig=:'' (trim_space sigHeader))) (\<lambda>sigB64.
     guard (has_suffix sigB64 '':'') EvSigForm
     (bind_result (of_option EvSigBytes (b64std_decode (trim_suffix sigB64 '':''))) (\<lambda>sigBytes.
      guard (length sigBytes = 64) EvSigBytes (Inr sigBytes))))"

definition time_distance :: "u64 \<Rightarrow> u64 \<Rightarrow> u64" where
  "time_distance now tstamp = (if tstamp > now then tstamp - now else now - tstamp)"

definition verifyEVPMessageSignature ::
  "email_env \<Rightarrow> headers \<Rightarrow> string \<Rightarrow> string \<Rightarrow> string \<Rightarrow> u64 \<Rightarrow> (evp_error, bytes) result" where
  "verifyEVPMessageSignature E h method authority path now =
     bind_result (evpHeader h ''Signature-Key'') (\<lambda>sigKey.
     bind_result (evpHeader h ''Signature-Input'') (\<lambda>sigInput.
     bind_result (evpHeader h ''Signature'') (\<lambda>sigHeader.
     guard (authority \<noteq> []) EvAuthority
     (bind_result (parse_browser_key sigKey) (\<lambda>browserPub.
      bind_result (parse_created sigInput) (\<lambda>tstamp.
      guard (time_distance now tstamp \<le> evpSigMaxAgeSecs) EvWindow
      (bind_result (parse_signature sigHeader) (\<lambda>sigBytes.
       guard (ed_verify E browserPub (bytes_of (evpSignatureBase method authority path sigKey tstamp)) sigBytes)
         EvRejected (Inr browserPub)))))))))"

section \<open>A signed request verifies\<close>

lemma digit_char_digit: "is_digit (digit_char n) \<and> (of_char (digit_char n) :: nat) - 48 = n mod 10"
proof -
  have "(of_char (digit_char n) :: nat) = 48 + n mod 10"
    by (simp add: digit_char_def)
  then show ?thesis by (simp add: is_digit_def)
qed

lemma decimal_digits: "list_all is_digit (decimal n) \<and> decimal n \<noteq> []"
proof (induction n rule: decimal.induct)
  case (1 n)
  then show ?case using decimal.simps [of n] digit_char_digit by simp
qed

lemma digits_val_snoc: "digits_val (s @ [c]) = 10 * digits_val s + (of_char c - 48)"
  by (simp add: digits_val_def)

lemma digits_val_decimal: "digits_val (decimal n) = n"
proof (induction n rule: decimal.induct)
  case (1 n)
  show ?case
  proof (cases "n < 10")
    case True
    then show ?thesis using digit_char_digit [of n] by (subst decimal.simps) (simp add: digits_val_def)
  next
    case False
    then show ?thesis using digit_char_digit [of "n mod 10"] 1
      by (subst decimal.simps) (simp add: digits_val_snoc)
  qed
qed

lemma digit_graph: "is_digit c \<Longrightarrow> is_graph c \<and> c \<noteq> CHR '';''"
  by (auto simp: is_digit_def is_graph_def)

lemma decimal_graph: "list_all is_graph (decimal n)" "CHR '';'' \<notin> set (decimal n)" "CHR 0x0A \<notin> set (decimal n)"
  using decimal_digits [of n] digit_graph by (auto simp: list_all_iff is_digit_def)

lemma scan_decimal: "scan_uint (decimal (unat w)) = Some w"
proof -
  have "strip_prefixes (filter (\<lambda>v. v \<noteq> [CHR 0x0A]) space_seqs) (decimal (unat w)) = decimal (unat w)"
    using decimal_graph(1) [of "unat w"] decimal_digits [of "unat w"]
    by (intro strip_prefixes_id) (auto dest!: space_seqs_ends_not_graph simp: prefix_def list_all_iff)
  moreover have tw: "takeWhile is_digit (decimal (unat w)) = decimal (unat w)"
    using decimal_digits [of "unat w"] by (simp add: list_all_iff)
  have "unat w < 2 ^ 64" using unsigned_less [of w] by simp
  ultimately show ?thesis using decimal_digits [of "unat w"] by (simp add: scan_uint_def Let_def tw digits_val_decimal)
qed

lemma trim_space_leading:
  assumes "list_all is_graph s" "s \<noteq> []"
  shows "trim_space (CHR '' '' # s) = s"
proof -
  have "find (\<lambda>w. w \<noteq> [] \<and> prefix w (CHR '' '' # s)) space_seqs = Some [CHR '' '']"
    by (simp add: space_seqs_def char_of_eq_iff)
  moreover have "hd s \<in> set s" using assms(2) by simp
  then have "is_graph (hd s)" using assms(1) by (auto simp: list_all_iff)
  then have "trim_left s = s" by (simp add: trim_left_id)
  ultimately have "trim_left (CHR '' '' # s) = s"
    by (simp add: trim_left_def strip_prefixes.simps [of _ "CHR '' '' # s"])
  then show ?thesis using assms by (simp add: trim_space_def trim_right_id list_all_iff)
qed

lemma url_no_semicolon: "CHR '';'' \<notin> set (b64url_encode b)"
  using b64url_encode_alphabet [of b] by (auto simp: url_alphabet_def)

lemma quoted_graph: "list_all is_graph s \<Longrightarrow> list_all is_graph (quoted s) \<and> quoted s \<noteq> []"
  by (simp add: quoted_def is_graph_def)

lemma trim_quotes_quoted: "CHR 0x22 \<notin> set s \<Longrightarrow> trim_quotes (quoted s) = s"
proof -
  assume s: "CHR 0x22 \<notin> set s"
  have "dropWhile (\<lambda>c. c = CHR 0x22) (s @ [CHR 0x22]) = (if s = [] then [] else s @ [CHR 0x22])"
    using s by (cases s) auto
  moreover have "dropWhile (\<lambda>c. c = CHR 0x22) (rev s) = rev s" by (rule dropWhile_absent) (use s in simp)
  ultimately show ?thesis by (simp add: trim_quotes_def quoted_def)
qed

lemma key_param:
  assumes "list_all is_graph k" "k \<noteq> []" "CHR ''='' \<notin> set k" "list_all is_graph v" "CHR 0x22 \<notin> set v"
  shows "key_params ((CHR '' '' # k @ ''='' @ quoted v) # ps) (kty, crv, x) =
    key_params ps (if k = ''kty'' then (v, crv, x) else if k = ''crv'' then (kty, v, x)
              else if k = ''x'' then (kty, crv, v) else (kty, crv, x))"
proof -
  have "cut [CHR ''=''] ((CHR '' '' # k) @ CHR ''='' # quoted v) = Some (CHR '' '' # k, quoted v)"
    by (rule cut_char_append) (use assms(3) in simp)
  then show ?thesis
    using assms trim_space_leading [of k] trim_space_graph [of "quoted v"] quoted_graph [of v] trim_quotes_quoted [of v]
    by (simp add: Let_def)
qed

lemma parse_browser_key_value:
  assumes "length pub = 32"
  shows "parse_browser_key (evpSignatureKeyValue pub) = Inr pub"
proof -
  let ?p1 = "CHR '' '' # ''kty'' @ ''='' @ quoted ''OKP''" and ?p2 = "CHR '' '' # ''crv'' @ ''='' @ quoted ''Ed25519''"
    and ?p3 = "CHR '' '' # ''x'' @ ''='' @ quoted (b64url_encode pub)"
  have "evpSignatureKeyValue pub = ''sig=hwk'' @ CHR '';'' # ?p1 @ CHR '';'' # ?p2 @ CHR '';'' # ?p3"
    by (simp add: evpSignatureKeyValue_def quoted_def)
  then have "split_char (CHR '';'') (evpSignatureKeyValue pub) = [''sig=hwk'', ?p1, ?p2, ?p3]"
    using url_no_semicolon [of pub]
    by (simp only:) ((subst split_char_append split_char_no_sep, simp add: quoted_def)+, rule refl)
  moreover have "trim_space ''sig=hwk'' = ''sig=hwk''" by (rule trim_space_graph) (simp add: is_graph_def)
  moreover have "key_params [?p1, ?p2, ?p3] ([], [], []) = (''OKP'', ''Ed25519'', b64url_encode pub)"
    using key_param [of "''kty''" "''OKP''" "[?p2, ?p3]" "[]" "[]" "[]"]
      key_param [of "''crv''" "''Ed25519''" "[?p3]" "''OKP''" "[]" "[]"]
      key_param [of "''x''" "b64url_encode pub" "[]" "''OKP''" "''Ed25519''" "[]"] b64url_encode_graph [of pub] url_text [of pub]
    by (simp add: is_graph_def del: key_params.simps(2))
  ultimately show ?thesis using assms by (simp add: parse_browser_key_def)
qed

lemma covered_facts: "CHR '';'' \<notin> set evpCovered" "evpCovered \<noteq> []" "trim_space evpCovered = evpCovered"
proof -
  show "CHR '';'' \<notin> set evpCovered" "evpCovered \<noteq> []" by (simp_all add: evpCovered_def quoted_def)
  show "trim_space evpCovered = evpCovered"
    by (rule trim_graph_ends) (simp_all add: evpCovered_def quoted_def is_graph_def)
qed

lemma parse_created_input: "parse_created (''sig='' @ evpCovered @ '';created='' @ decimal (unat tstamp)) = Inr tstamp"
proof -
  let ?d = "decimal (unat tstamp)"
  have d: "?d \<noteq> []" "is_graph (last ?d)" "list_all is_graph ?d"
    using decimal_digits [of "unat tstamp"] decimal_graph [of "unat tstamp"] last_in_set [of ?d] by (auto simp: list_all_iff)
  have "trim_space (''sig='' @ evpCovered @ '';created='' @ ?d) = ''sig='' @ evpCovered @ '';created='' @ ?d"
    by (rule trim_graph_ends) (use d in \<open>simp_all add: is_graph_def\<close>)
  moreover have "cut [CHR '';''] (evpCovered @ CHR '';'' # ''created='' @ ?d) = Some (evpCovered, ''created='' @ ?d)"
    by (rule cut_char_append) (rule covered_facts)
  moreover have "split_char (CHR '';'') (''created='' @ ?d) = [''created='' @ ?d]"
    by (rule split_char_no_sep) (simp add: decimal_graph)
  moreover have "trim_space (''created='' @ ?d) = ''created='' @ ?d"
    by (rule trim_space_graph) (use d in \<open>simp add: is_graph_def\<close>)
  ultimately show ?thesis
    by (simp add: parse_created_def cut_prefix_def covered_facts scan_decimal)
qed

lemma parse_signature_header: "length sig = 64 \<Longrightarrow> parse_signature (''sig=:'' @ b64std_encode sig @ '':'') = Inr sig"
proof -
  assume len: "length sig = 64"
  have "trim_space (''sig=:'' @ b64std_encode sig @ '':'') = ''sig=:'' @ b64std_encode sig @ '':''"
    by (rule trim_space_graph) (simp add: is_graph_def b64std_encode_graph)
  then show ?thesis using len by (simp add: parse_signature_def cut_prefix_def)
qed

text \<open>What an accepted request proves.\<close>

lemma verifyEVP_Inr:
  "verifyEVPMessageSignature E h method authority path now = Inr pub \<longleftrightarrow>
     authority \<noteq> [] \<and> h ''Signature-Key'' \<noteq> [] \<and> h ''Signature-Input'' \<noteq> [] \<and> h ''Signature'' \<noteq> []
     \<and> parse_browser_key (h ''Signature-Key'') = Inr pub
     \<and> (\<exists>tstamp sig. parse_created (h ''Signature-Input'') = Inr tstamp \<and> time_distance now tstamp \<le> 60
          \<and> parse_signature (h ''Signature'') = Inr sig
          \<and> ed_verify E pub (bytes_of (evpSignatureBase method authority path (h ''Signature-Key'') tstamp)) sig)"
  by (auto simp: verifyEVPMessageSignature_def evpHeader_def result_simps evpSigMaxAgeSecs_def)

definition evp_keypair :: "email_env \<Rightarrow> bytes \<Rightarrow> bool" where
  "evp_keypair E priv \<longleftrightarrow> length (ed_public E priv) = 32
     \<and> (\<forall>m. length (ed_sign E priv m) = 64 \<and> ed_verify E (ed_public E priv) m (ed_sign E priv m))"

lemma signed_request_verifies:
  assumes "evp_keypair E priv" and "authority \<noteq> []"
    and "signEVPRequest E priv authority path tstamp = (h ''Signature-Input'', h ''Signature'', h ''Signature-Key'')"
  shows "verifyEVPMessageSignature E h ''POST'' authority path now =
    (if \<bar>uint now - uint tstamp\<bar> \<le> 60 then Inr (ed_public E priv) else Inl EvWindow)"
proof -
  let ?pub = "ed_public E priv"
  have h: "h ''Signature-Key'' = evpSignatureKeyValue ?pub"
    "h ''Signature-Input'' = ''sig='' @ evpCovered @ '';created='' @ decimal (unat tstamp)"
    "h ''Signature'' = ''sig=:'' @ b64std_encode (ed_sign E priv (bytes_of (evpSignatureBase ''POST'' authority path (evpSignatureKeyValue ?pub) tstamp))) @ '':''"
    using assms(3) [symmetric] by (simp_all add: signEVPRequest_def Let_def)
  have len: "length ?pub = 32" using assms(1) by (simp add: evp_keypair_def)
  have win: "time_distance now tstamp \<le> evpSigMaxAgeSecs \<longleftrightarrow> \<bar>uint now - uint tstamp\<bar> \<le> 60"
    by (simp add: time_distance_def evpSigMaxAgeSecs_def word_le_def word_less_def uint_sub_if_size)
  show ?thesis
    using assms(1,2) h len parse_browser_key_value [OF len] parse_created_input [of tstamp] parse_signature_header
    by (simp add: verifyEVPMessageSignature_def evpHeader_def win evp_keypair_def)
      (simp add: evpSignatureKeyValue_def)
qed

text \<open>
  C18: A request signed by the browser verifies for a minute. The three headers the client half computes,
  put on a request to the same host and path, verify exactly while the server's clock is within 60 seconds
  of the creation time, in either direction, and yield the browser's public key.
\<close>

theorem evp_sign_verify:
  assumes "evp_keypair E priv" and "authority \<noteq> []"
    and "signEVPRequest E priv authority path tstamp = (h ''Signature-Input'', h ''Signature'', h ''Signature-Key'')"
  shows "verifyEVPMessageSignature E h ''POST'' authority path now =
    (if \<bar>uint now - uint tstamp\<bar> \<le> 60 then Inr (ed_public E priv) else Inl EvWindow)"
  using assms by (rule signed_request_verifies)

text \<open>A browser with a toy key signs a request at second 100.\<close>

definition toy_headers :: headers where
  "toy_headers n = (case signEVPRequest toy_env (replicate 64 4) ''host'' ''/email-verification/issuance'' 100 of (inp, sig, key) \<Rightarrow>
     if n = ''Signature-Input'' then inp else if n = ''Signature'' then sig else if n = ''Signature-Key'' then key
     else if n = ''Sec-Fetch-Dest'' then ''email-verification'' else [])"

lemma toy_browser: "evp_keypair toy_env (replicate 64 4)" "ed_public toy_env (replicate 64 4) = replicate 32 4"
  "signEVPRequest toy_env (replicate 64 4) ''host'' ''/email-verification/issuance'' 100 =
     (toy_headers ''Signature-Input'', toy_headers ''Signature'', toy_headers ''Signature-Key'')"
  by (simp_all add: evp_keypair_def toy_env_def toy_headers_def flip: replicate_add split: prod.splits)

theorem evp_sign_verify_witness:
  "verifyEVPMessageSignature toy_env toy_headers ''POST'' ''host'' ''/email-verification/issuance'' 160 = Inr (replicate 32 4)
   \<and> verifyEVPMessageSignature toy_env toy_headers ''POST'' ''host'' ''/email-verification/issuance'' 161 = Inl EvWindow"
  using evp_sign_verify [OF toy_browser(1) _ toy_browser(3), of 160] evp_sign_verify [OF toy_browser(1) _ toy_browser(3), of 161] toy_browser(2)
  by simp

section \<open>The endpoints\<close>

record evp_rail =
  er_signer :: email_signer
  er_issuerID :: string
  er_publicBase :: string
  er_store :: challenge_store
  er_gateKey :: bytes
  er_budgetLimit :: int
  er_budgetWindow :: duration

definition trim_right_slash :: "string \<Rightarrow> string" where
  "trim_right_slash s = rev (dropWhile (\<lambda>c. c = CHR ''/'') (rev s))"

text \<open>
  The rail as \<^verbatim>\<open>serve\<close> mounts it: a fresh signing key (\<open>generated\<close>), a fresh gate key (\<open>rnd\<close>) and an empty
  challenge store. \<open>ttl\<close> is the code lifetime in whole seconds.
\<close>

definition mountEVP ::
  "email_env \<Rightarrow> bytes option \<Rightarrow> bytes option \<Rightarrow> string \<Rightarrow> string \<Rightarrow> string \<Rightarrow> bool \<Rightarrow> u64 \<Rightarrow> (evp_error, evp_rail) result" where
  "mountEVP E generated rnd evpIssuer publicBase addr tls ttl =
     (let base = (if publicBase = [] then (if tls then ''https'' else ''http'') @ ''://'' @ addr else publicBase) in
      bind_result (map_error EvIssue (NewSigner E generated evpIssuer [])) (\<lambda>signer.
      bind_result (of_option (EvIssue ERand) rnd) (\<lambda>gateKey.
      Inr \<lparr>er_signer = signer, er_issuerID = evpIssuer, er_publicBase = trim_right_slash base,
           er_store = NewChallengeStore ttl, er_gateKey = gateKey, er_budgetLimit = 16,
           er_budgetWindow = 3600 * second\<rparr>)))"

record evp_body =
  eb_Email :: string
  eb_Code :: string

text \<open>
  A request with what the environment decides: the time, the random bytes, whether the delivery command
  succeeds, and the outcome of the journal write. The body is \<open>None\<close> when its decoder refused it.
\<close>

record evp_request =
  eq_headers :: headers
  eq_host :: string
  eq_body :: "evp_body option"
  eq_time :: gotime
  eq_rnd :: "bytes option"
  eq_delivered :: bool
  eq_write :: write_outcome

datatype evp_reply =
    EvError evp_error
  | EvCodeSent
  | EvToken string
  | EvMetadata string string string
  | EvKeys "jwk list"
  | EvDown

text \<open>A reply: status, body, and what was handed to the delivery command.\<close>

type_synonym evp_out = "nat \<times> evp_reply \<times> (string \<times> string) option"

definition signer_JWK :: "email_signer \<Rightarrow> jwk" where
  "signer_JWK s = (case PublicJWK (si_pub s) (si_kid s) of
     Inr j \<Rightarrow> j | Inl _ \<Rightarrow> \<lparr>Kty = [], Crv = [], jwk_X = [], jwk_Pub = [], jwk_Kid = [], jwk_Alg = [], jwk_Use = []\<rparr>)"

definition handleEVPMetadata :: "evp_rail \<Rightarrow> evp_out" where
  "handleEVPMetadata rl = (200, EvMetadata (er_issuerID rl) (er_publicBase rl @ ''/email-verification/issuance'')
     (er_publicBase rl @ ''/email-verification/jwks''), None)"

definition handleEVPJWKS :: "evp_rail \<Rightarrow> evp_out" where
  "handleEVPJWKS rl = (200, EvKeys [signer_JWK (er_signer rl)], None)"

definition evp_budget_key :: "(bytes \<Rightarrow> bytes \<Rightarrow> bytes) \<Rightarrow> bytes \<Rightarrow> string \<Rightarrow> string" where
  "evp_budget_key hmac gateKey canonical =
     mailbox_Platform @ '':'' @ b64url_encode (BucketID hmac gateKey canonical) @ '':'' @ evpBudgetGroup"

definition evp_now :: "evp_request \<Rightarrow> u64" where
  "evp_now q = word_of_int (unix (eq_time q))"

definition issuancePath :: string where "issuancePath = ''/email-verification/issuance''"

text \<open>The browser key of a request, and the checks before the mailbox is looked at.\<close>

definition evp_verified :: "email_env \<Rightarrow> evp_request \<Rightarrow> (evp_error, bytes) result" where
  "evp_verified E q =
     guard (eq_headers q ''Sec-Fetch-Dest'' = ''email-verification'') EvDest
     (verifyEVPMessageSignature E (eq_headers q) ''POST'' (eq_host q) issuancePath (evp_now q))"

definition handleEVPIssuance ::
  "utables \<Rightarrow> email_env \<Rightarrow> (bytes \<Rightarrow> bytes \<Rightarrow> bytes) \<Rightarrow> rec_json \<Rightarrow> server \<Rightarrow> evp_rail \<Rightarrow> evp_request \<Rightarrow>
   (server \<times> evp_rail) \<times> evp_out" where
  "handleEVPIssuance u E hmac J s rl q =
     (case evp_verified E q of Inl e \<Rightarrow> ((s, rl), 400, EvError e, None)
      | Inr browserPub \<Rightarrow>
     (case eq_body q of None \<Rightarrow> ((s, rl), 400, EvError EvBody, None)
      | Some body \<Rightarrow>
     (case CanonicalEmail u (eb_Email body) of Inl e \<Rightarrow> ((s, rl), 400, EvError (EvGate e), None)
      | Inr canonical \<Rightarrow>
     (let binding = evpCodeBinding E browserPub in
      if eb_Code body = [] then
        (case Create u (en_sha256 E) (er_store rl) canonical binding (evp_now q) (eq_rnd q) of
           (st, Inl e) \<Rightarrow> ((s, rl\<lparr>er_store := st\<rparr>), 400, EvError (EvGate e), None)
         | (st, Inr code) \<Rightarrow>
             if eq_delivered q then ((s, rl\<lparr>er_store := st\<rparr>), 401, EvCodeSent, Some (canonical, code))
             else ((s, rl\<lparr>er_store := st\<rparr>), 500, EvError EvDelivery, Some (canonical, code)))
      else
        (case Verify u (en_sha256 E) (er_store rl) canonical (eb_Code body) binding (evp_now q) of
           (st, Inl e) \<Rightarrow> ((s, rl\<lparr>er_store := st\<rparr>), 403, EvError (EvGate e), None)
         | (st, Inr canonical') \<Rightarrow>
             (case journaled_Reserve J (eq_write q) (st_budgets (rt_stores s), rt_journal s)
                     (evp_budget_key hmac (er_gateKey rl) canonical') 1 (er_budgetLimit rl) (er_budgetWindow rl)
                     (time_unix (sint (evp_now q))) of
                ((m, j), err) \<Rightarrow>
             (let s' = s\<lparr>rt_stores := (rt_stores s)\<lparr>st_budgets := m\<rparr>, rt_journal := j\<rparr>; rl' = rl\<lparr>er_store := st\<rparr> in
              case err of Some _ \<Rightarrow> ((s', rl'), 429, EvError EvQuota, None)
              | None \<Rightarrow>
             (case PublicJWK browserPub [] of Inl e \<Rightarrow> ((s', rl'), 500, EvError (EvIssue e), None)
              | Inr holderJWK \<Rightarrow>
             (case IssueEVT E (er_signer rl) canonical' holderJWK (time_unix (sint (evp_now q))) 0 of
                Inl e \<Rightarrow> ((s', rl'), 500, EvError (EvIssue e), None)
              | Inr evt \<Rightarrow> ((s', rl'), 200, EvToken evt, None))))))))))"

section \<open>The server with the rail\<close>

datatype evp_op = EHttp http_request | EIssue evp_request | EMeta | EJwks

datatype evp_answer = AHttp reply | AEvp evp_out

type_synonym evp_state = "runtime \<times> evp_rail"

fun evp_step ::
  "utables \<Rightarrow> 'ps crypto \<Rightarrow> faest \<Rightarrow> email_env \<Rightarrow> (bytes \<Rightarrow> bytes \<Rightarrow> bytes) \<Rightarrow> rec_json \<Rightarrow> evp_state \<Rightarrow> evp_op \<Rightarrow>
   evp_state \<times> evp_answer" where
  "evp_step u c F E hmac J (r, rl) (EHttp h) =
     (case serve_step u c F J r h of (r', out) \<Rightarrow> ((r', rl), AHttp out))"
| "evp_step u c F E hmac J ((s, True), rl) (EIssue q) =
     (case handleEVPIssuance u E hmac J s rl q of ((s', rl'), out) \<Rightarrow> (((s', True), rl'), AEvp out))"
| "evp_step u c F E hmac J ((s, True), rl) EMeta = (((s, True), rl), AEvp (handleEVPMetadata rl))"
| "evp_step u c F E hmac J ((s, True), rl) EJwks = (((s, True), rl), AEvp (handleEVPJWKS rl))"
| "evp_step u c F E hmac J ((s, False), rl) i = (((s, False), rl), AEvp (503, EvDown, None))"

text \<open>The mailbox an issuance request is about; the handler and the challenge store both canonicalise.\<close>

definition evp_mailbox :: "utables \<Rightarrow> evp_request \<Rightarrow> string option" where
  "evp_mailbox u q =
     (case eq_body q of None \<Rightarrow> None
      | Some b \<Rightarrow>
          (case CanonicalEmail u (eb_Email b) of Inl _ \<Rightarrow> None
           | Inr a \<Rightarrow> (case CanonicalEmail u a of Inl _ \<Rightarrow> None | Inr a' \<Rightarrow> Some a')))"

fun evt_issued :: "utables \<Rightarrow> string \<Rightarrow> evp_op \<Rightarrow> evp_answer \<Rightarrow> bool" where
  "evt_issued u a (EIssue q) (AEvp (st, EvToken t, mail)) \<longleftrightarrow> evp_mailbox u q = Some a"
| "evt_issued u a _ _ \<longleftrightarrow> False"

lemma evt_issued_only:
  "evt_issued u a i out \<longleftrightarrow> (\<exists>q st t mail. i = EIssue q \<and> out = AEvp (st, EvToken t, mail) \<and> evp_mailbox u q = Some a)"
  by (cases "(u, a, i, out)" rule: evt_issued.cases) auto

section \<open>The hourly budget of a mailbox\<close>

definition is_token :: "evp_out \<Rightarrow> bool" where
  "is_token out \<longleftrightarrow> (\<exists>st t mail. out = (st, EvToken t, mail))"

text \<open>Past its checks, an issuance is a journaled reservation.\<close>

lemma handleEVPIssuance_cases:
  obtains st out where "handleEVPIssuance u E hmac J s rl q = ((s, rl\<lparr>er_store := st\<rparr>), out)" "\<not> is_token out"
  | a sto st j err out where "evp_mailbox u q = Some a"
      "do_reserve J (eq_write q) (rt_stores s, rt_journal s) (evp_budget_key hmac (er_gateKey rl) a) 1 (er_budgetLimit rl)
         (er_budgetWindow rl) (time_unix (sint (evp_now q))) = ((st, j), err)"
      "handleEVPIssuance u E hmac J s rl q = ((s\<lparr>rt_stores := st, rt_journal := j\<rparr>, rl\<lparr>er_store := sto\<rparr>), out)"
      "is_token out \<Longrightarrow> err = None"
proof (cases "\<exists>pub body c sto a. evp_verified E q = Inr pub \<and> eq_body q = Some body \<and> CanonicalEmail u (eb_Email body) = Inr c
    \<and> eb_Code body \<noteq> [] \<and> Verify u (en_sha256 E) (er_store rl) c (eb_Code body) (evpCodeBinding E pub) (evp_now q) = (sto, Inr a)")
  case False
  have "\<exists>st out. handleEVPIssuance u E hmac J s rl q = ((s, rl\<lparr>er_store := st\<rparr>), out) \<and> \<not> is_token out"
  proof (cases "eq_body q")
    case None
    then show ?thesis
      by (auto simp: handleEVPIssuance_def is_token_def split: sum.splits intro!: exI [of _ "er_store rl"])
  next
    case (Some body)
    then show ?thesis using False
      by (auto simp: handleEVPIssuance_def is_token_def Let_def split: sum.splits prod.splits intro: exI [of _ "er_store rl"])
  qed
  then show ?thesis using that(1) by blast
next
  case True
  then obtain pub body c sto a where ok: "evp_verified E q = Inr pub" "eq_body q = Some body" "CanonicalEmail u (eb_Email body) = Inr c"
    "eb_Code body \<noteq> []" "Verify u (en_sha256 E) (er_store rl) c (eb_Code body) (evpCodeBinding E pub) (evp_now q) = (sto, Inr a)"
    by blast
  have mb: "evp_mailbox u q = Some a" using ok by (auto simp: evp_mailbox_def Verify_Inr_iff)
  obtain m j err where rv: "journaled_Reserve J (eq_write q) (st_budgets (rt_stores s), rt_journal s)
      (evp_budget_key hmac (er_gateKey rl) a) 1 (er_budgetLimit rl) (er_budgetWindow rl) (time_unix (sint (evp_now q))) = ((m, j), err)"
    by (metis surj_pair)
  have "\<exists>out. handleEVPIssuance u E hmac J s rl q = ((s\<lparr>rt_stores := (rt_stores s)\<lparr>st_budgets := m\<rparr>, rt_journal := j\<rparr>, rl\<lparr>er_store := sto\<rparr>), out)
      \<and> (is_token out \<longrightarrow> err = None)"
    using ok rv by (auto simp: handleEVPIssuance_def is_token_def Let_def split: option.splits sum.splits)
  then show ?thesis using that(2) [OF mb] rv by (fastforce simp: do_reserve_def)
qed

definition hmac32 :: "(bytes \<Rightarrow> bytes \<Rightarrow> bytes) \<Rightarrow> bool" where
  "hmac32 hmac \<longleftrightarrow> (\<forall>k m. length (hmac k m) = 32)"

definition evp_inv :: "(bytes \<Rightarrow> bytes \<Rightarrow> bytes) \<Rightarrow> issuer list \<Rightarrow> policy \<Rightarrow> bytes \<Rightarrow> evp_state \<Rightarrow> bool" where
  "evp_inv hmac vs p k x \<longleftrightarrow> serve_inv vs p (fst x) \<and> hmac32 hmac \<and> er_gateKey (snd x) = k
     \<and> er_budgetLimit (snd x) = 16 \<and> er_budgetWindow (snd x) = 3600 * second"

text \<open>Requests of ordinary size; no restart, which would draw another gate key.\<close>

fun evp_sane :: "evp_op \<Rightarrow> bool" where
  "evp_sane (EHttp (HRestart rnd clock)) \<longleftrightarrow> False"
| "evp_sane (EHttp h) \<longleftrightarrow> http_sane h"
| "evp_sane (EIssue q) \<longleftrightarrow> clean (eq_write q) \<and> 0 \<le> unix (eq_time q) \<and> unix (eq_time q) < 2 ^ 62"
| "evp_sane _ \<longleftrightarrow> True"

definition evp_rule :: budget_rule where
  "evp_rule = \<lparr>br_Limit = 16, br_WindowSeconds = 3600\<rparr>"

fun issue_hour :: "evp_op \<Rightarrow> int" where
  "issue_hour (EIssue q) = unix (eq_time q) div 3600"
| "issue_hour _ = 0"

definition evp_pays ::
  "utables \<Rightarrow> (bytes \<Rightarrow> bytes \<Rightarrow> bytes) \<Rightarrow> bytes \<Rightarrow> evp_op \<Rightarrow> evp_answer \<Rightarrow> (journal_op \<times> journal_out) list \<Rightarrow> bool" where
  "evp_pays u hmac k i out tr \<longleftrightarrow>
     (\<forall>a e. of_bool (evt_issued u a i out \<and> issue_hour i = e)
        \<le> sum_list (map (\<lambda>(j, q). acked_grant (group_window evp_rule (evp_budget_key hmac k a) e) 16 j q) tr))"

lemma evp_time:
  assumes "0 \<le> unix (eq_time q)" "unix (eq_time q) < 2 ^ 62"
  shows "unix (time_unix (sint (evp_now q))) = unix (eq_time q)"
proof -
  have "sint (evp_now q) = unix (eq_time q)"
    using assms by (simp add: evp_now_def signed_of_int signed_take_bit_int_eq_self)
  then show ?thesis using assms time_unix_small [of "unix (eq_time q)"] by (simp add: unix_def)
qed

lemma evp_reserve_sane:
  assumes "hmac32 hmac" "0 \<le> unix t" "unix t < 2 ^ 62"
  shows "reserve_sane (evp_budget_key hmac k a) 1 16 (3600 * second) t"
    and "window_key (evp_budget_key hmac k a) (3600 * second) t = group_window evp_rule (evp_budget_key hmac k a) (unix t div 3600)"
proof -
  have len: "length (b64url_encode (BucketID hmac k a)) \<le> 1000"
    using assms(1) length_b64url_encode [of "BucketID hmac k a"] by (simp add: BucketID_def hmac32_def)
  have "ascii (b64url_encode (BucketID hmac k a))" by (rule ascii_b64url)
  then show "reserve_sane (evp_budget_key hmac k a) 1 16 (3600 * second) t"
    using len assms(2,3)
    by (simp add: reserve_sane_def evp_budget_key_def mailbox_Platform_def evpBudgetGroup_def small_req_def is_int64_def
        whole_window_def second_def sdiv_nonneg ascii_def is_ascii_def)
  have "seconds 3600 = 3600 * second" using seconds_small [of 3600] by simp
  then show "window_key (evp_budget_key hmac k a) (3600 * second) t = group_window evp_rule (evp_budget_key hmac k a) (unix t div 3600)"
    using window_key_seconds [of 3600 t "evp_budget_key hmac k a"] assms(2) by (simp add: group_window_def evp_rule_def)
qed

lemma issuance_matched:
  assumes "evp_inv hmac vs p k ((s, True), rl)" "evp_sane (EIssue q)"
  shows "\<exists>js. list_all journal_op_sane js
    \<and> serve_abs (fst (fst (evp_step u c F E hmac J ((s, True), rl) (EIssue q)))) = run_state (journal_step J) (serve_abs (s, True)) js
    \<and> evp_pays u hmac k (EIssue q) (snd (evp_step u c F E hmac J ((s, True), rl) (EIssue q)))
        (run_trace (journal_step J) (serve_abs (s, True)) js)"
proof (cases rule: handleEVPIssuance_cases [of u E hmac J s rl q])
  case (1 st out)
  then show ?thesis by (intro exI [of _ "[]"]) (auto simp: evp_pays_def evt_issued_only is_token_def)
next
  case (2 a sto st j err out)
  have inv: "hmac32 hmac" "er_gateKey rl = k" "er_budgetLimit rl = 16" "er_budgetWindow rl = 3600 * second"
    using assms(1) by (simp_all add: evp_inv_def)
  have t: "unix (time_unix (sint (evp_now q))) = unix (eq_time q)" using assms(2) by (intro evp_time) simp_all
  let ?t = "time_unix (sint (evp_now q))" and ?key = "evp_budget_key hmac k a"
  let ?op = "JReserve ?key 1 16 (3600 * second) ?t (eq_write q)"
  have sane: "reserve_sane ?key 1 16 (3600 * second) ?t"
    and win: "window_key ?key (3600 * second) ?t = group_window evp_rule ?key (unix (eq_time q) div 3600)"
    using evp_reserve_sane [OF inv(1), of ?t k a] assms(2) t by simp_all
  have step: "journal_step J (serve_abs (s, True)) ?op = ((Some st, j), if err = None then Acked else Refused)"
    using 2(2) inv by (cases err) simp_all
  have "evp_pays u hmac k (EIssue q) (AEvp out) [(?op, if err = None then Acked else Refused)]"
    using 2(1,4) win by (auto simp: evp_pays_def evt_issued_only is_token_def)
  then show ?thesis using 2(3) step sane assms(2)
    by (intro exI [of _ "[?op]"]) (simp del: journal_step.simps serve_abs_up add: serve_abs_def)
qed

lemma issuance_keeps:
  assumes "rt_journal s \<noteq> None" "handleEVPIssuance u E hmac J s rl q = ((s', rl'), out)"
  shows "rt_journal s' \<noteq> None" "rt_verifiers s' = rt_verifiers s" "rt_policy s' = rt_policy s"
    "\<exists>st. rl' = rl\<lparr>er_store := st\<rparr>"
  using assms stores_keep_file(3) [OF assms(1)]
  by (cases rule: handleEVPIssuance_cases [of u E hmac J s rl q]; auto)+

lemma acked_grant_positive: "0 \<le> acked_grant k L j (snd (journal_step J x j))"
proof (cases j)
  case (JReserve key a l win t w)
  obtain so f where x: "x = (so, f)" by (cases x)
  show ?thesis
  proof (cases so)
    case (Some st)
    have "0 < a" if "journaled_Reserve J w (st_budgets st, f) key a l win t = ((m, j'), None)" for m j'
      using that by (auto simp: journaled_Reserve_def Reserve_def split: prod.splits option.splits if_splits)
    then show ?thesis using JReserve x Some
      by (auto simp: do_reserve_def split: prod.splits option.splits)
  qed (use JReserve x in simp)
qed simp_all

lemma acked_grants_nonneg:
  "0 \<le> sum_list (map (\<lambda>(j, q). acked_grant k L j q) (run_trace (journal_step J) x js))"
  by (induction js arbitrary: x) (simp_all add: acked_grant_positive)

interpretation evp: simulation "evp_step u c F E hmac J" "journal_step J" "\<lambda>x. serve_abs (fst x)" "evp_inv hmac vs p k"
  evp_sane journal_op_sane "evp_pays u hmac k" for u c F E hmac J vs p k
proof
  fix x :: evp_state and i
  assume inv: "evp_inv hmac vs p k x" and i: "evp_sane i"
  obtain s up rl where x: "x = ((s, up), rl)" by (metis surj_pair)
  have j: "rt_journal s \<noteq> None" using inv x by (simp add: evp_inv_def serve_inv_def)
  have idle: "\<exists>js. list_all journal_op_sane js \<and> serve_abs (s, up) = run_state (journal_step J) (serve_abs (s, up)) js
      \<and> evp_pays u hmac k i out (run_trace (journal_step J) (serve_abs (s, up)) js)" if "\<And>a. \<not> evt_issued u a i out" for out
    by (intro exI [of _ "[]"]) (use that in \<open>simp add: evp_pays_def\<close>)
  show "\<exists>js. list_all journal_op_sane js \<and> serve_abs (fst (fst (evp_step u c F E hmac J x i))) = run_state (journal_step J) (serve_abs (fst x)) js
      \<and> evp_pays u hmac k i (snd (evp_step u c F E hmac J x i)) (run_trace (journal_step J) (serve_abs (fst x)) js)"
  proof (cases i)
    case (EHttp h)
    have "http_sane h" "serve_inv vs p (s, up)" using i EHttp inv x by (cases h; simp add: evp_inv_def)+
    then obtain js where "list_all journal_op_sane js"
      "serve_abs (fst (serve_step u c F J (s, up) h)) = run_state (journal_step J) (serve_abs (s, up)) js"
      using serving.matched by blast
    then show ?thesis using EHttp x
      by (intro exI [of _ js]) (auto simp: evp_pays_def evt_issued_only acked_grants_nonneg split: prod.splits)
  next
    case (EIssue q)
    show ?thesis
    proof (cases up)
      case True
      then show ?thesis using issuance_matched [of hmac vs p k s rl q u c F E J] inv i EIssue x by simp
    next
      case False
      then show ?thesis using idle [of "AEvp (503, EvDown, None)"] EIssue x by (simp add: evt_issued_only)
    qed
  qed (use idle x in \<open>cases up; simp add: evt_issued_only handleEVPMetadata_def handleEVPJWKS_def\<close>)+
  show "evp_inv hmac vs p k (fst (evp_step u c F E hmac J x i))"
  proof (cases i)
    case (EHttp h)
    have "http_sane h" "serve_inv vs p (s, up)" using i EHttp inv x by (cases h; simp add: evp_inv_def)+
    then have "serve_inv vs p (fst (serve_step u c F J (s, up) h))" by (rule serving.cinv_step [rotated])
    then show ?thesis using EHttp x inv by (auto simp: evp_inv_def split: prod.splits)
  next
    case (EIssue q)
    obtain s' rl' out where h: "handleEVPIssuance u E hmac J s rl q = ((s', rl'), out)" by (metis surj_pair)
    show ?thesis using x inv EIssue h issuance_keeps [OF j h]
      by (cases up) (auto simp: evp_inv_def serve_inv_def simp del: not_None_eq)
  qed (use x inv in \<open>cases up; simp\<close>)+
qed


definition toy_hmac :: "bytes \<Rightarrow> bytes \<Rightarrow> bytes" where
  "toy_hmac k m = toy_hash (k @ m)"

definition toy_rail :: evp_rail where
  "toy_rail = \<lparr>er_signer = \<lparr>si_issuer = ''issuer.test'', si_kid = key_id toy_env ''ed25519-'' (replicate 32 5), si_pub = replicate 32 5,
       si_priv = replicate 64 5\<rparr>, er_issuerID = ''issuer.test'', er_publicBase = ''https://issuer.test'', er_store = NewChallengeStore 600,
     er_gateKey = [9], er_budgetLimit = 16, er_budgetWindow = 3600 * second\<rparr>"

lemma toy_mount: "mountEVP toy_env (Some (replicate 64 5)) (Some [9]) ''issuer.test'' ''https://issuer.test/'' [] True 600 = Inr toy_rail"
  by (simp add: mountEVP_def NewSigner_def NewSignerFromPrivateKey_def toy_rail_def trim_right_slash_def Let_def toy_env_def)

definition toy_evp_request :: "string \<Rightarrow> evp_request" where
  "toy_evp_request code = \<lparr>eq_headers = toy_headers, eq_host = ''host'', eq_body = Some \<lparr>eb_Email = ''bob@ex.org'', eb_Code = code\<rparr>,
     eq_time = 100 * second, eq_rnd = Some [0, 0, 0, 42], eq_delivered = True, eq_write = WroteAll\<rparr>"


section \<open>Where a token comes from\<close>

text \<open>What a request does to the challenge store: it depends on the request only.\<close>

definition evp_store_op :: "utables \<Rightarrow> email_env \<Rightarrow> evp_request \<Rightarrow> mbx_op option" where
  "evp_store_op u E q =
     (case evp_verified E q of Inl _ \<Rightarrow> None
      | Inr pub \<Rightarrow>
     (case eq_body q of None \<Rightarrow> None
      | Some b \<Rightarrow>
     (case CanonicalEmail u (eb_Email b) of Inl _ \<Rightarrow> None
      | Inr c \<Rightarrow>
          Some (if eb_Code b = [] then MCreate c (evpCodeBinding E pub) (evp_now q) (eq_rnd q)
                else MVerify c (eb_Code b) (evpCodeBinding E pub) (evp_now q)))))"

fun evp_acts :: "utables \<Rightarrow> email_env \<Rightarrow> evp_state \<Rightarrow> evp_op \<Rightarrow> mbx_op option" where
  "evp_acts u E ((s, True), rl) (EIssue q) = evp_store_op u E q"
| "evp_acts u E _ _ = None"

lemma evp_handler_store:
  "er_store (snd (fst (handleEVPIssuance u E hmac J s rl q))) =
     (case evp_store_op u E q of None \<Rightarrow> er_store rl | Some j \<Rightarrow> fst (mbx_step u (en_sha256 E) (er_store rl) j))"
  by (auto simp: handleEVPIssuance_def evp_store_op_def Let_def split: sum.splits option.splits prod.splits)

interpretation evp_client: challenge_client "evp_step u cr F E hmac J" "\<lambda>x. er_store (snd x)" "evp_acts u E" u "en_sha256 E"
  for u cr F E hmac J
proof
  fix x :: evp_state and i
  show "er_store (snd (fst (evp_step u cr F E hmac J x i))) =
      (case evp_acts u E x i of None \<Rightarrow> er_store (snd x) | Some j \<Rightarrow> fst (mbx_step u (en_sha256 E) (er_store (snd x)) j))"
  proof (cases "\<exists>s rl q. x = ((s, True), rl) \<and> i = EIssue q")
    case True
    then obtain s rl q where "x = ((s, True), rl)" "i = EIssue q" by blast
    then show ?thesis using evp_handler_store [of u E hmac J s rl q]
      by (cases "handleEVPIssuance u E hmac J s rl q") (auto split: prod.splits option.splits)
  next
    case False
    obtain s up rl where "x = ((s, up), rl)" by (metis surj_pair)
    then show ?thesis using False by (cases i; cases up) (auto split: prod.splits)
  qed
qed

lemma evp_acts_Create:
  assumes "evp_acts u E x i = Some (MCreate c b t rnd)" "snd (Create u (en_sha256 E) (er_store (snd x)) c b t rnd) = Inr code"
  shows "\<exists>q pub body st. i = EIssue q \<and> evp_verified E q = Inr pub \<and> b = evpCodeBinding E pub \<and> t = evp_now q
    \<and> snd (evp_step u cr F E hmac J x i) = AEvp (st, body, Some (c, code))
    \<and> (\<forall>a. CanonicalEmail u c = Inr a \<longrightarrow> evp_mailbox u q = Some a)"
proof -
  obtain q s rl where i: "i = EIssue q" and x: "x = ((s, True), rl)" and q: "evp_store_op u E q = Some (MCreate c b t rnd)"
    using assms(1) by (cases "(u, E, x, i)" rule: evp_acts.cases) auto
  obtain pub bd where ok: "evp_verified E q = Inr pub" "eq_body q = Some bd" "CanonicalEmail u (eb_Email bd) = Inr c" "eb_Code bd = []"
    "b = evpCodeBinding E pub" "t = evp_now q" "rnd = eq_rnd q"
    using q by (auto simp: evp_store_op_def split: sum.splits option.splits if_splits)
  have "\<exists>st body. snd (evp_step u cr F E hmac J x i) = AEvp (st, body, Some (c, code))"
    using ok assms(2) i x by (auto simp: handleEVPIssuance_def Let_def split: prod.splits if_splits)
  then show ?thesis using i ok by (auto simp: evp_mailbox_def)
qed

lemma evt_issued_accepted:
  assumes "evt_issued u a i (snd (evp_step u cr F E hmac J x i))"
  shows "evp_client.touches u E a x i"
proof -
  obtain q t st mail where i: "i = EIssue q" and out: "snd (evp_step u cr F E hmac J x i) = AEvp (st, EvToken t, mail)"
    and mb: "evp_mailbox u q = Some a" using assms by (auto simp: evt_issued_only)
  then obtain s rl where x: "x = ((s, True), rl)" by (cases "(u, E, x, i)" rule: evp_acts.cases) auto
  obtain pub bd c where ok: "evp_verified E q = Inr pub" "eq_body q = Some bd" "CanonicalEmail u (eb_Email bd) = Inr c" "eb_Code bd \<noteq> []"
    "is_ok (snd (Verify u (en_sha256 E) (er_store rl) c (eb_Code bd) (evpCodeBinding E pub) (evp_now q)))"
    using out i x by (auto simp: handleEVPIssuance_def Let_def split: sum.splits option.splits prod.splits if_splits)
  have "CanonicalEmail u c = Inr a" using mb ok by (auto simp: evp_mailbox_def split: sum.splits)
  then show ?thesis using i x ok by (auto simp: evp_client.touches_def evp_store_op_def)
qed

text \<open>
  \<open>code_mailed E u x ops a h b e\<close>: some request in \<open>ops\<close>, run from \<open>x\<close>, was signed by a browser key with code binding \<open>b\<close>
  and made the server mail a code with hash \<open>h\<close>, valid up to \<open>e\<close>, to the address \<open>c\<close> of mailbox \<open>a\<close>; and since then no token was issued
  for that mailbox.
\<close>

definition code_mailed ::
  "utables \<Rightarrow> 'ps crypto \<Rightarrow> faest \<Rightarrow> email_env \<Rightarrow> (bytes \<Rightarrow> bytes \<Rightarrow> bytes) \<Rightarrow> rec_json \<Rightarrow> evp_state \<Rightarrow> evp_op list \<Rightarrow>
   string \<Rightarrow> bytes \<Rightarrow> bytes \<Rightarrow> u64 \<Rightarrow> bool" where
  "code_mailed u cr F E hmac J x ops a hc bnd e \<longleftrightarrow>
     (\<exists>pre q mid pub c code st body.
        ops = pre @ EIssue q # mid
        \<and> evp_verified E q = Inr pub \<and> bnd = evpCodeBinding E pub \<and> evp_mailbox u q = Some a
        \<and> snd (evp_step u cr F E hmac J (run_state (evp_step u cr F E hmac J) x pre) (EIssue q)) = AEvp (st, body, Some (c, code))
        \<and> CanonicalEmail u c = Inr a \<and> hc = hashCode (en_sha256 E) code \<and> e = evp_now q + cs_ttl (er_store (snd x))
        \<and> (\<forall>(i, out) \<in> set (run_trace (evp_step u cr F E hmac J) (run_state (evp_step u cr F E hmac J) x (pre @ [EIssue q])) mid).
             \<not> evt_issued u a i out))"

lemma evp_signer: "er_signer (snd (run_state (evp_step u cr F E hmac J) x ops)) = er_signer (snd x)"
proof (induction ops arbitrary: x)
  case (Cons i ops)
  obtain s up rl where x: "x = ((s, up), rl)" by (metis surj_pair)
  have "er_signer (snd (fst (handleEVPIssuance u E hmac J s rl q))) = er_signer rl" for q
    by (cases rule: handleEVPIssuance_cases [of u E hmac J s rl q]) simp_all
  then have "er_signer (snd (fst (evp_step u cr F E hmac J x i))) = er_signer (snd x)"
    using x by (cases i; cases up) (auto split: prod.splits, metis fst_conv snd_conv)
  then show ?case using Cons by simp
qed simp

lemma opened_mailed:
  assumes "challenge_client.opened (evp_step u cr F E hmac J) (\<lambda>x. er_store (snd x)) (evp_acts u E) u (en_sha256 E) x ops a p"
  shows "code_mailed u cr F E hmac J x ops a (p_codeHash p) (p_binding p) (p_exp p)"
proof -
  let ?step = "evp_step u cr F E hmac J"
  obtain pre i mid c t rnd code where *: "ops = pre @ i # mid"
    "evp_acts u E (run_state ?step x pre) i = Some (MCreate c (p_binding p) t rnd)" "CanonicalEmail u c = Inr a"
    "snd (Create u (en_sha256 E) (er_store (snd (run_state ?step x pre))) c (p_binding p) t rnd) = Inr code"
    "p_codeHash p = hashCode (en_sha256 E) code" "p_exp p = t + cs_ttl (er_store (snd x))"
    "\<And>mid1 j mid2. mid = mid1 @ j # mid2 \<Longrightarrow> \<not> evp_client.touches u E a (run_state ?step x (pre @ i # mid1)) j"
    using assms unfolding evp_client.opened_def by blast
  obtain q pub body st where q: "i = EIssue q" "evp_verified E q = Inr pub" "p_binding p = evpCodeBinding E pub" "t = evp_now q"
    "snd (?step (run_state ?step x pre) i) = AEvp (st, body, Some (c, code))"
    "\<forall>a. CanonicalEmail u c = Inr a \<longrightarrow> evp_mailbox u q = Some a"
    using evp_acts_Create [OF *(2,4), where cr = cr and F = F and hmac = hmac and J = J] by blast
  have "\<not> evt_issued u a j out" if e: "(j, out) \<in> set (run_trace ?step (run_state ?step x (pre @ [EIssue q])) mid)" for j out
  proof -
    obtain mid1 mid2 where "mid = mid1 @ j # mid2" "out = snd (?step (run_state ?step (run_state ?step x (pre @ [EIssue q])) mid1) j)"
      using run_trace_entry [OF e] by blast
    then show ?thesis using *(7) [of mid1 j mid2] evt_issued_accepted [of u a j cr F E hmac J "run_state ?step x (pre @ i # mid1)"] q(1) by auto
  qed
  then show ?thesis unfolding code_mailed_def
    by (intro exI [of _ pre] exI [of _ q] exI [of _ mid] exI [of _ pub] exI [of _ c] exI [of _ code] exI [of _ st] exI [of _ body])
      (use * q in auto)
qed

text \<open>
  C16: A token proves control of the mailbox by the holder of the browser key. Suppose the server, after any sequence of requests to
  a freshly mounted rail, answers an issuance request with a token. Then the request was signed by a browser key; an earlier
  request, signed by a key with the same code binding (a SHA-256 hash over the key), made the server mail a code to the address of this
  mailbox; that code has the hash of the code presented now, has not expired, and no token was issued for the mailbox since; and the
  token is the issuer's token for this mailbox and this browser key.
\<close>

theorem evp_token_provenance:
  assumes "mountEVP E generated rnd evpIssuer base addr tls ttl = Inr rl" and "x = (r, rl)"
    and "evp_step u cr F E hmac J (run_state (evp_step u cr F E hmac J) x ops) (EIssue q) = (x', AEvp (st, EvToken tok, mail))"
  shows "\<exists>pub b a e holder. evp_verified E q = Inr pub \<and> eq_body q = Some b \<and> evp_mailbox u q = Some a
    \<and> code_mailed u cr F E hmac J x ops a (hashCode (en_sha256 E) (trim_space (eb_Code b))) (evpCodeBinding E pub) e \<and> evp_now q < e
    \<and> IssueEVT E (er_signer rl) a holder (time_unix (sint (evp_now q))) 0 = Inr tok \<and> Ed25519PublicKey holder = Inr pub"
proof -
  let ?step = "evp_step u cr F E hmac J"
  let ?y = "run_state ?step x ops"
  have st0: "er_store (snd x) = NewChallengeStore ttl"
    using assms(1,2) by (auto simp: mountEVP_def result_simps Let_def)
  have sg: "er_signer (snd ?y) = er_signer rl" using evp_signer [of u cr F E hmac J x ops] assms(2) by simp
  obtain s up rl' where y: "?y = ((s, up), rl')" by (metis surj_pair)
  obtain s2 rl2 where h: "handleEVPIssuance u E hmac J s rl' q = ((s2, rl2), st, EvToken tok, mail)"
    using assms(3) y by (cases up) (auto split: prod.splits)
  obtain pub b c sto a holder where ok: "evp_verified E q = Inr pub" "eq_body q = Some b" "CanonicalEmail u (eb_Email b) = Inr c"
    and v: "Verify u (en_sha256 E) (er_store rl') c (eb_Code b) (evpCodeBinding E pub) (evp_now q) = (sto, Inr a)"
    and tok: "PublicJWK pub [] = Inr holder" "IssueEVT E (er_signer rl') a holder (time_unix (sint (evp_now q))) 0 = Inr tok"
    using h by (auto simp: handleEVPIssuance_def Let_def split: sum.splits option.splits prod.splits if_splits)
  have v': "Verify u (en_sha256 E) (er_store (snd ?y)) c (eb_Code b) (evpCodeBinding E pub) (evp_now q) = (sto, Inr a)"
    using v y by simp
  have p1: "CanonicalEmail u c = Inr a" using v by (simp add: Verify_Inr_iff)
  obtain p where op: "challenge_client.opened ?step (\<lambda>x. er_store (snd x)) (evp_acts u E) u (en_sha256 E) x ops a p"
    and p: "evp_now q < p_exp p" "p_binding p = evpCodeBinding E pub" "p_codeHash p = hashCode (en_sha256 E) (trim_space (eb_Code b))"
    using evp_client.accepted_opened [OF st0 v'] by (elim exE conjE) (rule that)
  have "evp_mailbox u q = Some a" using ok p1 by (simp add: evp_mailbox_def)
  moreover have "Ed25519PublicKey holder = Inr pub"
    using tok(1) by (auto simp: PublicJWK_def Ed25519PublicKey_def result_simps)
  ultimately show ?thesis using ok p opened_mailed [OF op] tok(2) sg y by auto
qed

text \<open>Two requests of one browser: the first has a code mailed, the second presents it.\<close>

lemma toy_verified: "evp_verified toy_env (toy_evp_request code) = Inr (replicate 32 4)"
proof -
  have "evp_now (toy_evp_request code) = 100" by (simp add: evp_now_def toy_evp_request_def unix_def second_def)
  then show ?thesis
    using signed_request_verifies [OF toy_browser(1) _ toy_browser(3), of 100] toy_browser(2)
    by (simp add: evp_verified_def toy_evp_request_def issuancePath_def) (simp add: toy_headers_def split: prod.splits)
qed

theorem evp_token_provenance_witness:
  "\<exists>tok x' st mail a e holder. evp_step ascii_only toy_crypto toy_faest toy_env toy_hmac toy_rec_json
       (run_state (evp_step ascii_only toy_crypto toy_faest toy_env toy_hmac toy_rec_json)
         ((toy_server\<lparr>rt_journal := None\<rparr>, True), toy_rail) [EIssue (toy_evp_request [])])
       (EIssue (toy_evp_request ''000042'')) = (x', AEvp (st, EvToken tok, mail))
     \<and> code_mailed ascii_only toy_crypto toy_faest toy_env toy_hmac toy_rec_json ((toy_server\<lparr>rt_journal := None\<rparr>, True), toy_rail)
         [EIssue (toy_evp_request [])] a (hashCode (en_sha256 toy_env) (trim_space ''000042''))
         (evpCodeBinding toy_env (replicate 32 4)) e
     \<and> IssueEVT toy_env (er_signer toy_rail) a holder (100 * second) 0 = Inr tok"
proof -
  let ?x = "((toy_server\<lparr>rt_journal := None\<rparr>, True), toy_rail)"
    and ?step = "evp_step ascii_only toy_crypto toy_faest toy_env toy_hmac toy_rec_json"
  have now: "evp_now (toy_evp_request code) = 100" for code by (simp add: evp_now_def toy_evp_request_def unix_def second_def)
  have t: "time_unix (sint (100 :: u64)) = 100 * second" by (simp add: time_unix_small)
  have one: "fst (?step ?x (EIssue (toy_evp_request []))) = ((toy_server\<lparr>rt_journal := None\<rparr>, True), toy_rail\<lparr>er_store :=
      fst (Create ascii_only (en_sha256 toy_env) (NewChallengeStore 600) ''bob@ex.org'' (evpCodeBinding toy_env (replicate 32 4)) 100 (Some [0, 0, 0, 42]))\<rparr>)"
    using toy_verified [of "[]"] now [of "[]"]
    by (simp add: handleEVPIssuance_def toy_evp_request_def example_canonical toy_rail_def Let_def split: prod.splits sum.splits)
  let ?rl = "toy_rail\<lparr>er_store := fst (Create ascii_only (en_sha256 toy_env) (NewChallengeStore 600) ''bob@ex.org''
      (evpCodeBinding toy_env (replicate 32 4)) 100 (Some [0, 0, 0, 42]))\<rparr>"
  have v: "\<exists>sto. Verify ascii_only (en_sha256 toy_env) (er_store ?rl) ''bob@ex.org'' ''000042'' (evpCodeBinding toy_env (replicate 32 4)) 100
      = (sto, Inr ''bob@ex.org'')"
    by (simp add: Verify_Inr_iff Create_def example_canonical example_trim example_code Let_def NewChallengeStore_def be_word_def)
  have rsv: "\<exists>m j. journaled_Reserve toy_rec_json WroteAll (st_budgets (rt_stores toy_server), None) key 1 16 w t = ((m, j), None)" for key w t
    by (simp add: journaled_Reserve_def Reserve_def toy_server_def toy_config_def serve_config.extend_def fresh_stores_def
        NewMemoryBudgetStore_def used_of_def wrap64_def journal_append_def Let_def)
  obtain holder where holder: "PublicJWK (replicate 32 4) [] = Inr holder" "Ed25519PublicKey holder = Inr (replicate 32 4)"
    by (simp add: PublicJWK_def Ed25519PublicKey_def)
  have "\<exists>jws. signJWS toy_env (ed_suite toy_env) h p (replicate 64 5) rnd = Inr jws" for h p rnd
    by (simp add: signJWS_def ed_suite_def Let_def)
  then have evt: "\<exists>evt. IssueEVT toy_env (er_signer toy_rail) ''bob@ex.org'' holder (100 * second) 0 = Inr evt"
    using holder(2) by (simp add: IssueEVT_def toy_rail_def Let_def zero_time_def unix_to_internal_def second_def result_simps)
  have "\<exists>tok st mail x'. ?step ((toy_server\<lparr>rt_journal := None\<rparr>, True), ?rl) (EIssue (toy_evp_request ''000042'')) = (x', AEvp (st, EvToken tok, mail))"
  proof -
    obtain sto where "Verify ascii_only (en_sha256 toy_env) (er_store ?rl) ''bob@ex.org'' ''000042'' (evpCodeBinding toy_env (replicate 32 4)) 100
      = (sto, Inr ''bob@ex.org'')" using v by blast
    moreover obtain m j where "journaled_Reserve toy_rec_json WroteAll (st_budgets (rt_stores toy_server), None)
      (evp_budget_key toy_hmac [9] ''bob@ex.org'') 1 16 (3600 * second) (100 * second) = ((m, j), None)" using rsv by blast
    moreover obtain tok where "IssueEVT toy_env (er_signer toy_rail) ''bob@ex.org'' holder (100 * second) 0 = Inr tok" using evt by blast
    moreover have "er_gateKey toy_rail = [9]" "er_budgetLimit toy_rail = 16" "er_budgetWindow toy_rail = 3600 * second"
      by (simp_all add: toy_rail_def)
    moreover have "eq_body (toy_evp_request ''000042'') = Some \<lparr>eb_Email = ''bob@ex.org'', eb_Code = ''000042''\<rparr>"
      "eq_write (toy_evp_request ''000042'') = WroteAll" by (simp_all add: toy_evp_request_def)
    ultimately show ?thesis
      using toy_verified [of "''000042''"] now [of "''000042''"] t holder(1)
      by (auto simp: handleEVPIssuance_def example_canonical Let_def)
  qed
  then obtain tok st mail x' where two: "?step (run_state ?step ?x [EIssue (toy_evp_request [])]) (EIssue (toy_evp_request ''000042'')) = (x', AEvp (st, EvToken tok, mail))"
    using one by auto
  show ?thesis
    using evp_token_provenance [OF toy_mount refl two] two now [of "''000042''"] t toy_verified [of "''000042''"]
    by (simp add: toy_evp_request_def del: evp_step.simps run_state_simps) blast
qed

end
