(* ===== verification/Issuerd.thy ===== *)
theory Issuerd
  imports TokenService Mailbox Cli "HOL-Library.AList"
begin

text \<open>
  The mailbox-gated issuer (\<^verbatim>\<open>services/issuerd\<close>): sessions that are proved to own a mailbox, either by
  a DKIM-signed mail to the session's address (mode \<^verbatim>\<open>send\<close>) or by a mailed code (mode \<^verbatim>\<open>code\<close>), and then
  mint private identity tokens against the mailbox's budget. The session table is an association list with
  distinct keys (a Go map). The Go mail parser and the DKIM verifier are parameters: a message is what
  \<^verbatim>\<open>net/mail\<close> makes of the raw bytes. Clocks, random bytes and the outcome of the mail relay are
  arguments. The results: a session is verified at most once and never changes its mailbox, what verified it
  proves control of the mailbox, every minted token verifies, and the tokens minted for one mailbox
  stay within the policy's budget.
\<close>

section \<open>State\<close>

record issuerd_config =
  ic_MailDomain :: string
  ic_VerifyLocalPart :: string
  ic_PublicBase :: string
  ic_WebhookSecret :: string
  ic_SeedFile :: string
  ic_PolicyFile :: string
  ic_Dev :: bool
  ic_RelayAddr :: string
  ic_RelayFrom :: string
  ic_SessionTTL :: duration

datatype session_status = Pending | Verified

record session =
  ss_ID :: string
  ss_Mode :: string
  ss_Status :: session_status
  ss_Bucket :: string
  ss_CreatedAt :: gotime
  ss_ExpiresAt :: gotime
  ss_Minted :: bool

type_synonym sessions = "(string \<times> session) list"

record issuerd =
  id_cfg :: issuerd_config
  id_issuer :: issuer
  id_svc :: service
  id_policy :: policy
  id_budgets :: budget_store
  id_codes :: challenge_store
  id_gateKey :: bytes
  id_sessions :: sessions

definition issuerKeyVersion :: u32 where "issuerKeyVersion = 1"
definition maxSessions :: nat where "maxSessions = 4096"
definition maxMailBytes :: nat where "maxMailBytes = 2 ^ 20"

datatype issuerd_error =
    DSeedRead | DSeedSize nat | DSeedWrite | DEntropy | DProfile profile_error | DService service_error
  | DPolicyRead | DPolicy "compile_error option"
  | DBody | DMode | DTableFull | DUnknownSession | DNotCodeMode | DNotSendMode | DGate gate_error | DDelivery
  | DAlreadyVerified | DNotVerified | DHolderMissing | DHolderKey
  | DParse | DNoRecipient | DNoFrom | DFromParse | DMalformedFrom | DDkim | DNoSignature | DNotAligned
  | DWebhookDisabled | DWebhookSecret

section \<open>Start-up\<close>

text \<open>A missing seed file is created, one that can not be read is an error.\<close>

definition loadOrCreateSeed :: "os \<Rightarrow> string \<Rightarrow> bytes option \<Rightarrow> (issuerd_error, os \<times> bytes) result" where
  "loadOrCreateSeed w path rnd =
     (if path = [] then Inr (w, [])
      else if \<not> os_can_read w path then Inl DSeedRead
      else
        (case os_files w path of
           Some data \<Rightarrow> guard (length data = 24) (DSeedSize (length data)) (Inr (w, data))
         | None \<Rightarrow>
             bind_result (of_option DEntropy rnd) (\<lambda>seed.
             bind_result (of_option DSeedWrite (WriteFile w path seed)) (\<lambda>w'.
             Inr (w', seed)))))"

text \<open>\<open>fresh\<close> is the entropy of an ephemeral key, \<open>builtin\<close> the bytes of the built-in policy.\<close>

definition newServer ::
  "'ps crypto \<Rightarrow> (bytes \<Rightarrow> policy_source option) \<Rightarrow> bytes \<Rightarrow> os \<Rightarrow> issuerd_config \<Rightarrow> bytes option \<Rightarrow> bytes option \<Rightarrow>
   bytes option \<Rightarrow> (issuerd_error, os \<times> issuerd) result" where
  "newServer c json builtin w cfg rnd fresh rnd_gate =
     bind_result (loadOrCreateSeed w (ic_SeedFile cfg) rnd) (\<lambda>(w1, seed).
     bind_result (map_error DProfile (NewIssuer c fresh issuerKeyVersion seed)) (\<lambda>issuer.
     bind_result (map_error DService (service_NewIssuer (Some issuer) None)) (\<lambda>svc.
     bind_result (if ic_PolicyFile cfg \<noteq> [] then of_option DPolicyRead (ReadFile w1 (ic_PolicyFile cfg)) else Inr builtin) (\<lambda>policyJSON.
     bind_result (map_error DPolicy (CompileJSON json policyJSON)) (\<lambda>policy.
     bind_result (of_option DEntropy rnd_gate) (\<lambda>gateKey.
     Inr (w1, \<lparr>id_cfg = cfg, id_issuer = issuer, id_svc = svc, id_policy = policy, id_budgets = NewMemoryBudgetStore,
        id_codes = NewChallengeStore 600, id_gateKey = gateKey, id_sessions = []\<rparr>)))))))"

section \<open>Sessions\<close>

datatype issuerd_body =
    BError issuerd_error
  | BSession string string int "(string \<times> string) option"
  | BStatus string string session_status bool int
  | BSent
  | BVerified
  | BDenied mint_decision
  | BToken string string u32
  | BAccepted
  | BInfo u32 string string string string

text \<open>A reply, and the code mail that was handed to the relay (recipient and text).\<close>

type_synonym issuerd_out = "(nat \<times> issuerd_body) \<times> (string \<times> string) option"

definition replies :: "nat \<Rightarrow> issuerd_body \<Rightarrow> issuerd_out" where
  "replies st b = ((st, b), None)"

definition gcLocked :: "sessions \<Rightarrow> gotime \<Rightarrow> sessions" where
  "gcLocked ss now = filter (\<lambda>(sid, s). \<not> now > ss_ExpiresAt s) ss"

definition getSession :: "issuerd \<Rightarrow> string \<Rightarrow> gotime \<Rightarrow> session option" where
  "getSession d sid now =
     (case map_of (id_sessions d) sid of None \<Rightarrow> None
      | Some s \<Rightarrow> if now > ss_ExpiresAt s then None else Some s)"

definition put_session :: "issuerd \<Rightarrow> string \<Rightarrow> session \<Rightarrow> issuerd" where
  "put_session d sid s = d\<lparr>id_sessions := AList.update sid s (id_sessions d)\<rparr>"

definition sessionBinding :: "(bytes \<Rightarrow> bytes) \<Rightarrow> string \<Rightarrow> bytes" where
  "sessionBinding h sid = h (bytes_of (''issuerd/session-binding'' @ [CHR 0x00] @ sid))"

definition randomTag :: "utables \<Rightarrow> bytes option \<Rightarrow> (issuerd_error, string) result" where
  "randomTag u rnd = bind_result (of_option DEntropy rnd) (\<lambda>raw. Inr (to_lower u (b64url_encode raw)))"

definition verifyAddress :: "issuerd_config \<Rightarrow> string \<Rightarrow> string" where
  "verifyAddress cfg sid = ic_VerifyLocalPart cfg @ ''+'' @ sid @ ''@'' @ ic_MailDomain cfg"

definition issuerd_info :: "issuerd \<Rightarrow> issuerd_out" where
  "issuerd_info d =
     replies 200 (BInfo (is_keyVersion (id_issuer d)) (hex_encode (is_tokenKeyID (id_issuer d)))
       (b64url_encode (is_cpk (id_issuer d)))
       (ic_VerifyLocalPart (id_cfg d) @ ''+<session_tag>@'' @ ic_MailDomain (id_cfg d)) (ic_PublicBase (id_cfg d)))"

text \<open>The body is the requested mode, \<open>None\<close> when the decoder refused it (an empty body decodes to the empty mode).\<close>

definition handleCreateSession ::
  "utables \<Rightarrow> issuerd \<Rightarrow> string option \<Rightarrow> bytes option \<Rightarrow> gotime \<Rightarrow> issuerd \<times> issuerd_out" where
  "handleCreateSession u d body rnd now =
     (case body of None \<Rightarrow> (d, replies 400 (BError DBody))
      | Some req \<Rightarrow>
     (let mode = (if req = [] then ''send'' else req) in
      if mode \<noteq> ''send'' \<and> mode \<noteq> ''code'' then (d, replies 400 (BError DMode))
      else
     (case randomTag u rnd of Inl e \<Rightarrow> (d, replies 500 (BError e))
      | Inr tag \<Rightarrow>
     (let sess = \<lparr>ss_ID = tag, ss_Mode = mode, ss_Status = Pending, ss_Bucket = [], ss_CreatedAt = now,
                  ss_ExpiresAt = now + ic_SessionTTL (id_cfg d), ss_Minted = False\<rparr>;
          d' = d\<lparr>id_sessions := gcLocked (id_sessions d) now\<rparr> in
      if length (id_sessions d') \<ge> maxSessions then (d', replies 429 (BError DTableFull))
      else (put_session d' tag sess,
            replies 200 (BSession tag mode (unix (ss_ExpiresAt sess))
              (if mode = ''send'' then Some (verifyAddress (id_cfg d) tag, ''verify '' @ tag) else None)))))))"

definition handleGetSession :: "issuerd \<Rightarrow> string \<Rightarrow> gotime \<Rightarrow> issuerd_out" where
  "handleGetSession d sid now =
     (case getSession d sid now of None \<Rightarrow> replies 404 (BError DUnknownSession)
      | Some s \<Rightarrow> replies 200 (BStatus (ss_ID s) (ss_Mode s) (ss_Status s) (ss_Minted s) (unix (ss_ExpiresAt s))))"

definition crlf :: string where "crlf = [CHR 0x0D, CHR 0x0A]"

text \<open>The delivery of a code: whether it succeeded (\<open>relay\<close> is the relay's answer), and the mail that was handed over.\<close>

definition defaultSendCode :: "issuerd_config \<Rightarrow> string \<Rightarrow> string \<Rightarrow> bool \<Rightarrow> bool \<times> (string \<times> string) option" where
  "defaultSendCode cfg to code relay =
     (if ic_RelayAddr cfg = [] then (ic_Dev cfg, None)
      else
        (let from = (if ic_RelayFrom cfg = [] then ic_VerifyLocalPart cfg @ ''@'' @ ic_MailDomain cfg else ic_RelayFrom cfg);
             msg = ''From: '' @ from @ crlf @ ''To: '' @ to @ crlf @ ''Subject: Your verification code'' @ crlf @ crlf
                 @ ''Your verification code is: '' @ code @ crlf @ crlf
                 @ ''It expires in 10 minutes. If you did not request it, ignore this mail.'' @ crlf in
         (relay, Some (to, msg))))"

definition unix_now :: "gotime \<Rightarrow> u64" where
  "unix_now t = word_of_int (unix t)"

definition handleSendCode ::
  "utables \<Rightarrow> (bytes \<Rightarrow> bytes) \<Rightarrow> issuerd \<Rightarrow> string \<Rightarrow> string option \<Rightarrow> gotime \<Rightarrow> bytes option \<Rightarrow> bool \<Rightarrow> issuerd \<times> issuerd_out" where
  "handleSendCode u h d sid body now rnd relay =
     (case getSession d sid now of None \<Rightarrow> (d, replies 404 (BError DUnknownSession))
      | Some s \<Rightarrow>
     if ss_Mode s \<noteq> ''code'' then (d, replies 409 (BError DNotCodeMode))
     else
     (case body of None \<Rightarrow> (d, replies 400 (BError DBody))
      | Some email \<Rightarrow>
     (case Create u h (id_codes d) email (sessionBinding h (ss_ID s)) (unix_now now) rnd of
        (st, Inl e) \<Rightarrow> (d\<lparr>id_codes := st\<rparr>, replies 400 (BError (DGate e)))
      | (st, Inr code) \<Rightarrow>
          (case defaultSendCode (id_cfg d) email code relay of (ok, mail) \<Rightarrow>
             (d\<lparr>id_codes := st\<rparr>, if ok then (200, BSent) else (502, BError DDelivery), mail)))))"

text \<open>The first verification binds the session to the mailbox's bucket; later ones change nothing.\<close>

definition markVerified ::
  "(bytes \<Rightarrow> bytes \<Rightarrow> bytes) \<Rightarrow> issuerd \<Rightarrow> string \<Rightarrow> session \<Rightarrow> string \<Rightarrow> issuerd \<times> bool" where
  "markVerified hmac d sid s canonical =
     (if ss_Status s \<noteq> Pending then (d, False)
      else (put_session d sid (s\<lparr>ss_Status := Verified, ss_Bucket := hex_encode (BucketID hmac (id_gateKey d) canonical)\<rparr>), True))"

record verify_code_request =
  vc_Email :: string
  vc_Code :: string

definition handleVerifyCode ::
  "utables \<Rightarrow> (bytes \<Rightarrow> bytes) \<Rightarrow> (bytes \<Rightarrow> bytes \<Rightarrow> bytes) \<Rightarrow> issuerd \<Rightarrow> string \<Rightarrow> verify_code_request option \<Rightarrow> gotime \<Rightarrow>
   issuerd \<times> issuerd_out" where
  "handleVerifyCode u h hmac d sid body now =
     (case getSession d sid now of None \<Rightarrow> (d, replies 404 (BError DUnknownSession))
      | Some s \<Rightarrow>
     (case body of None \<Rightarrow> (d, replies 400 (BError DBody))
      | Some req \<Rightarrow>
     (case Verify u h (id_codes d) (vc_Email req) (vc_Code req) (sessionBinding h (ss_ID s)) (unix_now now) of
        (st, Inl e) \<Rightarrow> (d\<lparr>id_codes := st\<rparr>, replies 403 (BError (DGate e)))
      | (st, Inr canonical) \<Rightarrow>
          (case markVerified hmac (d\<lparr>id_codes := st\<rparr>) sid s canonical of
             (d', True) \<Rightarrow> (d', replies 200 BVerified)
           | (d', False) \<Rightarrow> (d', replies 409 (BError DAlreadyVerified))))))"

section \<open>Incoming mail\<close>

text \<open>
  What \<^verbatim>\<open>net/mail\<close> and the DKIM package make of a raw message: the value of a header (empty when absent),
  the address list of a header value, a single address, and the checked signatures (domain and whether it is valid),
  \<open>None\<close> for an error.
\<close>

record mail_parser =
  mp_Header :: "bytes \<Rightarrow> (string \<Rightarrow> string) option"
  mp_AddressList :: "string \<Rightarrow> string list option"
  mp_Address :: "string \<Rightarrow> string option"
  mp_dkim :: "bytes \<Rightarrow> (string \<times> bool) list option"

definition recipient_candidates :: "mail_parser \<Rightarrow> (string \<Rightarrow> string) \<Rightarrow> string list" where
  "recipient_candidates P hdr =
     concat (map (\<lambda>name. if hdr name = [] then []
        else case mp_AddressList P (hdr name) of Some addrs \<Rightarrow> addrs | None \<Rightarrow> [hdr name])
       [''To'', ''Cc'', ''Delivered-To'', ''X-Original-To''])"

fun session_tag :: "utables \<Rightarrow> string \<Rightarrow> string \<Rightarrow> string list \<Rightarrow> string option" where
  "session_tag u pfx sfx [] = None"
| "session_tag u pfx sfx (cand # rest) =
     (let addr = to_lower u (trim_space cand) in
      if \<not> has_suffix addr sfx then session_tag u pfx sfx rest
      else (case cut_prefix pfx (trim_suffix addr sfx) of
              None \<Rightarrow> session_tag u pfx sfx rest
            | Some tag \<Rightarrow> if tag \<noteq> [] then Some tag else session_tag u pfx sfx rest))"

definition sessionTagFromRecipients ::
  "utables \<Rightarrow> issuerd_config \<Rightarrow> mail_parser \<Rightarrow> (string \<Rightarrow> string) \<Rightarrow> (issuerd_error, string) result" where
  "sessionTagFromRecipients u cfg P hdr =
     of_option DNoRecipient (session_tag u (ic_VerifyLocalPart cfg @ ''+'') (''@'' @ to_lower u (ic_MailDomain cfg))
       (recipient_candidates P hdr))"

definition senderAddress :: "mail_parser \<Rightarrow> (string \<Rightarrow> string) \<Rightarrow> (issuerd_error, string) result" where
  "senderAddress P hdr =
     guard (hdr ''From'' \<noteq> []) DNoFrom (of_option DFromParse (mp_Address P (hdr ''From'')))"

text \<open>A signing domain is aligned when it is the sender's domain or a parent of it.\<close>

definition aligned :: "utables \<Rightarrow> string \<Rightarrow> string \<Rightarrow> bool" where
  "aligned u fromDomain d \<longleftrightarrow> to_lower u d = fromDomain \<or> has_suffix fromDomain (''.'' @ to_lower u d)"

definition verifyAlignedDKIM :: "utables \<Rightarrow> mail_parser \<Rightarrow> bytes \<Rightarrow> string \<Rightarrow> (issuerd_error, unit) result" where
  "verifyAlignedDKIM u P raw fromAddr =
     bind_result (of_option DMalformedFrom (cut ''@'' fromAddr)) (\<lambda>(_, fromDomain).
     bind_result (of_option DDkim (mp_dkim P raw)) (\<lambda>verifications.
     guard (verifications \<noteq> []) DNoSignature
     (guard (list_ex (\<lambda>(dom, ok). ok \<and> aligned u (to_lower u fromDomain) dom) verifications) DNotAligned (Inr ()))))"

definition canonicalOrErr :: "utables \<Rightarrow> string \<Rightarrow> (issuerd_error, string) result" where
  "canonicalOrErr u addr = map_error DGate (CanonicalEmail u addr)"

definition handleIncomingMail ::
  "utables \<Rightarrow> (bytes \<Rightarrow> bytes \<Rightarrow> bytes) \<Rightarrow> mail_parser \<Rightarrow> issuerd \<Rightarrow> bytes \<Rightarrow> gotime \<Rightarrow> issuerd \<times> issuerd_error option" where
  "handleIncomingMail u hmac P d raw now =
     (case mp_Header P raw of None \<Rightarrow> (d, Some DParse)
      | Some hdr \<Rightarrow>
     (case sessionTagFromRecipients u (id_cfg d) P hdr of Inl e \<Rightarrow> (d, Some e)
      | Inr sid \<Rightarrow>
     (case getSession d sid now of None \<Rightarrow> (d, Some DUnknownSession)
      | Some s \<Rightarrow>
     if ss_Mode s \<noteq> ''send'' then (d, Some DNotSendMode)
     else
     (case senderAddress P hdr of Inl e \<Rightarrow> (d, Some e)
      | Inr fromAddr \<Rightarrow>
     (case (if ic_Dev (id_cfg d) then Inr () else verifyAlignedDKIM u P raw fromAddr) of Inl e \<Rightarrow> (d, Some e)
      | Inr _ \<Rightarrow>
     (case canonicalOrErr u fromAddr of Inl e \<Rightarrow> (d, Some e)
      | Inr canonical \<Rightarrow>
     (case markVerified hmac d sid s canonical of
        (d', True) \<Rightarrow> (d', None)
      | (d', False) \<Rightarrow> (d', Some DAlreadyVerified))))))))"

definition handleWebhook ::
  "utables \<Rightarrow> (bytes \<Rightarrow> bytes \<Rightarrow> bytes) \<Rightarrow> mail_parser \<Rightarrow> issuerd \<Rightarrow> string \<Rightarrow> bytes option \<Rightarrow> gotime \<Rightarrow> issuerd \<times> issuerd_out" where
  "handleWebhook u hmac P d secret body now =
     (if ic_WebhookSecret (id_cfg d) = [] \<and> \<not> ic_Dev (id_cfg d) then (d, replies 403 (BError DWebhookDisabled))
      else if ic_WebhookSecret (id_cfg d) \<noteq> [] \<and> secret \<noteq> ic_WebhookSecret (id_cfg d) then (d, replies 403 (BError DWebhookSecret))
      else
        (case body of None \<Rightarrow> (d, replies 400 (BError DBody))
         | Some raw \<Rightarrow>
             (case handleIncomingMail u hmac P d (take maxMailBytes raw) now of
                (d', Some e) \<Rightarrow> (d', replies 422 (BError e))
              | (d', None) \<Rightarrow> (d', replies 200 BAccepted))))"

text \<open>The embedded SMTP listener; the status is its reply code.\<close>

definition smtp_Data ::
  "utables \<Rightarrow> (bytes \<Rightarrow> bytes \<Rightarrow> bytes) \<Rightarrow> mail_parser \<Rightarrow> issuerd \<Rightarrow> bytes option \<Rightarrow> gotime \<Rightarrow> issuerd \<times> issuerd_out" where
  "smtp_Data u hmac P d body now =
     (case body of None \<Rightarrow> (d, replies 554 (BError DBody))
      | Some raw \<Rightarrow>
          (case handleIncomingMail u hmac P d (take maxMailBytes raw) now of
             (d', Some e) \<Rightarrow> (d', replies 550 (BError e))
           | (d', None) \<Rightarrow> (d', replies 250 BAccepted)))"

section \<open>Minting\<close>

definition GateEmail :: string where "GateEmail = ''email''"

definition session_mint_request :: "'ps crypto \<Rightarrow> issuerd \<Rightarrow> string \<Rightarrow> bytes \<Rightarrow> mint_request" where
  "session_mint_request c d bucket target =
     \<lparr>mq_Subject = \<lparr>su_ValueX = [], su_Platform = mailbox_Platform, su_Runtime = [], su_Claims = Map.empty\<rparr>,
      mq_Eligibility = [\<lparr>el_GateKind = GateEmail, el_BucketID = bucket, el_Assurance = AssuranceVerified, el_Claims = Map.empty\<rparr>],
      mq_TokenFamily = TokenPrivateIdentity, mq_Count = 1, mq_KeyVersion = is_keyVersion (id_issuer d), mq_Origin = [],
      mq_Address = [], mq_Binding = BindingOf c [target]\<rparr>"

definition handleMint ::
  "utables \<Rightarrow> 'ps crypto \<Rightarrow> issuerd \<Rightarrow> string \<Rightarrow> string option \<Rightarrow> gotime \<Rightarrow> bytes option \<Rightarrow> issuerd \<times> issuerd_out" where
  "handleMint u c d sid body now rnd =
     (case getSession d sid now of None \<Rightarrow> (d, replies 404 (BError DUnknownSession))
      | Some s \<Rightarrow>
     if ss_Status s \<noteq> Verified then (d, replies 403 (BError DNotVerified))
     else
     (case body of None \<Rightarrow> (d, replies 400 (BError DBody))
      | Some holderPubB64 \<Rightarrow>
     if holderPubB64 = [] then (d, replies 400 (BError DHolderMissing))
     else
     (case b64url_decode holderPubB64 of None \<Rightarrow> (d, replies 400 (BError DHolderKey))
      | Some raw \<Rightarrow>
     if length raw \<noteq> 32 then (d, replies 400 (BError DHolderKey))
     else
     (case rnd of None \<Rightarrow> (d, replies 500 (BError DEntropy))
      | Some additionalR \<Rightarrow>
     (let input = NewPrivateIdentityInput (is_keyVersion (id_issuer d)) (is_tokenKeyID (id_issuer d)) HolderAlgEd25519 raw in
      case PrepareBlind c (pi_Bytes input) additionalR of (target, state) \<Rightarrow>
     (case AuthorizeMint u (Some (id_policy d)) (session_mint_request c d (ss_Bucket s) target) (Some Reserve) (id_budgets d) now of
        (m, decision) \<Rightarrow>
     (let d' = d\<lparr>id_budgets := m\<rparr> in
      if \<not> md_Allow decision then (d', replies 403 (BDenied decision))
      else
     (case SignAuthorizedBlind c (id_svc d)
             \<lparr>bm_Decision = decision, bm_Family = TokenPrivateIdentity, bm_Blinded = [target], bm_Now = now\<rparr> of
        Inl e \<Rightarrow> (d', replies 403 (BError (DService e)))
      | Inr sigs \<Rightarrow>
     (case FinalizeBlind c (is_epk (id_issuer d)) (sigs ! 0) state of
        Inl e \<Rightarrow> (d', replies 500 (BError (DProfile e)))
      | Inr authenticator \<Rightarrow>
          (put_session d' sid (s\<lparr>ss_Minted := True\<rparr>),
           replies 200 (BToken (b64url_encode (pt_Bytes \<lparr>pt_Input = input, pt_Authenticator = authenticator\<rparr>))
             (b64url_encode raw) (is_keyVersion (id_issuer d)))))))))))))"

section \<open>A running issuer\<close>

datatype issuerd_op =
    DCreate "string option" "bytes option" gotime
  | DGet string gotime
  | DSendCode string "string option" gotime "bytes option" bool
  | DVerifyCode string "verify_code_request option" gotime
  | DMint string "string option" gotime "bytes option"
  | DWebhook string "bytes option" gotime
  | DSmtp "bytes option" gotime
  | DInfo

fun issuerd_step ::
  "utables \<Rightarrow> 'ps crypto \<Rightarrow> (bytes \<Rightarrow> bytes \<Rightarrow> bytes) \<Rightarrow> mail_parser \<Rightarrow> issuerd \<Rightarrow> issuerd_op \<Rightarrow> issuerd \<times> issuerd_out" where
  "issuerd_step u c hmac P d (DCreate body rnd now) = handleCreateSession u d body rnd now"
| "issuerd_step u c hmac P d (DGet sid now) = (d, handleGetSession d sid now)"
| "issuerd_step u c hmac P d (DSendCode sid body now rnd relay) = handleSendCode u (sha256 c) d sid body now rnd relay"
| "issuerd_step u c hmac P d (DVerifyCode sid body now) = handleVerifyCode u (sha256 c) hmac d sid body now"
| "issuerd_step u c hmac P d (DMint sid body now rnd) = handleMint u c d sid body now rnd"
| "issuerd_step u c hmac P d (DWebhook secret body now) = handleWebhook u hmac P d secret body now"
| "issuerd_step u c hmac P d (DSmtp body now) = smtp_Data u hmac P d body now"
| "issuerd_step u c hmac P d DInfo = (d, issuerd_info d)"

section \<open>What an operation does to the session table\<close>

text \<open>A mail that proves control of a mailbox for a session.\<close>

definition mail_accepted :: "utables \<Rightarrow> issuerd_config \<Rightarrow> mail_parser \<Rightarrow> bytes \<Rightarrow> string \<Rightarrow> string \<Rightarrow> bool" where
  "mail_accepted u cfg P raw sid a \<longleftrightarrow>
     (\<exists>hdr from. mp_Header P raw = Some hdr \<and> sessionTagFromRecipients u cfg P hdr = Inr sid \<and> senderAddress P hdr = Inr from
        \<and> (ic_Dev cfg \<or> verifyAlignedDKIM u P raw from = Inr ()) \<and> CanonicalEmail u from = Inr a)"

fun mail_proves :: "utables \<Rightarrow> issuerd_config \<Rightarrow> mail_parser \<Rightarrow> issuerd_op \<Rightarrow> string \<Rightarrow> string \<Rightarrow> bool" where
  "mail_proves u cfg P (DWebhook secret (Some raw) now) sid a \<longleftrightarrow>
     (secret = ic_WebhookSecret cfg \<and> secret \<noteq> [] \<or> ic_Dev cfg) \<and> mail_accepted u cfg P (take maxMailBytes raw) sid a"
| "mail_proves u cfg P (DSmtp (Some raw) now) sid a \<longleftrightarrow> mail_accepted u cfg P (take maxMailBytes raw) sid a"
| "mail_proves u cfg P _ sid a \<longleftrightarrow> False"

definition code_proves :: "utables \<Rightarrow> 'ps crypto \<Rightarrow> issuerd \<Rightarrow> issuerd_op \<Rightarrow> string \<Rightarrow> string \<Rightarrow> bool" where
  "code_proves u c d i sid a \<longleftrightarrow>
     (\<exists>req now st s. i = DVerifyCode sid (Some req) now \<and> map_of (id_sessions d) sid = Some s
        \<and> Verify u (sha256 c) (id_codes d) (vc_Email req) (vc_Code req) (sessionBinding (sha256 c) (ss_ID s)) (unix_now now) = (st, Inr a))"

definition proves :: "utables \<Rightarrow> 'ps crypto \<Rightarrow> mail_parser \<Rightarrow> issuerd \<Rightarrow> issuerd_op \<Rightarrow> string \<Rightarrow> string \<Rightarrow> bool" where
  "proves u c P d i sid a \<longleftrightarrow> mail_proves u (id_cfg d) P i sid a \<or> code_proves u c d i sid a"

lemma getSession_Some: "getSession d sid now = Some s \<longleftrightarrow> map_of (id_sessions d) sid = Some s \<and> \<not> ss_ExpiresAt s < now"
  by (auto simp: getSession_def split: option.splits)

lemma markVerified_sessions:
  "id_sessions (fst (markVerified hmac d sid s a)) =
     (if ss_Status s = Pending
      then AList.update sid (s\<lparr>ss_Status := Verified, ss_Bucket := hex_encode (BucketID hmac (id_gateKey d) a)\<rparr>) (id_sessions d)
      else id_sessions d)"
  "snd (markVerified hmac d sid s a) \<longleftrightarrow> ss_Status s = Pending"
  by (simp_all add: markVerified_def put_session_def)

lemma case_outcome:
  "(case M of (d', True) \<Rightarrow> f d' | (d', False) \<Rightarrow> g d') = (if snd M then f (fst M) else g (fst M))"
  by (cases M) (auto split: bool.splits)

lemma handleIncomingMail_state:
  assumes "fst (handleIncomingMail u hmac P d raw now) \<noteq> d"
  shows "\<exists>sid s a. getSession d sid now = Some s \<and> mail_accepted u (id_cfg d) P raw sid a
    \<and> fst (handleIncomingMail u hmac P d raw now) = fst (markVerified hmac d sid s a)"
proof (cases "mp_Header P raw")
  case (Some hdr)
  note step = handleIncomingMail_def case_outcome canonicalOrErr_def
  obtain sid where sid: "sessionTagFromRecipients u (id_cfg d) P hdr = Inr sid"
    using assms Some by (cases "sessionTagFromRecipients u (id_cfg d) P hdr") (auto simp: step)
  obtain s where s: "getSession d sid now = Some s" "ss_Mode s = ''send''"
    using assms Some sid by (cases "getSession d sid now") (auto simp: step split: if_splits)
  obtain sender where sender: "senderAddress P hdr = Inr sender"
    using assms Some sid s by (cases "senderAddress P hdr") (auto simp: step)
  have ok: "ic_Dev (id_cfg d) \<or> verifyAlignedDKIM u P raw sender = Inr ()"
    using assms Some sid s sender by (cases "ic_Dev (id_cfg d)"; cases "verifyAlignedDKIM u P raw sender") (auto simp: step)
  obtain a where a: "CanonicalEmail u sender = Inr a"
    using assms Some sid s sender ok by (cases "CanonicalEmail u sender") (auto simp: step map_error_def)
  have "fst (handleIncomingMail u hmac P d raw now) = fst (markVerified hmac d sid s a)"
    using Some sid s sender ok a by (auto simp: step map_error_def)
  moreover have "mail_accepted u (id_cfg d) P raw sid a"
    using Some sid sender ok a by (auto simp: mail_accepted_def split: if_splits)
  ultimately show ?thesis using s by blast
qed (use assms in \<open>simp add: handleIncomingMail_def\<close>)

lemma handleIncomingMail_sessions:
  assumes "handleIncomingMail u hmac P d raw now = (d', e)" "id_sessions d' \<noteq> id_sessions d"
  obtains sid s a where "map_of (id_sessions d) sid = Some s" "ss_Status s = Pending" "mail_accepted u (id_cfg d) P raw sid a"
    "id_sessions d' = AList.update sid (s\<lparr>ss_Status := Verified, ss_Bucket := hex_encode (BucketID hmac (id_gateKey d) a)\<rparr>) (id_sessions d)"
proof -
  obtain sid s a where *: "getSession d sid now = Some s" "mail_accepted u (id_cfg d) P raw sid a"
    "d' = fst (markVerified hmac d sid s a)"
    using handleIncomingMail_state [of u hmac P d raw now] assms by fastforce
  then have "ss_Status s = Pending" using assms(2) by (auto simp: markVerified_sessions split: if_splits)
  then show thesis using that * by (auto simp: markVerified_sessions getSession_Some)
qed

text \<open>The five things that can happen to the table.\<close>

lemma issuerd_step_sessions:
  obtains (same) "id_sessions (fst (issuerd_step u c hmac P d i)) = id_sessions d"
  | (swept) now where "id_sessions (fst (issuerd_step u c hmac P d i)) = gcLocked (id_sessions d) now"
  | (fresh) tag sess body rnd now where "i = DCreate body rnd now"
      "id_sessions (fst (issuerd_step u c hmac P d i)) = AList.update tag sess (gcLocked (id_sessions d) now)"
      "length (gcLocked (id_sessions d) now) < maxSessions" "ss_ID sess = tag" "ss_Mode sess = ''send'' \<or> ss_Mode sess = ''code''"
      "ss_Status sess = Pending" "ss_Bucket sess = []" "\<not> ss_Minted sess"
      "\<exists>m e x. snd (issuerd_step u c hmac P d i) = replies 200 (BSession tag m e x)"
  | (verified) sid s a where "map_of (id_sessions d) sid = Some s" "ss_Status s = Pending" "proves u c P d i sid a"
      "id_sessions (fst (issuerd_step u c hmac P d i)) =
         AList.update sid (s\<lparr>ss_Status := Verified, ss_Bucket := hex_encode (BucketID hmac (id_gateKey d) a)\<rparr>) (id_sessions d)"
  | (minted) sid s where "map_of (id_sessions d) sid = Some s" "ss_Status s = Verified"
      "id_sessions (fst (issuerd_step u c hmac P d i)) = AList.update sid (s\<lparr>ss_Minted := True\<rparr>) (id_sessions d)"
proof (cases i)
  case (DCreate body rnd now)
  show ?thesis
  proof (cases "\<exists>tag req. body = Some req \<and> (req = [] \<or> req = ''send'' \<or> req = ''code'') \<and> randomTag u rnd = Inr tag
      \<and> length (gcLocked (id_sessions d) now) < maxSessions")
    case True
    then obtain tag req where *: "body = Some req" "req = [] \<or> req = ''send'' \<or> req = ''code''" "randomTag u rnd = Inr tag"
      "length (gcLocked (id_sessions d) now) < maxSessions" by blast
    show ?thesis
      by (rule fresh [OF DCreate, of tag "\<lparr>ss_ID = tag, ss_Mode = if req = [] then ''send'' else req, ss_Status = Pending, ss_Bucket = [],
            ss_CreatedAt = now, ss_ExpiresAt = now + ic_SessionTTL (id_cfg d), ss_Minted = False\<rparr>"])
        (use * DCreate in \<open>auto simp: handleCreateSession_def put_session_def Let_def\<close>)
  next
    case False
    then have "id_sessions (fst (issuerd_step u c hmac P d i)) = id_sessions d
      \<or> id_sessions (fst (issuerd_step u c hmac P d i)) = gcLocked (id_sessions d) now"
      using DCreate by (auto simp: handleCreateSession_def put_session_def Let_def not_le split: option.splits sum.splits)
    then show ?thesis using same swept by blast
  qed
next
  case (DVerifyCode sid body now)
  show ?thesis
  proof (cases "id_sessions (fst (issuerd_step u c hmac P d i)) = id_sessions d")
    case False
    obtain s req st a where *: "getSession d sid now = Some s" "body = Some req"
      "Verify u (sha256 c) (id_codes d) (vc_Email req) (vc_Code req) (sessionBinding (sha256 c) (ss_ID s)) (unix_now now) = (st, Inr a)"
      "id_sessions (fst (issuerd_step u c hmac P d i)) = id_sessions (fst (markVerified hmac (d\<lparr>id_codes := st\<rparr>) sid s a))"
      using False DVerifyCode
      by (auto simp: handleVerifyCode_def split: option.splits sum.splits prod.splits bool.splits)
    then have pend: "ss_Status s = Pending" using False by (auto simp: markVerified_sessions split: if_splits)
    have "proves u c P d i sid a" using * DVerifyCode by (auto simp: proves_def code_proves_def getSession_Some)
    then show ?thesis using verified [OF _ pend] * pend by (auto simp: markVerified_sessions getSession_Some)
  qed (rule same)
next
  case (DMint sid body now rnd)
  show ?thesis
  proof (cases "id_sessions (fst (issuerd_step u c hmac P d i)) = id_sessions d")
    case False
    have "\<exists>s. getSession d sid now = Some s \<and> ss_Status s = Verified
        \<and> id_sessions (fst (issuerd_step u c hmac P d i)) = AList.update sid (s\<lparr>ss_Minted := True\<rparr>) (id_sessions d)"
      using False DMint
      by (auto simp: handleMint_def put_session_def Let_def split: option.splits sum.splits prod.splits if_splits)
    then show ?thesis using minted by (auto simp: getSession_Some)
  qed (rule same)
next
  case (DWebhook secret body now)
  show ?thesis
  proof (cases "id_sessions (fst (issuerd_step u c hmac P d i)) = id_sessions d")
    case False
    then obtain raw d' e where raw: "body = Some raw" "handleIncomingMail u hmac P d (take maxMailBytes raw) now = (d', e)"
      "id_sessions d' = id_sessions (fst (issuerd_step u c hmac P d i))"
      and sec: "secret = ic_WebhookSecret (id_cfg d) \<and> secret \<noteq> [] \<or> ic_Dev (id_cfg d)"
      using DWebhook by (auto simp: handleWebhook_def split: option.splits prod.splits if_splits)
    obtain sid s a where "map_of (id_sessions d) sid = Some s" "ss_Status s = Pending"
      "mail_accepted u (id_cfg d) P (take maxMailBytes raw) sid a"
      "id_sessions d' = AList.update sid (s\<lparr>ss_Status := Verified, ss_Bucket := hex_encode (BucketID hmac (id_gateKey d) a)\<rparr>) (id_sessions d)"
      using handleIncomingMail_sessions [OF raw(2)] raw(3) False by metis
    then show ?thesis using verified raw(1,3) sec DWebhook by (auto simp: proves_def)
  qed (rule same)
next
  case (DSmtp body now)
  show ?thesis
  proof (cases "id_sessions (fst (issuerd_step u c hmac P d i)) = id_sessions d")
    case False
    then obtain raw d' e where raw: "body = Some raw" "handleIncomingMail u hmac P d (take maxMailBytes raw) now = (d', e)"
      "id_sessions d' = id_sessions (fst (issuerd_step u c hmac P d i))"
      using DSmtp by (auto simp: smtp_Data_def split: option.splits prod.splits)
    obtain sid s a where "map_of (id_sessions d) sid = Some s" "ss_Status s = Pending"
      "mail_accepted u (id_cfg d) P (take maxMailBytes raw) sid a"
      "id_sessions d' = AList.update sid (s\<lparr>ss_Status := Verified, ss_Bucket := hex_encode (BucketID hmac (id_gateKey d) a)\<rparr>) (id_sessions d)"
      using handleIncomingMail_sessions [OF raw(2)] raw(3) False by metis
    then show ?thesis using verified raw(1,3) DSmtp by (auto simp: proves_def)
  qed (rule same)
qed (rule same, auto simp: handleSendCode_def split: option.splits prod.splits sum.splits)+

section \<open>The session table\<close>

text \<open>Lookups stay lookups.\<close>

declare map_of_eq_Some_iff [simp del]

definition wf_session :: "string \<Rightarrow> session \<Rightarrow> bool" where
  "wf_session sid s \<longleftrightarrow> ss_ID s = sid \<and> (ss_Mode s = ''send'' \<or> ss_Mode s = ''code'')
     \<and> (ss_Status s = Pending \<longrightarrow> ss_Bucket s = [] \<and> \<not> ss_Minted s)"

definition issuerd_inv :: "issuerd \<Rightarrow> bool" where
  "issuerd_inv d \<longleftrightarrow> distinct (map fst (id_sessions d)) \<and> length (id_sessions d) \<le> maxSessions
     \<and> (\<forall>sid s. map_of (id_sessions d) sid = Some s \<longrightarrow> wf_session sid s)"

lemma length_update: "length (AList.update k v xs) = (if k \<in> fst ` set xs then length xs else Suc (length xs))"
  by (induction xs) auto

lemma map_of_filter_distinct:
  "distinct (map fst xs) \<Longrightarrow> map_of (filter (\<lambda>(k, v). Q v) xs) k =
     (case map_of xs k of None \<Rightarrow> None | Some v \<Rightarrow> if Q v then Some v else None)"
proof (induction xs)
  case (Cons x xs)
  have "map_of xs (fst x) = None" using Cons.prems by (simp add: map_of_eq_None_iff)
  then show ?case using Cons by (cases x) (auto split: option.splits)
qed simp

lemma map_of_gcLocked:
  "distinct (map fst ss) \<Longrightarrow> map_of (gcLocked ss now) sid = Some s \<longleftrightarrow> map_of ss sid = Some s \<and> \<not> now > ss_ExpiresAt s"
  unfolding gcLocked_def using map_of_filter_distinct [of ss "\<lambda>s. \<not> now > ss_ExpiresAt s" sid]
  by (auto split: option.splits)

lemma distinct_gcLocked: "distinct (map fst ss) \<Longrightarrow> distinct (map fst (gcLocked ss now))"
  by (simp add: gcLocked_def distinct_map_filter)

lemma length_gcLocked: "length (gcLocked ss now) \<le> length ss"
  by (simp add: gcLocked_def)

lemma issuerd_inv_step: "issuerd_inv d \<Longrightarrow> issuerd_inv (fst (issuerd_step u c hmac P d i))"
proof (cases rule: issuerd_step_sessions [of u c hmac P d i])
  case (swept now)
  assume "issuerd_inv d"
  then show ?thesis using swept length_gcLocked [of "id_sessions d" now]
    by (auto simp: issuerd_inv_def distinct_gcLocked map_of_gcLocked)
next
  case (fresh tag sess body rnd now)
  assume "issuerd_inv d"
  then show ?thesis using fresh
    by (auto simp: issuerd_inv_def update_conv' length_update map_of_gcLocked wf_session_def
        intro!: distinct_update distinct_gcLocked)
next
  case (verified sid s a)
  assume inv: "issuerd_inv d"
  have "sid \<in> fst ` set (id_sessions d)" using verified(1) by (force dest: map_of_SomeD)
  then show ?thesis using verified inv by (auto simp: issuerd_inv_def update_conv' length_update wf_session_def intro!: distinct_update)
next
  case (minted sid s)
  assume inv: "issuerd_inv d"
  have "sid \<in> fst ` set (id_sessions d)" using minted(1) by (force dest: map_of_SomeD)
  then show ?thesis using minted inv by (auto simp: issuerd_inv_def update_conv' length_update wf_session_def intro!: distinct_update)
qed (simp add: issuerd_inv_def)

interpretation issuerd: io_machine "issuerd_step u c hmac P" issuerd_inv for u c hmac P
  by unfold_locales (rule issuerd_inv_step)

lemma newServer_Inr:
  assumes "newServer c json builtin w cfg rnd fresh rnd_gate = Inr (w', d)"
  shows "id_cfg d = cfg" "id_sessions d = []" "id_codes d = NewChallengeStore 600" "id_budgets d = NewMemoryBudgetStore"
    "\<exists>seed. NewIssuer c fresh issuerKeyVersion seed = Inr (id_issuer d)" "sv_blind (id_svc d) = Some (id_issuer d)"
    "\<exists>src. Compile src = Inr (id_policy d)"
  using assms
  by (auto simp: newServer_def result_simps CompileJSON_def service_NewIssuer_def split: prod.splits if_splits option.splits)

lemma issuerd_inv_start: "newServer c json builtin w cfg rnd fresh rnd_gate = Inr (w', d) \<Longrightarrow> issuerd_inv d"
  using newServer_Inr [of c json builtin w cfg rnd fresh rnd_gate w' d] by (simp add: issuerd_inv_def)

text \<open>
  C22: The session table of the mailbox-gated issuer stays sound. After any sequence of requests and mails to a server that
  has just started: the table holds at most 4096 sessions under distinct tags, every session knows its own tag and is in mode
  \<^verbatim>\<open>send\<close> or \<^verbatim>\<open>code\<close>, and a session without a proved mailbox has no bucket and has minted nothing.
\<close>

theorem issuerd_table_sound:
  assumes "newServer c json builtin w cfg rnd fresh rnd_gate = Inr (w', d)"
  shows "issuerd_inv (run_state (issuerd_step u c hmac P) d ops)"
  by (rule issuerd.invar_run) (rule issuerd_inv_start [OF assms])

text \<open>
  C23: A session is bound to one mailbox. Once a session is verified, no sequence of further requests and mails changes its
  bucket, its mode or its lifetime, or makes it unverified again: it stays as it is until it is swept out of the table, and after
  that its tag only comes back if the server hands out that same random tag again for a new session.
\<close>

theorem session_binding_final:
  assumes "issuerd_inv d" and "map_of (id_sessions d) sid = Some s" and "ss_Status s = Verified"
    and "\<forall>(i, out) \<in> set (run_trace (issuerd_step u c hmac P) d ops). \<forall>m e x. out \<noteq> replies 200 (BSession sid m e x)"
  shows "case map_of (id_sessions (run_state (issuerd_step u c hmac P) d ops)) sid of None \<Rightarrow> True
    | Some s' \<Rightarrow> \<exists>minted. s' = s\<lparr>ss_Minted := minted\<rparr>"
proof (rule issuerd.run_stable [where R = "\<lambda>i out. \<exists>m e x. out = replies 200 (BSession sid m e x)"])
  let ?Q = "\<lambda>d. case map_of (id_sessions d) sid of None \<Rightarrow> True | Some s' \<Rightarrow> \<exists>minted. s' = s\<lparr>ss_Minted := minted\<rparr>"
  fix d i
  assume inv: "issuerd_inv d" and Q: "?Q d" and new: "\<nexists>m e x. snd (issuerd_step u c hmac P d i) = replies 200 (BSession sid m e x)"
  show "?Q (fst (issuerd_step u c hmac P d i))"
  proof (cases rule: issuerd_step_sessions [of u c hmac P d i])
    case (swept now)
    then show ?thesis using inv Q map_of_gcLocked [of "id_sessions d" now sid] by (auto simp: issuerd_inv_def split: option.splits)
  next
    case (fresh tag sess body rnd now)
    then have "tag \<noteq> sid" using new by auto
    then show ?thesis using fresh inv Q map_of_gcLocked [of "id_sessions d" now sid]
      by (auto simp: issuerd_inv_def update_conv' split: option.splits)
  next
    case (verified sid' s' a)
    have "sid' \<noteq> sid" using verified(1,2) Q assms(3) by (auto split: option.splits)
    then show ?thesis using verified Q by (simp add: update_conv')
  next
    case (minted sid' s')
    then show ?thesis using Q by (cases "sid = sid'") (auto simp: update_conv' intro!: exI [of _ True])
  qed (use Q in simp)
next
  show "issuerd_inv d" by (rule assms(1))
  show "case map_of (id_sessions d) sid of None \<Rightarrow> True | Some s' \<Rightarrow> \<exists>minted. s' = s\<lparr>ss_Minted := minted\<rparr>"
    using assms(2) by (auto intro!: exI [of _ "ss_Minted s"])
  show "\<forall>(i, out) \<in> set (run_trace (issuerd_step u c hmac P) d ops). \<not> (\<exists>m e x. out = replies 200 (BSession sid m e x))"
    using assms(4) by auto
qed

section \<open>Where a verified session comes from\<close>

fun issuerd_acts :: "'ps crypto \<Rightarrow> issuerd \<Rightarrow> issuerd_op \<Rightarrow> mbx_op option" where
  "issuerd_acts c d (DSendCode sid body now rnd relay) =
     (case (getSession d sid now, body) of
        (Some s, Some email) \<Rightarrow>
          if ss_Mode s = ''code'' then Some (MCreate email (sessionBinding (sha256 c) (ss_ID s)) (unix_now now) rnd) else None
      | _ \<Rightarrow> None)"
| "issuerd_acts c d (DVerifyCode sid body now) =
     (case (getSession d sid now, body) of
        (Some s, Some req) \<Rightarrow> Some (MVerify (vc_Email req) (vc_Code req) (sessionBinding (sha256 c) (ss_ID s)) (unix_now now))
      | _ \<Rightarrow> None)"
| "issuerd_acts c d _ = None"

lemma put_session_fields [simp]:
  "id_codes (put_session d sid s) = id_codes d" "id_budgets (put_session d sid s) = id_budgets d"
  "id_cfg (put_session d sid s) = id_cfg d" "id_gateKey (put_session d sid s) = id_gateKey d"
  "id_issuer (put_session d sid s) = id_issuer d" "id_svc (put_session d sid s) = id_svc d"
  "id_policy (put_session d sid s) = id_policy d"
  by (simp_all add: put_session_def)

lemma markVerified_fields [simp]:
  "id_codes (fst (markVerified hmac d sid s a)) = id_codes d" "id_budgets (fst (markVerified hmac d sid s a)) = id_budgets d"
  "id_cfg (fst (markVerified hmac d sid s a)) = id_cfg d" "id_gateKey (fst (markVerified hmac d sid s a)) = id_gateKey d"
  "id_issuer (fst (markVerified hmac d sid s a)) = id_issuer d" "id_svc (fst (markVerified hmac d sid s a)) = id_svc d"
  "id_policy (fst (markVerified hmac d sid s a)) = id_policy d"
  by (simp_all add: markVerified_def)

text \<open>What the mail handlers, the session handler and the code handlers keep.\<close>

lemma mail_fields:
  assumes "handleIncomingMail u hmac P d raw now = (d', e)"
  shows "id_codes d' = id_codes d" "id_budgets d' = id_budgets d" "id_cfg d' = id_cfg d" "id_gateKey d' = id_gateKey d"
    "id_issuer d' = id_issuer d" "id_svc d' = id_svc d" "id_policy d' = id_policy d"
  using handleIncomingMail_state [of u hmac P d raw now] assms by (cases "d' = d"; auto)+

lemma session_fields:
  "id_codes (fst (handleCreateSession u d body rnd now)) = id_codes d" "id_budgets (fst (handleCreateSession u d body rnd now)) = id_budgets d"
  "id_cfg (fst (handleCreateSession u d body rnd now)) = id_cfg d" "id_gateKey (fst (handleCreateSession u d body rnd now)) = id_gateKey d"
  "id_issuer (fst (handleCreateSession u d body rnd now)) = id_issuer d" "id_svc (fst (handleCreateSession u d body rnd now)) = id_svc d"
  "id_policy (fst (handleCreateSession u d body rnd now)) = id_policy d"
  by (simp_all add: handleCreateSession_def Let_def split: option.splits sum.splits)

lemma send_fields:
  "id_budgets (fst (handleSendCode u h d sid body now rnd relay)) = id_budgets d"
  "id_cfg (fst (handleSendCode u h d sid body now rnd relay)) = id_cfg d" "id_gateKey (fst (handleSendCode u h d sid body now rnd relay)) = id_gateKey d"
  "id_issuer (fst (handleSendCode u h d sid body now rnd relay)) = id_issuer d" "id_svc (fst (handleSendCode u h d sid body now rnd relay)) = id_svc d"
  "id_policy (fst (handleSendCode u h d sid body now rnd relay)) = id_policy d"
  by (simp_all add: handleSendCode_def split: option.splits sum.splits prod.splits)

lemma verify_code_fields:
  "id_budgets (fst (handleVerifyCode u h hmac d sid body now)) = id_budgets d"
  "id_cfg (fst (handleVerifyCode u h hmac d sid body now)) = id_cfg d" "id_gateKey (fst (handleVerifyCode u h hmac d sid body now)) = id_gateKey d"
  "id_issuer (fst (handleVerifyCode u h hmac d sid body now)) = id_issuer d" "id_svc (fst (handleVerifyCode u h hmac d sid body now)) = id_svc d"
  "id_policy (fst (handleVerifyCode u h hmac d sid body now)) = id_policy d"
  by (simp_all add: handleVerifyCode_def case_outcome split: option.splits sum.splits prod.splits)

lemma mint_fields:
  "id_codes (fst (handleMint u c d sid body now rnd)) = id_codes d"
  "id_cfg (fst (handleMint u c d sid body now rnd)) = id_cfg d" "id_gateKey (fst (handleMint u c d sid body now rnd)) = id_gateKey d"
  "id_issuer (fst (handleMint u c d sid body now rnd)) = id_issuer d" "id_svc (fst (handleMint u c d sid body now rnd)) = id_svc d"
  "id_policy (fst (handleMint u c d sid body now rnd)) = id_policy d"
  by (simp_all add: handleMint_def Let_def split: option.splits sum.splits prod.splits)

lemma webhook_smtp_fields:
  "f (fst (handleWebhook u hmac P d secret body now)) = f d" "f (fst (smtp_Data u hmac P d body now)) = f d"
  if "\<And>raw d' e. handleIncomingMail u hmac P d raw now = (d', e) \<Longrightarrow> f d' = f d"
  using that by (auto simp: handleWebhook_def smtp_Data_def split: option.splits prod.splits)

text \<open>The configuration, the keys and the policy never change.\<close>

lemma issuerd_step_static:
  "id_cfg (fst (issuerd_step u c hmac P d i)) = id_cfg d" "id_gateKey (fst (issuerd_step u c hmac P d i)) = id_gateKey d"
  "id_issuer (fst (issuerd_step u c hmac P d i)) = id_issuer d" "id_svc (fst (issuerd_step u c hmac P d i)) = id_svc d"
  "id_policy (fst (issuerd_step u c hmac P d i)) = id_policy d"
  by (cases i; simp add: session_fields send_fields verify_code_fields mint_fields webhook_smtp_fields mail_fields)+

lemma issuerd_run_static:
  "id_cfg (run_state (issuerd_step u c hmac P) d ops) = id_cfg d" "id_gateKey (run_state (issuerd_step u c hmac P) d ops) = id_gateKey d"
  "id_issuer (run_state (issuerd_step u c hmac P) d ops) = id_issuer d" "id_svc (run_state (issuerd_step u c hmac P) d ops) = id_svc d"
  "id_policy (run_state (issuerd_step u c hmac P) d ops) = id_policy d"
  by (induction ops arbitrary: d) (simp_all add: issuerd_step_static)

lemma issuerd_step_codes:
  "id_codes (fst (issuerd_step u c hmac P d i)) =
     (case issuerd_acts c d i of None \<Rightarrow> id_codes d | Some j \<Rightarrow> fst (mbx_step u (sha256 c) (id_codes d) j))"
proof (cases i)
  case (DSendCode sid body now rnd relay)
  then show ?thesis by (auto simp: handleSendCode_def split: option.splits prod.splits sum.splits)
next
  case (DVerifyCode sid body now)
  then show ?thesis by (auto simp: handleVerifyCode_def case_outcome split: option.splits prod.splits sum.splits)
qed (simp_all add: session_fields mint_fields webhook_smtp_fields mail_fields)

interpretation issuerd_client: challenge_client "issuerd_step u c hmac P" id_codes "issuerd_acts c" u "sha256 c" for u c hmac P
  by unfold_locales (rule issuerd_step_codes)

text \<open>
  \<open>code_sent \<dots> d ops sid a hc e\<close>: some request in \<open>ops\<close>, for a session with the code binding of \<open>sid\<close>, had a code with
  hash \<open>hc\<close>, valid up to \<open>e\<close>, sent to an address of the mailbox \<open>a\<close>.
\<close>

definition code_sent ::
  "utables \<Rightarrow> 'ps crypto \<Rightarrow> (bytes \<Rightarrow> bytes \<Rightarrow> bytes) \<Rightarrow> mail_parser \<Rightarrow> issuerd \<Rightarrow> issuerd_op list \<Rightarrow>
   string \<Rightarrow> string \<Rightarrow> bytes \<Rightarrow> u64 \<Rightarrow> bool" where
  "code_sent u c hmac P d ops sid a hc e \<longleftrightarrow>
     (\<exists>pre sid' email now rnd relay code mid. ops = pre @ DSendCode sid' (Some email) now rnd relay # mid
        \<and> sessionBinding (sha256 c) sid' = sessionBinding (sha256 c) sid \<and> CanonicalEmail u email = Inr a
        \<and> snd (snd (issuerd_step u c hmac P (run_state (issuerd_step u c hmac P) d pre) (DSendCode sid' (Some email) now rnd relay)))
            = snd (defaultSendCode (id_cfg d) email code relay)
        \<and> hc = hashCode (sha256 c) code \<and> e = unix_now now + 600)"

text \<open>
  Control of the mailbox \<open>a\<close> was proved for the session \<open>sid\<close>: by an accepted mail, or by presenting an unexpired code that had been
  sent to it; and the tag was not handed out again since.
\<close>

definition control_proved ::
  "utables \<Rightarrow> 'ps crypto \<Rightarrow> (bytes \<Rightarrow> bytes \<Rightarrow> bytes) \<Rightarrow> mail_parser \<Rightarrow> issuerd \<Rightarrow> issuerd_op list \<Rightarrow> string \<Rightarrow> string \<Rightarrow> bool" where
  "control_proved u c hmac P d ops sid a \<longleftrightarrow>
     (\<exists>pre i post. ops = pre @ i # post
        \<and> (mail_proves u (id_cfg d) P i sid a
           \<or> (\<exists>req now e. i = DVerifyCode sid (Some req) now \<and> unix_now now < e
                \<and> code_sent u c hmac P d pre sid a (hashCode (sha256 c) (trim_space (vc_Code req))) e))
        \<and> (\<forall>(j, out) \<in> set (run_trace (issuerd_step u c hmac P) (run_state (issuerd_step u c hmac P) d (pre @ [i])) post).
             \<forall>m e x. out \<noteq> replies 200 (BSession sid m e x)))"

lemma control_proved_snoc:
  assumes "control_proved u c hmac P d ops sid a"
    and "\<nexists>m e x. snd (issuerd_step u c hmac P (run_state (issuerd_step u c hmac P) d ops) i) = replies 200 (BSession sid m e x)"
  shows "control_proved u c hmac P d (ops @ [i]) sid a"
proof -
  obtain pre j post where *: "ops = pre @ j # post"
    "mail_proves u (id_cfg d) P j sid a \<or> (\<exists>req now e. j = DVerifyCode sid (Some req) now \<and> unix_now now < e
       \<and> code_sent u c hmac P d pre sid a (hashCode (sha256 c) (trim_space (vc_Code req))) e)"
    "\<forall>(j, out) \<in> set (run_trace (issuerd_step u c hmac P) (run_state (issuerd_step u c hmac P) d (pre @ [j])) post).
             \<forall>m e x. out \<noteq> replies 200 (BSession sid m e x)"
    using assms(1) unfolding control_proved_def by blast
  show ?thesis unfolding control_proved_def
    by (intro exI [of _ pre] exI [of _ j] exI [of _ "post @ [i]"] conjI) (use * assms(2) in auto)
qed

lemma opened_sent:
  assumes "challenge_client.opened (issuerd_step u c hmac P) id_codes (issuerd_acts c) u (sha256 c) d ops a p"
    and "issuerd_inv d" "cs_ttl (id_codes d) = 600" "p_binding p = sessionBinding (sha256 c) sid"
  shows "code_sent u c hmac P d ops sid a (p_codeHash p) (p_exp p)"
proof -
  let ?step = "issuerd_step u c hmac P"
  obtain pre i mid email t rnd code where *: "ops = pre @ i # mid"
    "issuerd_acts c (run_state ?step d pre) i = Some (MCreate email (p_binding p) t rnd)" "CanonicalEmail u email = Inr a"
    "snd (Create u (sha256 c) (id_codes (run_state ?step d pre)) email (p_binding p) t rnd) = Inr code"
    "p_codeHash p = hashCode (sha256 c) code" "p_exp p = t + cs_ttl (id_codes d)"
    using assms(1) unfolding issuerd_client.opened_def by blast
  let ?d = "run_state ?step d pre"
  obtain sid' now relay s where i: "i = DSendCode sid' (Some email) now rnd relay" "getSession ?d sid' now = Some s"
    "ss_Mode s = ''code''" "p_binding p = sessionBinding (sha256 c) (ss_ID s)" "t = unix_now now"
    using *(2) by (cases i) (auto split: option.splits if_splits)
  have "ss_ID s = sid'" using i(2) issuerd.invar_run [OF assms(2), of u c hmac P pre]
    by (auto simp: getSession_Some issuerd_inv_def wf_session_def)
  moreover have "snd (snd (?step ?d i)) = snd (defaultSendCode (id_cfg d) email code relay)"
    using i *(4) by (auto simp: handleSendCode_def issuerd_run_static split: prod.splits)
  ultimately show ?thesis unfolding code_sent_def
    by (intro exI [of _ pre] exI [of _ sid'] exI [of _ email] exI [of _ now] exI [of _ rnd] exI [of _ relay] exI [of _ code] exI [of _ mid])
      (use * i assms in simp)
qed

lemma proves_control:
  assumes "newServer c json builtin w cfg rnd fresh rnd_gate = Inr (w', d)"
    and "proves u c P (run_state (issuerd_step u c hmac P) d ops) i sid a"
  shows "control_proved u c hmac P d (ops @ [i]) sid a"
proof -
  let ?step = "issuerd_step u c hmac P"
  let ?d = "run_state ?step d ops"
  have st0: "id_codes d = NewChallengeStore 600" using newServer_Inr [OF assms(1)] by simp
  have "mail_proves u (id_cfg d) P i sid a \<or> (\<exists>req now e. i = DVerifyCode sid (Some req) now \<and> unix_now now < e
      \<and> code_sent u c hmac P d ops sid a (hashCode (sha256 c) (trim_space (vc_Code req))) e)"
  proof (cases "mail_proves u (id_cfg ?d) P i sid a")
    case False
    then obtain req now st s where i: "i = DVerifyCode sid (Some req) now" "map_of (id_sessions ?d) sid = Some s"
      "Verify u (sha256 c) (id_codes ?d) (vc_Email req) (vc_Code req) (sessionBinding (sha256 c) (ss_ID s)) (unix_now now) = (st, Inr a)"
      using assms(2) by (auto simp: proves_def code_proves_def)
    have id: "ss_ID s = sid" using i(2) issuerd.invar_run [OF issuerd_inv_start [OF assms(1)], of u c hmac P ops]
      by (auto simp: issuerd_inv_def wf_session_def)
    obtain p where op: "challenge_client.opened ?step id_codes (issuerd_acts c) u (sha256 c) d ops a p"
      and p: "p_binding p = sessionBinding (sha256 c) (ss_ID s)" "p_codeHash p = hashCode (sha256 c) (trim_space (vc_Code req))"
        "unix_now now < p_exp p"
      using issuerd_client.accepted_opened [OF st0 i(3)] by (elim exE conjE) (rule that)
    have "code_sent u c hmac P d ops sid a (p_codeHash p) (p_exp p)"
      by (rule opened_sent [OF op issuerd_inv_start [OF assms(1)]]) (use st0 p id in \<open>simp_all add: NewChallengeStore_def\<close>)
    then show ?thesis using i(1) p by auto
  qed (simp add: issuerd_run_static)
  then show ?thesis unfolding control_proved_def
    by (intro exI [of _ ops] exI [of _ i] exI [of _ "[]"]) simp
qed

lemma reissued_pending:
  assumes "snd (issuerd_step u c hmac P d i) = replies 200 (BSession sid m e x)"
  shows "\<exists>s. map_of (id_sessions (fst (issuerd_step u c hmac P d i))) sid = Some s \<and> ss_Status s = Pending"
proof (cases i)
  case (DCreate body rnd now)
  then show ?thesis using assms
    by (auto simp: handleCreateSession_def put_session_def replies_def Let_def update_conv' split: option.splits sum.splits if_splits)
next
  case (DMint sid' body now rnd)
  then show ?thesis using assms
    by (auto simp: handleMint_def replies_def Let_def split: option.splits sum.splits prod.splits if_splits)
qed (use assms in \<open>auto simp: handleGetSession_def handleSendCode_def handleVerifyCode_def handleWebhook_def smtp_Data_def
      issuerd_info_def replies_def split: option.splits sum.splits prod.splits if_splits bool.splits\<close>)

lemma verified_control:
  assumes "newServer c json builtin w cfg rnd fresh rnd_gate = Inr (w', d)"
    and "map_of (id_sessions (run_state (issuerd_step u c hmac P) d ops)) sid = Some s" "ss_Status s = Verified"
  shows "\<exists>a. ss_Bucket s = hex_encode (BucketID hmac (id_gateKey d) a) \<and> control_proved u c hmac P d ops sid a"
  using assms(2,3)
proof (induction ops arbitrary: s rule: rev_induct)
  case Nil
  then show ?case using newServer_Inr [OF assms(1)] by simp
next
  case (snoc i ops)
  let ?step = "issuerd_step u c hmac P"
  let ?d = "run_state ?step d ops"
  have dist: "distinct (map fst (id_sessions ?d))"
    using issuerd.invar_run [OF issuerd_inv_start [OF assms(1)], of u c hmac P ops] by (simp add: issuerd_inv_def)
  have old: ?case if "map_of (id_sessions ?d) sid = Some s'" "ss_Status s' = Verified" "ss_Bucket s' = ss_Bucket s"
      "\<nexists>m e x. snd (?step ?d i) = replies 200 (BSession sid m e x)" for s'
    using snoc.IH [OF that(1,2)] that(3,4) control_proved_snoc [of u c hmac P d ops sid _ i] by auto
  have silent: "\<nexists>m e x. snd (?step ?d i) = replies 200 (BSession sid m e x)"
    using snoc.prems reissued_pending [of u c hmac P ?d i sid] by fastforce
  note old = old [OF _ _ _ silent]
  show ?case
  proof (cases rule: issuerd_step_sessions [of u c hmac P ?d i])
    case same
    then show ?thesis using snoc.prems old [of s] by simp
  next
    case (swept now)
    then show ?thesis using snoc.prems old [of s] map_of_gcLocked [OF dist] by simp
  next
    case (fresh tag sess body rnd now)
    then have "tag \<noteq> sid" using silent by auto
    then show ?thesis using fresh snoc.prems old [of s] map_of_gcLocked [OF dist] by (simp add: update_conv')
  next
    case (verified sid' s' a)
    show ?thesis
    proof (cases "sid' = sid")
      case True
      then have "ss_Bucket s = hex_encode (BucketID hmac (id_gateKey d) a)"
        using verified(4) snoc.prems by (auto simp: update_conv' issuerd_run_static)
      then show ?thesis using proves_control [OF assms(1) verified(3)] True by blast
    qed (use verified snoc.prems old [of s] in \<open>simp add: update_conv'\<close>)
  next
    case (minted sid' s')
    then show ?thesis using snoc.prems old [of s] old [of s'] by (cases "sid' = sid") (auto simp: update_conv')
  qed
qed

section \<open>Minting\<close>

fun token_reply :: "issuerd_out \<Rightarrow> string option" where
  "token_reply ((st, BToken tok pub kv), mail) = Some tok"
| "token_reply _ = None"

lemma handleMint_token:
  assumes "token_reply (snd (handleMint u c d sid body now rnd)) = Some tok"
  obtains s hp raw r target state m decision sigs auth where
    "getSession d sid now = Some s" "ss_Status s = Verified" "body = Some hp" "b64url_decode hp = Some raw" "length raw = 32" "rnd = Some r"
    "PrepareBlind c (pi_Bytes (NewPrivateIdentityInput (is_keyVersion (id_issuer d)) (is_tokenKeyID (id_issuer d)) HolderAlgEd25519 raw)) r
       = (target, state)"
    "AuthorizeMint u (Some (id_policy d)) (session_mint_request c d (ss_Bucket s) target) (Some Reserve) (id_budgets d) now = (m, decision)"
    "md_Allow decision"
    "SignAuthorizedBlind c (id_svc d)
       \<lparr>bm_Decision = decision, bm_Family = TokenPrivateIdentity, bm_Blinded = [target], bm_Now = now\<rparr> = Inr sigs"
    "FinalizeBlind c (is_epk (id_issuer d)) (sigs ! 0) state = Inr auth"
    "tok = b64url_encode (pt_Bytes \<lparr>pt_Input = NewPrivateIdentityInput (is_keyVersion (id_issuer d)) (is_tokenKeyID (id_issuer d))
       HolderAlgEd25519 raw, pt_Authenticator = auth\<rparr>)"
    "id_budgets (fst (handleMint u c d sid body now rnd)) = m"
proof -
  note step = handleMint_def replies_def Let_def
  obtain s where s: "getSession d sid now = Some s" "ss_Status s = Verified"
    using assms by (auto simp: step split: option.splits if_splits)
  obtain hp raw where hp: "body = Some hp" "hp \<noteq> []" "b64url_decode hp = Some raw" "length raw = 32"
    using assms s by (auto simp: step split: option.splits if_splits)
  obtain r where r: "rnd = Some r" using assms s hp by (auto simp: step split: option.splits)
  let ?input = "NewPrivateIdentityInput (is_keyVersion (id_issuer d)) (is_tokenKeyID (id_issuer d)) HolderAlgEd25519 raw"
  obtain target state where pb: "PrepareBlind c (pi_Bytes ?input) r = (target, state)" by fastforce
  obtain m decision where am: "AuthorizeMint u (Some (id_policy d)) (session_mint_request c d (ss_Bucket s) target) (Some Reserve) (id_budgets d) now
      = (m, decision)" by fastforce
  have ok: "md_Allow decision" using assms s hp r pb am by (auto simp: step split: if_splits)
  obtain sigs where sg: "SignAuthorizedBlind c (id_svc d)
       \<lparr>bm_Decision = decision, bm_Family = TokenPrivateIdentity, bm_Blinded = [target], bm_Now = now\<rparr> = Inr sigs"
    using assms s hp r pb am ok by (auto simp: step split: sum.splits)
  obtain auth where fb: "FinalizeBlind c (is_epk (id_issuer d)) (sigs ! 0) state = Inr auth"
    using assms s hp r pb am ok sg by (auto simp: step split: sum.splits)
  show thesis
    by (rule that [OF s hp(1,3,4) r pb am ok sg fb]) (use assms s hp r pb am ok sg fb in \<open>auto simp: step\<close>)
qed

lemma token_only_minted:
  "token_reply (snd (issuerd_step u c hmac P d i)) = Some tok \<Longrightarrow> \<exists>sid body now rnd. i = DMint sid body now rnd"
  by (cases i) (auto simp: handleCreateSession_def handleGetSession_def handleSendCode_def handleVerifyCode_def handleWebhook_def smtp_Data_def
      issuerd_info_def replies_def Let_def case_outcome split: option.splits sum.splits prod.splits if_splits)


text \<open>
  C21: What the mailbox-gated issuer hands out is a valid token. Given correct blind signatures, every token it answers decodes and
  parses, is bound to the holder key of the request, and is accepted by the verifier under the issuer's key.
\<close>

theorem issuerd_token_valid:
  assumes "blind_correct c" and "\<And>x. length (sha256 c x) = 32" and "newServer c json builtin w cfg rnd fresh rnd_gate = Inr (w', d)"
    and "length r = 32"
    and "token_reply (snd (issuerd_step u c hmac P (run_state (issuerd_step u c hmac P) d ops) (DMint sid (Some hp) now (Some r)))) = Some tok"
  shows "\<exists>bs t. b64url_decode tok = Some bs \<and> ParsePrivateIdentityToken bs = Inr t
    \<and> VerifyPrivateIdentityToken c (id_issuer d) t = Inr ()
    \<and> pi_HolderAlg (pt_Input t) = HolderAlgEd25519 \<and> b64url_decode hp = Some (pi_HolderPub (pt_Input t))"
proof -
  let ?d = "run_state (issuerd_step u c hmac P) d ops"
  obtain seed where iss: "NewIssuer c fresh issuerKeyVersion seed = Inr (id_issuer d)" and blind: "sv_blind (id_svc d) = Some (id_issuer d)"
    using newServer_Inr [OF assms(3)] by blast
  obtain raw target state decision sigs auth where *: "b64url_decode hp = Some raw" "length raw = 32"
    "PrepareBlind c (pi_Bytes (NewPrivateIdentityInput (is_keyVersion (id_issuer d)) (is_tokenKeyID (id_issuer d)) HolderAlgEd25519 raw)) r
       = (target, state)"
    "SignAuthorizedBlind c (id_svc d)
       \<lparr>bm_Decision = decision, bm_Family = TokenPrivateIdentity, bm_Blinded = [target], bm_Now = now\<rparr> = Inr sigs"
    "FinalizeBlind c (is_epk (id_issuer d)) (sigs ! 0) state = Inr auth"
    "tok = b64url_encode (pt_Bytes \<lparr>pt_Input = NewPrivateIdentityInput (is_keyVersion (id_issuer d)) (is_tokenKeyID (id_issuer d))
       HolderAlgEd25519 raw, pt_Authenticator = auth\<rparr>)"
    using assms(5) handleMint_token [of u c ?d sid "Some hp" now "Some r" tok] unfolding issuerd_run_static by (simp, metis option.inject)
  let ?input = "NewPrivateIdentityInput (is_keyVersion (id_issuer d)) (is_tokenKeyID (id_issuer d)) HolderAlgEd25519 raw"
  let ?t = "\<lparr>pt_Input = ?input, pt_Authenticator = auth\<rparr>"
  have bs: "BlindSign c (id_issuer d) [target] = Inr sigs" using *(4) blind by (auto simp: SignAuthorizedBlind_Inr)
  then obtain sig where sig: "sigs = [sig]" using BlindSign_length [OF bs] by (cases sigs) auto
  have auth: "VerifyMessage c (id_issuer d) (pi_Bytes ?input) auth = Inr ()" "authenticatorRandomLength < length auth"
    using minted_authenticator [OF assms(1) iss _ *(3)] bs sig *(5) assms(4) by (auto simp: authenticatorRandomLength_def)
  have id: "length (is_tokenKeyID (id_issuer d)) = 32" using NewIssuer_Inr [OF iss] assms(2) by simp
  then have "wf_private_identity ?t" using *(2) auth(2) by (simp add: wf_private_identity_def NewPrivateIdentityInput_def holderPubLen_def)
  then have "ParsePrivateIdentityToken (pt_Bytes ?t) = Inr ?t" using parse_pi_exact by blast
  moreover have "VerifyPrivateIdentityToken c (id_issuer d) ?t = Inr ()"
    using auth by (simp add: VerifyPrivateIdentityToken_def NewPrivateIdentityInput_def)
  ultimately show ?thesis using *(1,6) by (auto simp: NewPrivateIdentityInput_def)
qed

section \<open>The budget of a mailbox\<close>

text \<open>The server with the bucket a mint request is charged to made visible.\<close>

fun charged_bucket :: "issuerd \<Rightarrow> issuerd_op \<Rightarrow> string option" where
  "charged_bucket d (DMint sid body now rnd) = map_option ss_Bucket (getSession d sid now)"
| "charged_bucket d _ = None"

definition observed_step ::
  "utables \<Rightarrow> 'ps crypto \<Rightarrow> (bytes \<Rightarrow> bytes \<Rightarrow> bytes) \<Rightarrow> mail_parser \<Rightarrow> issuerd \<Rightarrow> issuerd_op \<Rightarrow> issuerd \<times> string option \<times> issuerd_out" where
  "observed_step u c hmac P d i = (fst (issuerd_step u c hmac P d i), charged_bucket d i, snd (issuerd_step u c hmac P d i))"

fun mint_clock :: "issuerd_op \<Rightarrow> gotime" where
  "mint_clock (DMint sid body now rnd) = now"
| "mint_clock _ = 0"

definition minted_for :: "string \<Rightarrow> budget_rule \<Rightarrow> int \<Rightarrow> issuerd_op \<Rightarrow> string option \<times> issuerd_out \<Rightarrow> bool" where
  "minted_for bucket rule e i out \<longleftrightarrow> token_reply (snd out) \<noteq> None \<and> fst out = Some bucket
     \<and> unix (mint_clock i) div br_WindowSeconds rule = e"

definition budget_of :: "policy \<Rightarrow> string \<Rightarrow> budget_rule \<Rightarrow> bool" where
  "budget_of p grp rule \<longleftrightarrow> (\<exists>tok. po_tokens p TokenPrivateIdentity = Some tok \<and> ct_budgetGroup tok = grp) \<and> po_budgets p grp = Some rule"

definition charging_inv :: "policy \<Rightarrow> issuerd \<Rightarrow> bool" where
  "charging_inv p d \<longleftrightarrow> budget_inv (id_budgets d) \<and> id_policy d = p \<and> wf_policy p \<and> small_budgets p"

lemma session_mint_charge:
  assumes "charging_inv p d" "budget_of p grp rule" "0 \<le> unix now"
    and "AuthorizeMint u (Some p) (session_mint_request c d bucket target) (Some Reserve) (id_budgets d) now = (m, decision)"
  shows "if md_Allow decision
    then let k = group_window rule (group_key GateEmail bucket grp) (unix now div br_WindowSeconds rule) in
      m = (id_budgets d)(k \<mapsto> used_of (id_budgets d) k + 1) \<and> used_of (id_budgets d) k + 1 \<le> br_Limit rule
    else m = id_budgets d"
proof -
  have inv: "budget_inv (id_budgets d)" "small_budgets p" "wf_policy p" using assms(1) by (simp_all add: charging_inv_def)
  have one: "mq_Count (session_mint_request c d bucket target) = 1" by (simp add: session_mint_request_def)
  note st = AuthorizeMint_store [OF assms(4) inv(1,2)]
  show ?thesis
  proof (cases "md_Allow decision")
    case True
    then obtain tok elig budget k where *: "mint_permitted u p (session_mint_request c d bucket target) now tok elig budget"
      "k = window_key (budget_key_of elig tok) (seconds (br_WindowSeconds budget)) now"
      "m = (id_budgets d)(k \<mapsto> used_of (id_budgets d) k + 1)" "used_of (id_budgets d) k + 1 \<le> br_Limit budget"
      using st one by auto
    have "ct_budgetGroup tok = grp" "budget = rule" "el_GateKind elig = GateEmail" "el_BucketID elig = bucket"
      using *(1) assms(2) by (auto simp: mint_permitted_def request_satisfied_def budget_of_def session_mint_request_def split: if_splits)
    moreover have "0 < br_WindowSeconds rule" "br_WindowSeconds rule < 2 ^ 32"
      using assms(2) inv by (auto simp: budget_of_def wf_policy_def small_budgets_def)
    ultimately have "k = group_window rule (group_key GateEmail bucket grp) (unix now div br_WindowSeconds rule)"
      using *(2) window_key_seconds [of "br_WindowSeconds rule" now] assms(3)
      by (simp add: budget_key_of_def group_key_def group_window_def)
    then show ?thesis using True *(3,4) \<open>budget = rule\<close> by (simp add: Let_def)
  next
    case False
    then show ?thesis using st one by simp
  qed
qed

lemma handleMint_budgets:
  "id_budgets (fst (handleMint u c d sid body now rnd)) = id_budgets d \<or>
   (\<exists>s target m decision. getSession d sid now = Some s
      \<and> AuthorizeMint u (Some (id_policy d)) (session_mint_request c d (ss_Bucket s) target) (Some Reserve) (id_budgets d) now = (m, decision)
      \<and> id_budgets (fst (handleMint u c d sid body now rnd)) = m)"
  by (auto simp: handleMint_def Let_def split: option.splits sum.splits prod.splits)

lemma issuerd_step_budgets:
  assumes "\<nexists>sid body now rnd. i = DMint sid body now rnd"
  shows "id_budgets (fst (issuerd_step u c hmac P d i)) = id_budgets d"
  using assms by (cases i) (simp_all add: session_fields send_fields verify_code_fields webhook_smtp_fields mail_fields)

text \<open>One operation: it charges at most one counter, by one, within its limit, and a token is charged to its bucket's counter.\<close>

lemma observed_charge:
  assumes "charging_inv p d" "budget_of p grp rule" "0 \<le> unix (mint_clock i)"
  obtains (free) "id_budgets (fst (observed_step u c hmac P d i)) = id_budgets d"
      "\<And>bucket e. \<not> minted_for bucket rule e i (snd (observed_step u c hmac P d i))"
  | (charged) b k where "k = group_window rule (group_key GateEmail b grp) (unix (mint_clock i) div br_WindowSeconds rule)"
      "charged_bucket d i = Some b" "used_of (id_budgets d) k + 1 \<le> br_Limit rule"
      "id_budgets (fst (observed_step u c hmac P d i)) = (id_budgets d)(k \<mapsto> used_of (id_budgets d) k + 1)"
proof (cases "\<exists>sid body now rnd. i = DMint sid body now rnd")
  case True
  then obtain sid body now rnd where i: "i = DMint sid body now rnd" by blast
  have p: "id_policy d = p" using assms(1) by (simp add: charging_inv_def)
  show thesis
  proof (cases "token_reply (snd (handleMint u c d sid body now rnd))")
    case None
    consider "id_budgets (fst (handleMint u c d sid body now rnd)) = id_budgets d"
      | s target m decision where "getSession d sid now = Some s"
        "AuthorizeMint u (Some p) (session_mint_request c d (ss_Bucket s) target) (Some Reserve) (id_budgets d) now = (m, decision)"
        "id_budgets (fst (handleMint u c d sid body now rnd)) = m"
      using handleMint_budgets [of u c d sid body now rnd] p by blast
    then show thesis
    proof cases
      case 1
      then show thesis using free None i by (simp add: observed_step_def minted_for_def)
    next
      case (2 s target m decision)
      show thesis
        using session_mint_charge [OF assms(1,2) _ 2(2)] assms(3) 2(1,3) i None free charged [OF refl, of "ss_Bucket s"]
        by (cases "md_Allow decision") (auto simp: observed_step_def minted_for_def Let_def)
    qed
  next
    case (Some tok)
    obtain s target m decision where "getSession d sid now = Some s" "md_Allow decision"
      "AuthorizeMint u (Some p) (session_mint_request c d (ss_Bucket s) target) (Some Reserve) (id_budgets d) now = (m, decision)"
      "id_budgets (fst (handleMint u c d sid body now rnd)) = m"
      using handleMint_token [OF Some] p by metis
    then show thesis
      using session_mint_charge [OF assms(1,2), of now u c "ss_Bucket s" target m decision] assms(3) i charged [OF refl, of "ss_Bucket s"]
      by (auto simp: observed_step_def Let_def)
  qed
next
  case False
  then have "token_reply (snd (issuerd_step u c hmac P d i)) = None"
    using token_only_minted [of u c hmac P d i] by (cases "token_reply (snd (issuerd_step u c hmac P d i))") blast+
  then show thesis using False free issuerd_step_budgets [of i u c hmac P d]
    by (simp add: observed_step_def minted_for_def)
qed

lemma charging_inv_step:
  assumes "charging_inv p d" "budget_of p grp rule" "0 \<le> unix (mint_clock i)"
  shows "charging_inv p (fst (observed_step u c hmac P d i))"
proof -
  have "budget_inv (id_budgets (fst (observed_step u c hmac P d i)))"
  proof (cases rule: observed_charge [OF assms, of u c hmac P])
    case 1
    then show ?thesis using assms(1) by (simp add: charging_inv_def)
  next
    case (2 b k)
    have "br_Limit rule < 2 ^ 62" using assms(1,2) by (auto simp: charging_inv_def small_budgets_def budget_of_def)
    moreover have "budget_inv (id_budgets d)" using assms(1) by (simp add: charging_inv_def)
    ultimately show ?thesis using 2(3,4) used_of_bounds [of "id_budgets d" k] by (auto simp: budget_inv_def)
  qed
  then show ?thesis using assms(1) by (simp add: charging_inv_def observed_step_def issuerd_step_static)
qed

interpretation charging: guarded_machine "observed_step u c hmac P" "\<lambda>i. 0 \<le> unix (mint_clock i)"
  "\<lambda>d. charging_inv p d \<and> budget_of p grp rule" for u c hmac P p grp rule
  by unfold_locales (use charging_inv_step in blast)

text \<open>
  C20: A mailbox's tokens stay within the policy's budget. Take a freshly started server whose policy gives the family of private identity
  tokens the budget rule \<open>rule\<close>, and any sequence of requests and mails. Then the mint requests answered with a token for sessions of one bucket
  (a bucket is the keyed hash of a mailbox, over all the sessions that proved it) within one window number at most the rule's limit.
\<close>

theorem issuerd_mint_budget:
  assumes "newServer c json builtin w cfg rnd fresh rnd_gate = Inr (w', d)"
    and "budget_of (id_policy d) grp rule" and "small_budgets (id_policy d)" and "list_all (\<lambda>i. 0 \<le> unix (mint_clock i)) ops"
  shows "int (count_io (minted_for bucket rule e) (run_trace (observed_step u c hmac P) d ops)) \<le> br_Limit rule"
proof -
  let ?p = "id_policy d" and ?k = "group_window rule (group_key GateEmail bucket grp) e"
  let ?pot = "\<lambda>d. max 0 (br_Limit rule - used_of (id_budgets d) ?k)"
  have wf: "wf_policy ?p" using newServer_Inr(7) [OF assms(1)] wf_policy_Compile by blast
  have inv: "charging_inv ?p d \<and> budget_of ?p grp rule"
    using newServer_Inr [OF assms(1)] wf assms(2,3) by (simp add: charging_inv_def)
  have pay: "of_bool (minted_for bucket rule e i (snd (observed_step u c hmac P s i))) + ?pot (fst (observed_step u c hmac P s i)) \<le> ?pot s + 0"
    if s: "charging_inv ?p s \<and> budget_of ?p grp rule" and i: "0 \<le> unix (mint_clock i)" for s i
  proof (cases rule: observed_charge [OF conjunct1 [OF s] conjunct2 [OF s] i, of u c hmac P])
    case 1
    then show ?thesis by simp
  next
    case (2 b k)
    have "k = ?k" if "minted_for bucket rule e i (snd (observed_step u c hmac P s i))"
      using that 2(1,2) by (simp add: minted_for_def observed_step_def)
    then show ?thesis using 2(3,4) by (cases "k = ?k") (auto simp: used_of_def split: option.splits)
  qed
  have "int (count_io (minted_for bucket rule e) (run_trace (observed_step u c hmac P) d ops)) \<le> ?pot d"
    using charging.sane_run_potential [where cost = "\<lambda>i out. of_bool (minted_for bucket rule e i out)" and income = "\<lambda>_ _. 0" and pot = ?pot,
        OF pay inv assms(4)] unfolding sum_list_of_bool_count by (simp add: case_prod_unfold)
  moreover have "0 \<le> br_Limit rule" using assms(2) wf by (fastforce simp: budget_of_def wf_policy_def)
  moreover have "used_of (id_budgets d) ?k = 0"
    using newServer_Inr(4) [OF assms(1)] by (simp add: used_of_def NewMemoryBudgetStore_def)
  ultimately show ?thesis by simp
qed

section \<open>A session of the demo\<close>

definition toy_issuerd_config :: issuerd_config where
  "toy_issuerd_config = \<lparr>ic_MailDomain = ''ex.org'', ic_VerifyLocalPart = ''verify'', ic_PublicBase = [], ic_WebhookSecret = [],
     ic_SeedFile = [], ic_PolicyFile = [], ic_Dev = True, ic_RelayAddr = [], ic_RelayFrom = [], ic_SessionTTL = 1800 * second\<rparr>"

definition toy_issuerd :: issuerd where
  "toy_issuerd = \<lparr>id_cfg = toy_issuerd_config, id_issuer = toy_issuer\<lparr>is_keyVersion := 1\<rparr>,
     id_svc = \<lparr>sv_blind = Some (toy_issuer\<lparr>is_keyVersion := 1\<rparr>), sv_email = None, sv_pqEmail = None\<rparr>, id_policy = dev_policy,
     id_budgets = NewMemoryBudgetStore, id_codes = NewChallengeStore 600, id_gateKey = [9], id_sessions = []\<rparr>"

definition empty_os :: os where
  "empty_os = \<lparr>os_files = Map.empty, os_can_read = (\<lambda>_. True), os_can_write = (\<lambda>_. True)\<rparr>"

lemma toy_newServer:
  "newServer toy_crypto (\<lambda>_. Some builtinDevPolicy) [] empty_os toy_issuerd_config None (Some (replicate 24 5)) (Some [9]) = Inr (empty_os, toy_issuerd)"
  by (simp add: newServer_def loadOrCreateSeed_def toy_issuerd_config_def toy_issuerd_def toy_issuer_def NewIssuer_def toy_crypto_def
      CompileJSON_def Compile_builtinDevPolicy service_NewIssuer_def issuerKeyVersion_def SKSeedBytes_def)

text \<open>A session in mode \<^verbatim>\<open>code\<close>: created, a code sent and presented.\<close>

definition toy_session :: session where
  "toy_session = \<lparr>ss_ID = ''aaaa'', ss_Mode = ''code'', ss_Status = Pending, ss_Bucket = [], ss_CreatedAt = 100 * second,
     ss_ExpiresAt = 1900 * second, ss_Minted = False\<rparr>"

definition toy_mails :: mail_parser where
  "toy_mails = \<lparr>mp_Header = (\<lambda>_. None), mp_AddressList = (\<lambda>_. None), mp_Address = (\<lambda>_. None), mp_dkim = (\<lambda>_. None)\<rparr>"

abbreviation toy_issuerd_step :: "issuerd \<Rightarrow> issuerd_op \<Rightarrow> issuerd \<times> issuerd_out" where
  "toy_issuerd_step \<equiv> issuerd_step ascii_only toy_crypto (\<lambda>k m. toy_hash (k @ m)) toy_mails"

definition toy_enrol :: "issuerd_op list" where
  "toy_enrol = [DCreate (Some ''code'') (Some [0, 0, 0]) (100 * second),
     DSendCode ''aaaa'' (Some ''bob@ex.org'') (110 * second) (Some [0, 0, 0, 42]) True,
     DVerifyCode ''aaaa'' (Some \<lparr>vc_Email = ''bob@ex.org'', vc_Code = ''000042''\<rparr>) (120 * second)]"

lemma toy_tag: "randomTag ascii_only (Some [0, 0, 0]) = Inr ''aaaa''"
  by code_simp

lemma toy_create: "fst (toy_issuerd_step toy_issuerd (DCreate (Some ''code'') (Some [0, 0, 0]) (100 * second)))
    = toy_issuerd\<lparr>id_sessions := [(''aaaa'', toy_session)]\<rparr>"
  by (simp add: handleCreateSession_def toy_tag toy_issuerd_def gcLocked_def maxSessions_def put_session_def toy_session_def
      toy_issuerd_config_def Let_def second_def)

lemma toy_enrolled:
  "\<exists>st. run_state toy_issuerd_step toy_issuerd toy_enrol = toy_issuerd\<lparr>id_codes := st, id_sessions := [(''aaaa'',
     toy_session\<lparr>ss_Status := Verified, ss_Bucket := hex_encode (BucketID (\<lambda>k m. toy_hash (k @ m)) [9] ''bob@ex.org'')\<rparr>)]\<rparr>"
proof -
  let ?b = "sessionBinding (sha256 toy_crypto) ''aaaa''"
  let ?st = "fst (Create ascii_only (sha256 toy_crypto) (NewChallengeStore 600) ''bob@ex.org'' ?b 110 (Some [0, 0, 0, 42]))"
  let ?d = "toy_issuerd\<lparr>id_sessions := [(''aaaa'', toy_session)]\<rparr>"
  have now: "unix_now (110 * second) = 110" "unix_now (120 * second) = 120" by (simp_all add: unix_now_def unix_def second_def)
  have alive: "getSession (toy_issuerd\<lparr>id_codes := st, id_sessions := [(''aaaa'', s)]\<rparr>) ''aaaa'' (t * second) = Some s"
    if "ss_ExpiresAt s = 1900 * second" "t \<le> 1900" for t st s
    using that by (simp add: getSession_def second_def)
  have alive2: "getSession (toy_issuerd\<lparr>id_sessions := [(''aaaa'', toy_session)]\<rparr>) ''aaaa'' (t * second) = Some toy_session"
    if "t \<le> 1900" for t
    using that by (simp add: getSession_def second_def toy_session_def)
  have send: "fst (toy_issuerd_step ?d (DSendCode ''aaaa'' (Some ''bob@ex.org'') (110 * second) (Some [0, 0, 0, 42]) True)) = ?d\<lparr>id_codes := ?st\<rparr>"
    using alive2 [of 110] by (simp add: handleSendCode_def now toy_session_def toy_issuerd_def split: prod.splits sum.splits)
  have v: "\<exists>st'. Verify ascii_only (sha256 toy_crypto) ?st ''bob@ex.org'' ''000042'' ?b 120 = (st', Inr ''bob@ex.org'')"
    by (simp add: Verify_Inr_iff Create_def example_canonical example_trim example_code Let_def NewChallengeStore_def be_word_def)
  then obtain st' where v: "Verify ascii_only (sha256 toy_crypto) ?st ''bob@ex.org'' ''000042'' ?b 120 = (st', Inr ''bob@ex.org'')" by blast
  have "fst (toy_issuerd_step (?d\<lparr>id_codes := ?st\<rparr>) (DVerifyCode ''aaaa'' (Some \<lparr>vc_Email = ''bob@ex.org'', vc_Code = ''000042''\<rparr>) (120 * second)))
    = toy_issuerd\<lparr>id_codes := st', id_sessions := [(''aaaa'',
        toy_session\<lparr>ss_Status := Verified, ss_Bucket := hex_encode (BucketID (\<lambda>k m. toy_hash (k @ m)) [9] ''bob@ex.org'')\<rparr>)]\<rparr>"
    using alive [of toy_session 120 ?st] v now
    by (simp add: handleVerifyCode_def case_outcome markVerified_def put_session_def toy_session_def toy_issuerd_def)
  then show ?thesis using toy_create send unfolding toy_enrol_def by (simp del: issuerd_step.simps) blast
qed

text \<open>A mint request of the enrolled session is answered with a token.\<close>

definition toy_mint :: issuerd_op where
  "toy_mint = DMint ''aaaa'' (Some (b64url_encode (replicate 32 1))) (130 * second) (Some (replicate 32 6))"

lemma toy_mint_permitted:
  assumes "bucket \<noteq> []" "is_keyVersion (id_issuer d) = 1"
  shows "mint_permitted ascii_only dev_policy (session_mint_request toy_crypto d bucket target) (130 * second)
     (the (po_tokens dev_policy ''private_identity'')) \<lparr>el_GateKind = GateEmail, el_BucketID = bucket, el_Assurance = AssuranceVerified,
       el_Claims = Map.empty\<rparr> \<lparr>br_Limit = 8, br_WindowSeconds = 3600\<rparr>"
  using toy_crypto_correct(2) assms
  by (simp add: mint_permitted_def request_satisfied_def gate_satisfied_def eligible_def session_mint_request_def GateEmail_def
      dev_policy_def software_witness_def AssuranceVerified_def is_ascii_def ascii_lower_def policy_consts
      zero_time_def second_def unix_to_internal_def char_of_eq_iff BindingOf_def ascii_only_def mailbox_Platform_def)

lemma toy_minted:
  assumes "bucket \<noteq> []" and "d = toy_issuerd\<lparr>id_codes := st, id_sessions := [(''aaaa'', toy_session\<lparr>ss_Status := Verified, ss_Bucket := bucket\<rparr>)]\<rparr>"
  shows "\<exists>tok. token_reply (snd (toy_issuerd_step d toy_mint)) = Some tok"
proof -
  let ?s = "toy_session\<lparr>ss_Status := Verified, ss_Bucket := bucket\<rparr>" and ?iss = "toy_issuer\<lparr>is_keyVersion := 1\<rparr>"
  have f: "id_issuer d = ?iss" "id_policy d = dev_policy" "id_budgets d = NewMemoryBudgetStore" "sv_blind (id_svc d) = Some ?iss"
    by (simp_all add: assms(2) toy_issuerd_def)
  have g: "getSession d ''aaaa'' (130 * second) = Some ?s"
    by (simp add: assms(2) getSession_def second_def toy_session_def)
  let ?msg = "pi_Bytes (NewPrivateIdentityInput (is_keyVersion ?iss) (is_tokenKeyID ?iss) HolderAlgEd25519 (replicate 32 1))"
  let ?state = "\<lparr>st_additionalR = replicate 32 6, st_proofState = (), st_h = ?msg\<rparr>"
  let ?t = "replicate 39 (0 :: byte)"
  have pb: "PrepareBlind toy_crypto ?msg (replicate 32 6) = (?t, ?state)" by (simp add: PrepareBlind_def toy_crypto_def)
  obtain m dec where am: "AuthorizeMint ascii_only (Some dev_policy) (session_mint_request toy_crypto d bucket ?t) (Some Reserve) NewMemoryBudgetStore
      (130 * second) = (m, dec)" by fastforce
  have rsv: "\<exists>m. Reserve NewMemoryBudgetStore key 1 8 w t = (m, None)" for key w t
    by (simp add: Reserve_def NewMemoryBudgetStore_def used_of_def wrap64_def Let_def)
  have dec: "md_Allow dec" "mc_TokenFamily (md_Constraints dec) = TokenPrivateIdentity" "mc_Count (md_Constraints dec) = 1"
      "mc_KeyVersion (md_Constraints dec) = 1" "mc_BindingB64 (md_Constraints dec) = b64url_encode (BindingOf toy_crypto [?t])"
      "mc_ExpiresAt (md_Constraints dec) = 250"
  proof -
    obtain m' where r: "charge (Some Reserve) NewMemoryBudgetStore (budget_key_of \<lparr>el_GateKind = GateEmail, el_BucketID = bucket, el_Assurance = AssuranceVerified,
       el_Claims = Map.empty\<rparr> (the (po_tokens dev_policy ''private_identity''))) 1 \<lparr>br_Limit = 8, br_WindowSeconds = 3600\<rparr> (130 * second) = (m', None)"
      unfolding charge_def option.case budget_rule.simps using rsv by blast
    show "md_Allow dec" "mc_TokenFamily (md_Constraints dec) = TokenPrivateIdentity" "mc_Count (md_Constraints dec) = 1"
      "mc_KeyVersion (md_Constraints dec) = 1" "mc_BindingB64 (md_Constraints dec) = b64url_encode (BindingOf toy_crypto [?t])"
      "mc_ExpiresAt (md_Constraints dec) = 250"
      using am r f(1) unfolding AuthorizeMint_permitted [OF toy_mint_permitted [OF assms(1), of d ?t, unfolded f(1), simplified]]
      by (auto simp: session_mint_request_def toy_issuer_def unix_def seconds_def second_def dev_policy_def wrap64_def)
  qed
  have bs: "BlindSign toy_crypto ?iss [?t] = Inr [[2, 9]]"
    by (simp add: BlindSign_def toy_crypto_def toy_issuer_def MBytes_def)
  have nonempty: "b64url_encode (BindingOf toy_crypto [?t]) \<noteq> []"
    using toy_crypto_correct(2) [of "binding_preimage [?t]"] by (auto simp: BindingOf_def)
  have sg: "SignAuthorizedBlind toy_crypto (id_svc d) \<lparr>bm_Decision = dec, bm_Family = TokenPrivateIdentity, bm_Blinded = [?t], bm_Now = 130 * second\<rparr>
      = Inr [[2, 9]]"
    unfolding SignAuthorizedBlind_Inr validateDecision_Inr
    using f(4) bs dec nonempty by (simp add: unix_def second_def toy_issuer_def)
  have "\<exists>auth. FinalizeBlind toy_crypto (is_epk ?iss) [2, 9] ?state = Inr auth" by (simp add: FinalizeBlind_def toy_crypto_def)
  then show ?thesis
    using g f pb am dec(1) sg by (auto simp: toy_mint_def handleMint_def toy_session_def replies_def Let_def)
qed

definition toy_bucket :: string where
  "toy_bucket = hex_encode (BucketID (\<lambda>k m. toy_hash (k @ m)) [9] ''bob@ex.org'')"

lemma toy_bucket_nonempty: "toy_bucket \<noteq> []"
proof -
  have "length toy_bucket = 64" by (simp add: toy_bucket_def BucketID_def)
  then show ?thesis by auto
qed

lemma toy_token: "\<exists>tok. token_reply (snd (toy_issuerd_step (run_state toy_issuerd_step toy_issuerd toy_enrol) toy_mint)) = Some tok"
  using toy_enrolled toy_minted [OF toy_bucket_nonempty] unfolding toy_bucket_def by fastforce

theorem issuerd_table_sound_witness:
  "issuerd_inv (run_state toy_issuerd_step toy_issuerd (toy_enrol @ [toy_mint]))"
  by (rule issuerd_table_sound [OF toy_newServer])

theorem session_binding_final_witness:
  "case map_of (id_sessions (run_state toy_issuerd_step (run_state toy_issuerd_step toy_issuerd toy_enrol) [toy_mint])) ''aaaa'' of None \<Rightarrow> True
    | Some s' \<Rightarrow> \<exists>minted. s' = toy_session\<lparr>ss_Status := Verified, ss_Bucket := toy_bucket, ss_Minted := minted\<rparr>"
proof -
  let ?d = "run_state toy_issuerd_step toy_issuerd toy_enrol"
  have inv: "issuerd_inv ?d" by (rule issuerd.invar_run) (rule issuerd_inv_start [OF toy_newServer])
  have s: "map_of (id_sessions ?d) ''aaaa'' = Some (toy_session\<lparr>ss_Status := Verified, ss_Bucket := toy_bucket\<rparr>)"
    using toy_enrolled unfolding toy_bucket_def by fastforce
  obtain tok where "token_reply (snd (toy_issuerd_step ?d toy_mint)) = Some tok" using toy_token by blast
  then have "\<forall>(i, out) \<in> set (run_trace toy_issuerd_step ?d [toy_mint]). \<forall>m e x. out \<noteq> replies 200 (BSession ''aaaa'' m e x)"
    by (auto simp: replies_def)
  from session_binding_final [OF inv s _ this] show ?thesis by simp
qed


theorem issuerd_token_valid_witness:
  "\<exists>tok bs t. token_reply (snd (toy_issuerd_step (run_state toy_issuerd_step toy_issuerd toy_enrol) toy_mint)) = Some tok
    \<and> b64url_decode tok = Some bs \<and> ParsePrivateIdentityToken bs = Inr t
    \<and> VerifyPrivateIdentityToken toy_crypto (id_issuer toy_issuerd) t = Inr () \<and> pi_HolderPub (pt_Input t) = replicate 32 1"
proof -
  obtain tok where t: "token_reply (snd (toy_issuerd_step (run_state toy_issuerd_step toy_issuerd toy_enrol)
      (DMint ''aaaa'' (Some (b64url_encode (replicate 32 1))) (130 * second) (Some (replicate 32 6))))) = Some tok"
    using toy_token unfolding toy_mint_def by blast
  have "length (replicate 32 6 :: bytes) = 32" by simp
  from issuerd_token_valid [OF toy_crypto_correct toy_newServer this t] t show ?thesis unfolding toy_mint_def by auto
qed

lemma toy_budget_of: "budget_of dev_policy ''mailproof'' \<lparr>br_Limit = 8, br_WindowSeconds = 3600\<rparr>"
  by (simp add: budget_of_def dev_policy_def TokenPrivateIdentity_def)

theorem issuerd_mint_budget_witness:
  "int (count_io (minted_for toy_bucket \<lparr>br_Limit = 8, br_WindowSeconds = 3600\<rparr> 0)
     (run_trace (observed_step ascii_only toy_crypto (\<lambda>k m. toy_hash (k @ m)) toy_mails) toy_issuerd (toy_enrol @ [toy_mint, toy_mint]))) \<le> 8"
proof -
  have p: "id_policy toy_issuerd = dev_policy" by (simp add: toy_issuerd_def)
  have "budget_of (id_policy toy_issuerd) ''mailproof'' \<lparr>br_Limit = 8, br_WindowSeconds = 3600\<rparr>" "small_budgets (id_policy toy_issuerd)"
    "list_all (\<lambda>i. 0 \<le> unix (mint_clock i)) (toy_enrol @ [toy_mint, toy_mint])"
    using toy_budget_of small_budgets_dev p by (simp_all add: toy_enrol_def toy_mint_def unix_def second_def)
  from issuerd_mint_budget [OF toy_newServer this] show ?thesis by simp
qed

end
