(* ===== verification/MldsaArith.thy ===== *)
theory MldsaArith
  imports Prelude "HOL-Library.Numeral_Type" "HOL-Library.Signed_Division"
begin

text \<open>
  Coefficient arithmetic of ML-DSA (\<^verbatim>\<open>mldsa/poly.go\<close>, \<^verbatim>\<open>mldsa/params.go\<close>). A coefficient is an
  \<^verbatim>\<open>int32\<close>, modelled as an integer with the wrap-around of every addition, subtraction and product written out
  (\<open>wrap32\<close>); a right shift of a signed integer is \<open>drop_bit\<close>, which rounds down as Go's does. The results: on canonical
  arguments the branch-free code computes addition, subtraction and multiplication modulo the prime, the centred representative, and
  the infinity norm test, without overflow. \<open>zq\<close> is the ring of integers modulo that prime, in which the later theories calculate.
\<close>

unbundle bit_operations_syntax

section \<open>32-bit integers\<close>

definition wrap32 :: "int \<Rightarrow> int" where
  "wrap32 x = (x + 2 ^ 31) mod 2 ^ 32 - 2 ^ 31"

definition is_int32 :: "int \<Rightarrow> bool" where
  "is_int32 x \<longleftrightarrow> - (2 ^ 31) \<le> x \<and> x < 2 ^ 31"

lemma wrap32_id: "is_int32 x \<Longrightarrow> wrap32 x = x"
  by (simp add: wrap32_def is_int32_def)

lemma sign_mask: "is_int32 c \<Longrightarrow> drop_bit 31 c = (if c < 0 then - 1 else 0)"
proof -
  assume "is_int32 c"
  then have c: "- 2147483648 \<le> c" "c < 2147483648" by (simp_all add: is_int32_def)
  have "c div 2147483648 = (if c < 0 then - 1 else 0)"
  proof (cases "c < 0")
    case True
    then have "(c + 2147483648) div 2147483648 = 0" using c by simp
    then show ?thesis using True by simp
  qed (use c in simp)
  then show ?thesis by (simp add: drop_bit_eq_div)
qed

section \<open>Outcomes\<close>

text \<open>A call panics, never returns, or returns a value.\<close>

datatype 'a outcome = Panic | Loops | Returns 'a

definition bind_outcome :: "'a outcome \<Rightarrow> ('a \<Rightarrow> 'b outcome) \<Rightarrow> 'b outcome" where
  "bind_outcome r f = (case r of Panic \<Rightarrow> Panic | Loops \<Rightarrow> Loops | Returns a \<Rightarrow> f a)"

lemma bind_outcome_simps [simp]:
  "bind_outcome Panic f = Panic" "bind_outcome Loops f = Loops" "bind_outcome (Returns a) f = f a"
  by (simp_all add: bind_outcome_def)

lemma bind_outcome_Returns: "bind_outcome r f = Returns b \<longleftrightarrow> (\<exists>a. r = Returns a \<and> f a = Returns b)"
  by (cases r) simp_all

fun map_outcome :: "('a \<Rightarrow> 'b outcome) \<Rightarrow> 'a list \<Rightarrow> 'b list outcome" where
  "map_outcome f [] = Returns []"
| "map_outcome f (x # xs) = bind_outcome (f x) (\<lambda>y. bind_outcome (map_outcome f xs) (\<lambda>ys. Returns (y # ys)))"

lemma map_outcome_Returns: "(\<And>x. x \<in> set xs \<Longrightarrow> f x = Returns (g x)) \<Longrightarrow> map_outcome f xs = Returns (map g xs)"
  by (induction xs) simp_all

lemma map_outcome_list_all2: "map_outcome f xs = Returns ys \<longleftrightarrow> list_all2 (\<lambda>x y. f x = Returns y) xs ys"
  by (induction xs arbitrary: ys) (auto simp: bind_outcome_Returns list_all2_Cons1)

section \<open>Parameters\<close>

abbreviation modq :: int where "modq \<equiv> 8380417"
abbreviation zeta_c :: int where "zeta_c \<equiv> 1753"
abbreviation nInv :: int where "nInv \<equiv> 8347681"
abbreviation seedB :: nat where "seedB \<equiv> 32"
abbreviation drop_d :: nat where "drop_d \<equiv> 13"
abbreviation ring_n :: nat where "ring_n \<equiv> 256"

record mldsa_params =
  mp_Name :: string
  mp_K :: nat
  mp_L :: nat
  mp_Eta :: int
  mp_Tau :: nat
  mp_Beta :: int
  mp_Gamma1 :: int
  mp_Gamma2 :: int
  mp_Omega :: nat
  mp_Lambda :: nat
  mp_etaBits :: nat
  mp_zBits :: nat
  mp_w1Bits :: nat
  mp_PublicKeySize :: nat
  mp_PrivateKeySize :: nat
  mp_SignatureSize :: nat

definition newParams ::
  "string \<Rightarrow> nat \<Rightarrow> nat \<Rightarrow> int \<Rightarrow> nat \<Rightarrow> int \<Rightarrow> int \<Rightarrow> nat \<Rightarrow> nat \<Rightarrow> nat \<Rightarrow> nat \<Rightarrow> nat \<Rightarrow> mldsa_params" where
  "newParams name k l eta tau gamma1 gamma2 omega lambda etaBits zBits w1Bits =
     \<lparr>mp_Name = name, mp_K = k, mp_L = l, mp_Eta = eta, mp_Tau = tau, mp_Beta = wrap32 (int tau * eta), mp_Gamma1 = gamma1, mp_Gamma2 = gamma2,
      mp_Omega = omega, mp_Lambda = lambda, mp_etaBits = etaBits, mp_zBits = zBits, mp_w1Bits = w1Bits,
      mp_PublicKeySize = seedB + k * ring_n div 8 * 10,
      mp_PrivateKeySize = 2 * seedB + 64 + (k + l) * ring_n div 8 * etaBits + k * ring_n div 8 * drop_d,
      mp_SignatureSize = lambda div 4 + l * ring_n div 8 * zBits + omega + k\<rparr>"

definition MLDSA44 :: mldsa_params where
  "MLDSA44 = newParams ''ML-DSA-44'' 4 4 2 39 (2 ^ 17) ((modq - 1) div 88) 80 128 3 18 6"

definition MLDSA65 :: mldsa_params where
  "MLDSA65 = newParams ''ML-DSA-65'' 6 5 4 49 (2 ^ 19) ((modq - 1) div 32) 55 192 4 20 4"

definition MLDSA87 :: mldsa_params where
  "MLDSA87 = newParams ''ML-DSA-87'' 8 7 2 60 (2 ^ 19) ((modq - 1) div 32) 75 256 3 20 4"

definition standard_params :: "mldsa_params \<Rightarrow> bool" where
  "standard_params p \<longleftrightarrow> p = MLDSA44 \<or> p = MLDSA65 \<or> p = MLDSA87"

section \<open>Coefficients\<close>

definition canonical :: "int \<Rightarrow> bool" where
  "canonical a \<longleftrightarrow> 0 \<le> a \<and> a < modq"

definition addQ :: "int \<Rightarrow> int \<Rightarrow> int" where
  "addQ a b = (let c = wrap32 (wrap32 (a + b) - modq) in wrap32 (c + (drop_bit 31 c AND modq)))"

definition subQ :: "int \<Rightarrow> int \<Rightarrow> int" where
  "subQ a b = (let c = wrap32 (a - b) in wrap32 (c + (drop_bit 31 c AND modq)))"

definition mulQ :: "int \<Rightarrow> int \<Rightarrow> int" where
  "mulQ a b = wrap32 (wrap64 (a * b) smod modq)"

definition centered :: "int \<Rightarrow> int" where
  "centered a = (let m = drop_bit 31 (wrap32 ((modq - 1) div 2 - a)) in wrap32 (a - (m AND modq)))"

text \<open>The sum that makes a negative value canonical, as it stands in several places of the code.\<close>

definition canon :: "int \<Rightarrow> int" where
  "canon c = wrap32 (c + (drop_bit 31 c AND modq))"

lemma smod_nonneg: "0 \<le> a \<Longrightarrow> 0 < b \<Longrightarrow> a smod b = a mod (b :: int)"
  by (cases "a = 0") (simp_all add: signed_modulo_int_def sgn_if)

lemma canon_eq: "- modq < c \<Longrightarrow> c < modq \<Longrightarrow> canon c = (if c < 0 then c + modq else c)"
  by (simp add: canon_def sign_mask is_int32_def wrap32_id)

lemma mod_below_twice: "0 \<le> x \<Longrightarrow> x < 2 * m \<Longrightarrow> x mod m = (if x < m then x else x - m)" for x m :: int
proof (cases "x < m")
  case False
  assume "0 \<le> x" "x < 2 * m"
  then have "(x - m) mod m = x - m" using False by (intro mod_pos_pos_trivial) simp_all
  then show ?thesis using False by simp
qed simp

lemma addQ_eq: "canonical a \<Longrightarrow> canonical b \<Longrightarrow> addQ a b = (a + b) mod modq"
proof -
  assume "canonical a" "canonical b"
  then have ab: "0 \<le> a" "a < modq" "0 \<le> b" "b < modq" by (simp_all add: canonical_def)
  have "addQ a b = canon (a + b - modq)" using ab by (simp add: addQ_def canon_def wrap32_id is_int32_def Let_def)
  also have "\<dots> = (if a + b < modq then a + b else a + b - modq)"
  proof (cases "a + b = 0")
    case True
    then have "a = 0" "b = 0" using ab by auto
    then show ?thesis by (simp add: canon_def sign_mask is_int32_def wrap32_id)
  qed (use ab canon_eq [of "a + b - modq"] in simp)
  also have "\<dots> = (a + b) mod modq" using ab mod_below_twice [of "a + b" modq] by simp
  finally show ?thesis .
qed

lemma subQ_eq: "canonical a \<Longrightarrow> canonical b \<Longrightarrow> subQ a b = (a - b) mod modq"
proof -
  assume "canonical a" "canonical b"
  then have ab: "0 \<le> a" "a < modq" "0 \<le> b" "b < modq" by (simp_all add: canonical_def)
  have "subQ a b = canon (a - b)" using ab by (simp add: subQ_def canon_def wrap32_id is_int32_def Let_def)
  also have "\<dots> = (if a < b then a - b + modq else a - b)" using ab canon_eq [of "a - b"] by simp
  also have "\<dots> = (a - b) mod modq"
    using ab mod_below_twice [of "a - b + modq" modq] by simp
  finally show ?thesis .
qed

lemma mulQ_eq: "canonical a \<Longrightarrow> canonical b \<Longrightarrow> mulQ a b = (a * b) mod modq"
proof -
  assume "canonical a" "canonical b"
  then have ab: "0 \<le> a" "a < modq" "0 \<le> b" "b < modq" by (simp_all add: canonical_def)
  have "a * b < modq * modq" using ab by (intro mult_strict_mono) auto
  moreover have "0 \<le> a * b" using ab by simp
  ultimately have "wrap64 (a * b) = a * b" by (intro wrap64_id) (simp add: is_int64_def)
  moreover have "0 \<le> a * b mod modq" "a * b mod modq < modq" by simp_all
  ultimately show ?thesis using ab
    by (simp add: mulQ_def smod_nonneg wrap32_id is_int32_def less_le_trans less_imp_le)
qed

lemma centered_eq: "canonical a \<Longrightarrow> centered a = (if a \<le> 4190208 then a else a - modq)"
  by (simp add: centered_def canonical_def wrap32_id sign_mask is_int32_def Let_def)

lemma canonical_ops [simp]:
  "canonical a \<Longrightarrow> canonical b \<Longrightarrow> canonical (addQ a b)" "canonical a \<Longrightarrow> canonical b \<Longrightarrow> canonical (subQ a b)"
  "canonical a \<Longrightarrow> canonical b \<Longrightarrow> canonical (mulQ a b)"
  by (simp_all add: addQ_eq subQ_eq mulQ_eq) (simp_all add: canonical_def)

section \<open>The ring of integers modulo the prime\<close>

type_synonym zq = "8380417"

lemma zq_rep: "Rep_bit1 (of_int a :: zq) = a mod modq"
proof -
  have "(of_int a :: zq) = Abs_bit1 (a mod int CARD(zq))" by (rule bit1.of_int_eq)
  then have "Rep_bit1 (of_int a :: zq) = a mod int CARD(zq)" by (simp only: bit1.Rep_Abs_mod)
  then show ?thesis by simp
qed

lemma zq_cong: "(of_int a :: zq) = of_int b \<longleftrightarrow> a mod modq = b mod modq"
  using zq_rep [of a] zq_rep [of b] Rep_bit1_inject [of "of_int a :: zq" "of_int b"] by metis

lemma zq_mod [simp]: "(of_int (a mod modq) :: zq) = of_int a"
  by (simp add: zq_cong)

lemma zq_inject: "canonical a \<Longrightarrow> canonical b \<Longrightarrow> (of_int a :: zq) = of_int b \<longleftrightarrow> a = b"
  by (simp add: zq_cong canonical_def)

lemma zq_canonical: "canonical a \<Longrightarrow> (of_int a :: zq) = of_int v \<Longrightarrow> a = v mod modq"
  by (simp only: zq_cong) (simp add: canonical_def)

lemma mod_negative: "- m \<le> x \<Longrightarrow> x < 0 \<Longrightarrow> x mod m = x + m" for x m :: int
proof -
  assume x: "- m \<le> x" "x < 0"
  have "x mod m = (x + m) mod m" by (rule mod_add_self2 [symmetric])
  also have "\<dots> = x + m" using x by (intro mod_pos_pos_trivial) simp_all
  finally show ?thesis .
qed

lemma zq_ops [simp]:
  "canonical a \<Longrightarrow> canonical b \<Longrightarrow> (of_int (addQ a b) :: zq) = of_int a + of_int b"
  "canonical a \<Longrightarrow> canonical b \<Longrightarrow> (of_int (subQ a b) :: zq) = of_int a - of_int b"
  "canonical a \<Longrightarrow> canonical b \<Longrightarrow> (of_int (mulQ a b) :: zq) = of_int a * of_int b"
  by (simp_all add: addQ_eq subQ_eq mulQ_eq)

lemma zq_centered [simp]: "canonical a \<Longrightarrow> (of_int (centered a) :: zq) = of_int a"
  by (simp add: centered_eq zq_cong)

section \<open>Vectors of coefficients\<close>

type_synonym poly = "int list"
type_synonym vec = "poly list"

definition canonical_poly :: "poly \<Rightarrow> bool" where
  "canonical_poly a \<longleftrightarrow> length a = ring_n \<and> (\<forall>x \<in> set a. canonical x)"

definition poly_add :: "poly \<Rightarrow> poly \<Rightarrow> poly" where
  "poly_add a b = map (\<lambda>i. addQ (a ! i) (b ! i)) [0..<ring_n]"

definition poly_sub :: "poly \<Rightarrow> poly \<Rightarrow> poly" where
  "poly_sub a b = map (\<lambda>i. subQ (a ! i) (b ! i)) [0..<ring_n]"

definition mulHat :: "poly \<Rightarrow> poly \<Rightarrow> poly" where
  "mulHat a b = map (\<lambda>i. mulQ (a ! i) (b ! i)) [0..<ring_n]"

text \<open>The absolute value and the sign of the margin, or-ed over the coefficients.\<close>

definition poly_normExceeds :: "poly \<Rightarrow> int \<Rightarrow> bool" where
  "poly_normExceeds a bound =
     (fold (\<lambda>x acc. let c = centered x; c' = wrap32 (c - (drop_bit 31 c AND wrap32 (2 * c))) in
        acc OR drop_bit 31 (wrap32 (wrap32 (bound - 1) - c'))) a 0 \<noteq> 0)"

lemma abs_branch_free: "is_int32 (2 * c) \<Longrightarrow> wrap32 (c - (drop_bit 31 c AND wrap32 (2 * c))) = \<bar>c\<bar>"
  by (simp add: sign_mask is_int32_def wrap32_id)

lemma poly_normExceeds_iff:
  assumes "\<forall>x \<in> set a. canonical x" "0 \<le> bound" "bound < 2 ^ 30"
  shows "poly_normExceeds a bound \<longleftrightarrow> (\<exists>x \<in> set a. bound \<le> \<bar>centered x\<bar>)"
proof -
  let ?f = "\<lambda>x acc. let c = centered x; c' = wrap32 (c - (drop_bit 31 c AND wrap32 (2 * c))) in
        acc OR drop_bit 31 (wrap32 (wrap32 (bound - 1) - c'))"
  have step: "?f x acc = (if bound \<le> \<bar>centered x\<bar> then acc OR - 1 else acc)" if "canonical x" for x acc
  proof -
    have c: "\<bar>centered x\<bar> \<le> 4190208" using that by (auto simp: centered_eq canonical_def)
    then have "is_int32 (2 * centered x)" "is_int32 (bound - 1)" "is_int32 (bound - 1 - \<bar>centered x\<bar>)"
      using assms(2,3) by (auto simp: is_int32_def)
    then show ?thesis unfolding Let_def by (simp only: abs_branch_free) (simp add: wrap32_id sign_mask)
  qed
  have "fold ?f a acc = (if \<exists>x \<in> set a. bound \<le> \<bar>centered x\<bar> then - 1 else acc)" if "acc = 0 \<or> acc = - 1" for acc
    using that assms(1)
  proof (induction a arbitrary: acc)
    case (Cons x a)
    then show ?case using step [of x acc] by (auto simp: Cons.IH)
  qed simp
  from this [of 0] show ?thesis unfolding poly_normExceeds_def by auto
qed

lemma canonical_poly_nth: "canonical_poly a \<Longrightarrow> i < ring_n \<Longrightarrow> canonical (a ! i)"
  by (simp add: canonical_poly_def)

lemma canonical_polyI: "length a = ring_n \<Longrightarrow> (\<And>i. i < ring_n \<Longrightarrow> canonical (a ! i)) \<Longrightarrow> canonical_poly a"
  by (auto simp: canonical_poly_def in_set_conv_nth)

lemma canonical_poly_ops [simp]:
  "canonical_poly a \<Longrightarrow> canonical_poly b \<Longrightarrow> canonical_poly (poly_add a b)"
  "canonical_poly a \<Longrightarrow> canonical_poly b \<Longrightarrow> canonical_poly (poly_sub a b)"
  "canonical_poly a \<Longrightarrow> canonical_poly b \<Longrightarrow> canonical_poly (mulHat a b)"
  by (rule canonical_polyI; simp add: poly_add_def poly_sub_def mulHat_def canonical_poly_nth)+

text \<open>A polynomial as a function into the ring.\<close>

definition zqp :: "poly \<Rightarrow> nat \<Rightarrow> zq" where
  "zqp a i = of_int (a ! i)"

lemma zqp_inject:
  assumes "canonical_poly a" "canonical_poly b" "\<And>i. i < ring_n \<Longrightarrow> zqp a i = zqp b i"
  shows "a = b"
proof (rule nth_equalityI)
  show "length a = length b" using assms by (simp add: canonical_poly_def)
  fix i assume "i < length a"
  then have i: "i < ring_n" using assms by (simp add: canonical_poly_def)
  show "a ! i = b ! i" using assms(3) [OF i] canonical_poly_nth [OF assms(1) i] canonical_poly_nth [OF assms(2) i]
    by (simp add: zqp_def zq_inject)
qed

lemma zqp_ops [simp]:
  "canonical_poly a \<Longrightarrow> canonical_poly b \<Longrightarrow> i < ring_n \<Longrightarrow> zqp (poly_add a b) i = zqp a i + zqp b i"
  "canonical_poly a \<Longrightarrow> canonical_poly b \<Longrightarrow> i < ring_n \<Longrightarrow> zqp (poly_sub a b) i = zqp a i - zqp b i"
  "canonical_poly a \<Longrightarrow> canonical_poly b \<Longrightarrow> i < ring_n \<Longrightarrow> zqp (mulHat a b) i = zqp a i * zqp b i"
  by (simp_all add: zqp_def poly_add_def poly_sub_def mulHat_def canonical_poly_nth)

end
