(* ===== verification/MldsaNTT.thy ===== *)
theory MldsaNTT
  imports MldsaArith
begin

text \<open>
  The number-theoretic transform of ML-DSA (\<^verbatim>\<open>mldsa/poly.go\<close>), loop by loop, and its correctness: the two transforms are
  inverse to each other, both are linear, and the pointwise product in the transformed domain is the product of polynomials modulo
  \<open>X^256 + 1\<close>.
\<close>

section \<open>The table of roots\<close>

function zeta_pow :: "int \<Rightarrow> int \<Rightarrow> int \<Rightarrow> int" where
  "zeta_pow r b e = (if e \<le> 0 then r else zeta_pow (if e AND 1 = 1 then (r * b) smod modq else r) ((b * b) smod modq) (drop_bit 1 e))"
  by pat_completeness auto
termination
  by (relation "measure (\<lambda>(r, b, e). nat e)") (simp_all add: drop_bit_eq_div)

declare zeta_pow.simps [simp del]

definition brv8 :: "int \<Rightarrow> int" where
  "brv8 k = (let b = push_bit 4 (k AND 0x0F) OR drop_bit 4 (k AND 0xF0);
                 b = push_bit 2 (b AND 0x33) OR drop_bit 2 (b AND 0xCC) in
             push_bit 1 (b AND 0x55) OR drop_bit 1 (b AND 0xAA))"

definition zetas :: "int list" where
  "zetas = map (\<lambda>k. zeta_pow 1 zeta_c (brv8 (int k))) [0..<ring_n]"

section \<open>The transforms\<close>

definition ntt_butterfly :: "int \<Rightarrow> nat \<Rightarrow> nat \<Rightarrow> poly \<Rightarrow> poly" where
  "ntt_butterfly z len j a =
     (let t = mulQ z (a ! (j + len)); a' = a[j + len := subQ (a ! j) t] in a'[j := addQ (a' ! j) t])"

definition ntt_block :: "int \<Rightarrow> nat \<Rightarrow> nat \<Rightarrow> poly \<Rightarrow> poly" where
  "ntt_block z len start a = fold (ntt_butterfly z len) [start..<start + len] a"

definition starts :: "nat \<Rightarrow> nat list" where
  "starts len = map (\<lambda>b. b * (2 * len)) [0..<ring_n div (2 * len)]"

definition ntt_layer :: "nat \<Rightarrow> nat \<times> poly \<Rightarrow> nat \<times> poly" where
  "ntt_layer len s = fold (\<lambda>start (k, a). (k + 1, ntt_block (zetas ! (k + 1)) len start a)) (starts len) s"

function ntt_from :: "nat \<Rightarrow> nat \<times> poly \<Rightarrow> nat \<times> poly" where
  "ntt_from len s = (if len \<ge> 1 then ntt_from (len div 2) (ntt_layer len s) else s)"
  by pat_completeness auto
termination
  by (relation "measure fst") auto

definition ntt :: "poly \<Rightarrow> poly" where
  "ntt a = snd (ntt_from (ring_n div 2) (0, a))"

definition inv_butterfly :: "int \<Rightarrow> nat \<Rightarrow> nat \<Rightarrow> poly \<Rightarrow> poly" where
  "inv_butterfly z len j a =
     (let t = a ! j; a1 = a[j := addQ t (a ! (j + len))]; a2 = a1[j + len := subQ t (a1 ! (j + len))] in
      a2[j + len := mulQ z (a2 ! (j + len))])"

definition inv_block :: "int \<Rightarrow> nat \<Rightarrow> nat \<Rightarrow> poly \<Rightarrow> poly" where
  "inv_block z len start a = fold (inv_butterfly z len) [start..<start + len] a"

definition inv_layer :: "nat \<Rightarrow> nat \<times> poly \<Rightarrow> nat \<times> poly" where
  "inv_layer len s = fold (\<lambda>start (k, a). (k - 1, inv_block (modq - zetas ! (k - 1)) len start a)) (starts len) s"

function inv_from :: "nat \<Rightarrow> nat \<times> poly \<Rightarrow> nat \<times> poly" where
  "inv_from len s = (if 0 < len \<and> len < ring_n then inv_from (2 * len) (inv_layer len s) else s)"
  by pat_completeness auto
termination
  by (relation "measure (\<lambda>(len, s). ring_n - len)") auto

definition invNTT :: "poly \<Rightarrow> poly" where
  "invNTT a = map (mulQ nInv) (snd (inv_from 1 (ring_n, a)))"

declare ntt_from.simps [simp del] inv_from.simps [simp del]

section \<open>A layer, coefficient by coefficient\<close>

lemma zqp_update: "i < length a \<Longrightarrow> zqp (a[j := x]) i = (if i = j then of_int x else zqp a i)"
  by (auto simp: zqp_def)

lemma canonical_poly_update: "canonical_poly a \<Longrightarrow> canonical x \<Longrightarrow> canonical_poly (a[i := x])"
  by (auto simp: canonical_poly_def dest: set_update_subset_insert [THEN subsetD])

lemma canonical_poly_length: "canonical_poly a \<Longrightarrow> length a = ring_n"
  by (simp add: canonical_poly_def)

lemma ntt_butterfly_zqp:
  assumes "canonical_poly a" "canonical z" "0 < len" "j + len < ring_n"
  shows "canonical_poly (ntt_butterfly z len j a)"
    and "i < ring_n \<Longrightarrow> zqp (ntt_butterfly z len j a) i =
      (if i = j then zqp a j + of_int z * zqp a (j + len) else if i = j + len then zqp a j - of_int z * zqp a (j + len) else zqp a i)"
  using assms canonical_poly_nth [OF assms(1), of j] canonical_poly_nth [OF assms(1), of "j + len"]
  by (auto simp: ntt_butterfly_def Let_def canonical_poly_update canonical_poly_length zqp_update)
     (auto simp: zqp_def)

lemma inv_butterfly_zqp:
  assumes "canonical_poly a" "canonical z" "0 < len" "j + len < ring_n"
  shows "canonical_poly (inv_butterfly z len j a)"
    and "i < ring_n \<Longrightarrow> zqp (inv_butterfly z len j a) i =
      (if i = j then zqp a j + zqp a (j + len) else if i = j + len then of_int z * (zqp a j - zqp a (j + len)) else zqp a i)"
  using assms canonical_poly_nth [OF assms(1), of j] canonical_poly_nth [OF assms(1), of "j + len"]
  by (auto simp: inv_butterfly_def Let_def canonical_poly_update canonical_poly_length zqp_update)
     (auto simp: zqp_def)

lemma block_position:
  fixes B len i :: nat
  assumes "B * (2 * len) \<le> i" "i < B * (2 * len) + 2 * len"
  shows "i div (2 * len) = B" and "i mod (2 * len) = i - B * (2 * len)"
proof -
  have "i = B * (2 * len) + (i - B * (2 * len))" "i - B * (2 * len) < 2 * len" using assms by simp_all
  then show "i div (2 * len) = B" "i mod (2 * len) = i - B * (2 * len)"
    using div_mult_self3 [of "2 * len" B "i - B * (2 * len)"] mod_mult_self3 [of B "2 * len" "i - B * (2 * len)"]
    by (cases "len = 0", simp_all)+
qed

text \<open>
  Both transforms are made of butterflies on the positions \<open>j\<close> and \<open>j + len\<close>. What a layer of butterflies does to every coefficient
  follows from what one butterfly does.
\<close>

locale butterfly =
  fixes bf :: "int \<Rightarrow> nat \<Rightarrow> nat \<Rightarrow> poly \<Rightarrow> poly"
    and G H :: "zq \<Rightarrow> zq \<Rightarrow> zq \<Rightarrow> zq"
  assumes bf_canonical: "canonical_poly a \<Longrightarrow> canonical z \<Longrightarrow> 0 < len \<Longrightarrow> j + len < ring_n \<Longrightarrow> canonical_poly (bf z len j a)"
    and bf_zqp: "canonical_poly a \<Longrightarrow> canonical z \<Longrightarrow> 0 < len \<Longrightarrow> j + len < ring_n \<Longrightarrow> i < ring_n \<Longrightarrow>
      zqp (bf z len j a) i = (if i = j then G (of_int z) (zqp a j) (zqp a (j + len))
        else if i = j + len then H (of_int z) (zqp a j) (zqp a (j + len)) else zqp a i)"
begin

lemma block_zqp:
  assumes "canonical_poly a" "canonical z" "0 < len" "start + 2 * len \<le> ring_n" "m \<le> len"
  shows "canonical_poly (fold (bf z len) [start..<start + m] a) \<and> (\<forall>i < ring_n. zqp (fold (bf z len) [start..<start + m] a) i =
    (if start \<le> i \<and> i < start + m then G (of_int z) (zqp a i) (zqp a (i + len))
     else if start + len \<le> i \<and> i < start + len + m then H (of_int z) (zqp a (i - len)) (zqp a i) else zqp a i))"
  using assms(5)
proof (induction m)
  case 0
  then show ?case using assms by auto
next
  case (Suc m)
  let ?a = "fold (bf z len) [start..<start + m] a"
  have IH: "canonical_poly ?a" "\<And>i. i < ring_n \<Longrightarrow> zqp ?a i =
    (if start \<le> i \<and> i < start + m then G (of_int z) (zqp a i) (zqp a (i + len))
     else if start + len \<le> i \<and> i < start + len + m then H (of_int z) (zqp a (i - len)) (zqp a i) else zqp a i)"
    using Suc by simp_all
  have j: "start + m + len < ring_n" using Suc.prems assms(4) by simp
  have "fold (bf z len) [start..<start + Suc m] a = bf z len (start + m) ?a" by simp
  moreover have "zqp ?a (start + m) = zqp a (start + m)" "zqp ?a (start + m + len) = zqp a (start + m + len)"
    using IH(2) j Suc.prems by simp_all
  moreover have "zqp (bf z len (start + m) ?a) i =
    (if start \<le> i \<and> i < start + Suc m then G (of_int z) (zqp a i) (zqp a (i + len))
     else if start + len \<le> i \<and> i < start + len + Suc m then H (of_int z) (zqp a (i - len)) (zqp a i) else zqp a i)" if i: "i < ring_n" for i
  proof -
    consider "i = start + m" | "i = start + m + len" | "i \<noteq> start + m" "i \<noteq> start + m + len" by blast
    then show ?thesis
    proof cases
      case 3
      then show ?thesis using bf_zqp [OF IH(1) assms(2,3) j i] IH(2) [OF i] by auto
    qed (use bf_zqp [OF IH(1) assms(2,3) j i] calculation Suc.prems assms(3) in auto)
  qed
  ultimately show ?case using bf_canonical [OF IH(1) assms(2,3) j] by simp
qed

definition lay :: "(nat \<Rightarrow> zq) \<Rightarrow> nat \<Rightarrow> (nat \<Rightarrow> zq) \<Rightarrow> nat \<Rightarrow> zq" where
  "lay kz len f i = (if i mod (2 * len) < len then G (kz (i div (2 * len))) (f i) (f (i + len))
     else H (kz (i div (2 * len))) (f (i - len)) (f i))"

lemma layer_zqp:
  assumes "canonical_poly a" "\<And>b. b < ring_n div (2 * len) \<Longrightarrow> canonical (kz b)" "0 < len" "B \<le> ring_n div (2 * len)"
  shows "canonical_poly (fold (\<lambda>b. fold (bf (kz b) len) [b * (2 * len)..<b * (2 * len) + len]) [0..<B] a) \<and>
    (\<forall>i < ring_n. zqp (fold (\<lambda>b. fold (bf (kz b) len) [b * (2 * len)..<b * (2 * len) + len]) [0..<B] a) i =
      (if i < B * (2 * len) then lay (\<lambda>b. of_int (kz b)) len (zqp a) i else zqp a i))"
  using assms(4)
proof (induction B)
  case 0
  then show ?case using assms by simp
next
  case (Suc B)
  let ?a = "fold (\<lambda>b. fold (bf (kz b) len) [b * (2 * len)..<b * (2 * len) + len]) [0..<B] a" and ?s = "B * (2 * len)"
  have IH: "canonical_poly ?a" "\<And>i. i < ring_n \<Longrightarrow> zqp ?a i = (if i < ?s then lay (\<lambda>b. of_int (kz b)) len (zqp a) i else zqp a i)"
    using Suc by simp_all
  have s: "?s + 2 * len \<le> ring_n"
  proof -
    have "Suc B * (2 * len) \<le> ring_n div (2 * len) * (2 * len)" using Suc.prems by (intro mult_le_mono1) simp
    also have "\<dots> \<le> ring_n" by (rule div_times_less_eq_dividend)
    finally show ?thesis by simp
  qed
  have kz: "canonical (kz B)" using assms(2) Suc.prems by simp
  note blk = block_zqp [OF IH(1) kz assms(3) s order_refl]
  have "zqp (fold (bf (kz B) len) [?s..<?s + len] ?a) i = (if i < Suc B * (2 * len) then lay (\<lambda>b. of_int (kz b)) len (zqp a) i else zqp a i)"
    if i: "i < ring_n" for i
  proof -
    consider "i < ?s" | "?s \<le> i" "i < ?s + len" | "?s + len \<le> i" "i < ?s + 2 * len" | "?s + 2 * len \<le> i" by linarith
    then show ?thesis
    proof cases
      case 1
      then show ?thesis using blk i IH(2) [OF i] by simp
    next
      case 2
      then have "i div (2 * len) = B" "i mod (2 * len) < len"
        using block_position [of B len i] by simp_all
      then show ?thesis using 2 blk i IH(2) [OF i] IH(2) [of "i + len"] s by (simp add: lay_def)
    next
      case 3
      then have "i div (2 * len) = B" "\<not> i mod (2 * len) < len"
        using block_position [of B len i] by simp_all
      moreover have "\<not> i - len < ?s" using 3 by linarith
      ultimately show ?thesis using 3 blk i IH(2) [OF i] IH(2) [of "i - len"] s by (simp add: lay_def)
    next
      case 4
      then show ?thesis using blk i IH(2) [OF i] by simp
    qed
  qed
  then show ?case using blk by simp
qed

end

interpretation fwd: butterfly ntt_butterfly "\<lambda>z x y. x + z * y" "\<lambda>z x y. x - z * y"
  by unfold_locales (simp_all add: ntt_butterfly_zqp)

interpretation bwd: butterfly inv_butterfly "\<lambda>z x y. x + y" "\<lambda>z x y. z * (x - y)"
  by unfold_locales (simp_all add: inv_butterfly_zqp)

section \<open>The roots\<close>

lemma brv8_half: "list_all (\<lambda>k. 2 * brv8 (2 * k) = brv8 k \<and> 2 * brv8 (2 * k + 1) = brv8 k + 256) [0..127]"
  by code_simp

lemma brv8_mirror:
  "list_all (\<lambda>m. list_all (\<lambda>b. brv8 (m + b) + brv8 (2 * m - 1 - b) = 256) [0..m - 1]) [1, 2, 4, 8, 16, 32, 64, 128]"
  by code_simp

lemma brv8_range: "list_all (\<lambda>k. 0 \<le> brv8 k \<and> brv8 k < 256) [0..255]"
  by code_simp

lemma ntt_layer_fold:
  "ntt_layer len (k, a) = (k + ring_n div (2 * len),
     fold (\<lambda>b. fold (ntt_butterfly (zetas ! (k + 1 + b)) len) [b * (2 * len)..<b * (2 * len) + len]) [0..<ring_n div (2 * len)] a)"
proof -
  have "fold (\<lambda>start (k, a). (k + 1, ntt_block (zetas ! (k + 1)) len start a)) (map (\<lambda>b. b * (2 * len)) [0..<B]) (k, a) =
    (k + B, fold (\<lambda>b. fold (ntt_butterfly (zetas ! (k + 1 + b)) len) [b * (2 * len)..<b * (2 * len) + len]) [0..<B] a)" for B
    by (induction B) (simp_all add: ntt_block_def)
  then show ?thesis by (simp add: ntt_layer_def starts_def)
qed

lemma inv_layer_fold:
  "inv_layer len (k, a) = (k - ring_n div (2 * len),
     fold (\<lambda>b. fold (inv_butterfly (modq - zetas ! (k - 1 - b)) len) [b * (2 * len)..<b * (2 * len) + len]) [0..<ring_n div (2 * len)] a)"
proof -
  have "fold (\<lambda>start (k, a). (k - 1, inv_block (modq - zetas ! (k - 1)) len start a)) (map (\<lambda>b. b * (2 * len)) [0..<B]) (k, a) =
    (k - B, fold (\<lambda>b. fold (inv_butterfly (modq - zetas ! (k - 1 - b)) len) [b * (2 * len)..<b * (2 * len) + len]) [0..<B] a)" for B
    by (induction B) (simp_all add: inv_block_def)
  then show ?thesis by (simp add: inv_layer_def starts_def)
qed

lemma zeta_pow_zq:
  assumes "canonical r" "canonical b" "0 \<le> e"
  shows "canonical (zeta_pow r b e) \<and> (of_int (zeta_pow r b e) :: zq) = of_int r * of_int b ^ nat e"
  using assms
proof (induction r b e rule: zeta_pow.induct)
  case (1 r b e)
  have red: "canonical ((x * y) smod modq)" "(of_int ((x * y) smod modq) :: zq) = of_int x * of_int y" if "canonical x" "canonical y" for x y
    using that by (simp_all add: canonical_def smod_nonneg)
  show ?case
  proof (cases "e \<le> 0")
    case True
    then have "e = 0" "zeta_pow r b e = r" using "1.prems" zeta_pow.simps [of r b e] by simp_all
    then show ?thesis using "1.prems" by simp
  next
    case False
    let ?r = "if e AND 1 = 1 then (r * b) smod modq else r"
    have IH: "canonical (zeta_pow r b e)" "(of_int (zeta_pow r b e) :: zq) = of_int ?r * (of_int b * of_int b) ^ nat (drop_bit 1 e)"
      using "1.IH" [OF False] "1.prems" False red(1) [of r b] red [of b b] by (simp_all add: zeta_pow.simps [of r b e])
    have "of_int ?r * (of_int b * of_int b) ^ nat (drop_bit 1 e) = (of_int r * of_int b ^ nat e :: zq)"
    proof (cases "odd e")
      case True
      then have "nat e = Suc (2 * nat (e div 2))" using False by (elim oddE) simp
      then show ?thesis using True red(2) [of r b] "1.prems"
        by (simp add: and_one_eq odd_iff_mod_2_eq_one drop_bit_eq_div power_mult power2_eq_square mult.assoc)
    next
      case even: False
      then have "e = 2 * (e div 2)" by simp
      then have "nat e = 2 * nat (e div 2)" using False by linarith
      then show ?thesis using even by (simp add: and_one_eq even_iff_mod_2_eq_zero drop_bit_eq_div power_mult power2_eq_square)
    qed
    then show ?thesis using IH by simp
  qed
qed

definition root :: zq where "root = of_int zeta_c"

lemma zq_square: "(of_int x :: zq) ^ 2 = of_int (x * x mod modq)"
  by (simp add: power2_eq_square)

lemma root_256: "root ^ 256 = - 1"
proof -
  have "root ^ 2 = of_int 3073009" unfolding root_def by (simp add: zq_square)
  then have "root ^ 4 = of_int 3602218" using power_mult [of root 2 2] by (simp add: zq_square)
  then have "root ^ 8 = of_int 5010068" using power_mult [of root 4 2] by (simp add: zq_square)
  then have "root ^ 16 = of_int 7778734" using power_mult [of root 8 2] by (simp add: zq_square)
  then have "root ^ 32 = of_int 5178923" using power_mult [of root 16 2] by (simp add: zq_square)
  then have "root ^ 64 = of_int 3765607" using power_mult [of root 32 2] by (simp add: zq_square)
  then have "root ^ 128 = of_int 4808194" using power_mult [of root 64 2] by (simp add: zq_square)
  then have "root ^ 256 = of_int 8380416" using power_mult [of root 128 2] by (simp add: zq_square)
  moreover have "(of_int (modq - 1) :: zq) = of_int (- 1)" by (simp only: zq_cong) simp
  ultimately show ?thesis by simp
qed

lemma brv8_bound: "k < ring_n \<Longrightarrow> 0 \<le> brv8 (int k) \<and> brv8 (int k) < 256"
  using brv8_range by (simp add: list_all_iff)

lemma zetas_zq: "k < ring_n \<Longrightarrow> (of_int (zetas ! k) :: zq) = root ^ nat (brv8 (int k))"
  using brv8_bound [of k] zeta_pow_zq [of 1 zeta_c "brv8 (int k)"] by (simp add: zetas_def root_def canonical_def)

lemma zetas_canonical: "k < ring_n \<Longrightarrow> canonical (zetas ! k)"
  using brv8_bound [of k] zeta_pow_zq [of 1 zeta_c "brv8 (int k)"] by (simp add: zetas_def canonical_def)

lemma neg_zeta_canonical: "k < ring_n \<Longrightarrow> canonical (modq - zetas ! k)"
proof -
  assume k: "k < ring_n"
  have "zetas ! k \<noteq> 0"
  proof
    assume "zetas ! k = 0"
    then have z: "root ^ nat (brv8 (int k)) = 0" using zetas_zq [OF k] by simp
    have "nat (brv8 (int k)) + (256 - nat (brv8 (int k))) = 256" using brv8_bound [OF k] by linarith
    then have "root ^ 256 = 0" using z power_add [of root "nat (brv8 (int k))" "256 - nat (brv8 (int k))"] by simp
    then show False using root_256 by simp
  qed
  then show ?thesis using zetas_canonical [OF k] by (simp add: canonical_def)
qed

lemma neg_zeta_zq: "(of_int (modq - x) :: zq) = - of_int x"
proof -
  have "(of_int (modq - x) :: zq) = of_int (- x)" by (simp only: zq_cong) (simp add: mod_diff_eq minus_mod_self2 algebra_simps)
  then show ?thesis by simp
qed

definition levels :: "nat list" where "levels = [1, 2, 4, 8, 16, 32, 64, 128]"

lemma zetas_mirror:
  assumes "m \<in> set levels" "b < m"
  shows "(of_int (zetas ! (m + b)) :: zq) * of_int (zetas ! (2 * m - 1 - b)) = - 1"
proof -
  have m: "m \<le> 128" using assms(1) by (auto simp: levels_def)
  have "brv8 (int m + int b) + brv8 (2 * int m - 1 - int b) = 256"
    using brv8_mirror assms by (auto simp: levels_def list_all_iff)
  moreover have "int (m + b) = int m + int b" "int (2 * m - 1 - b) = 2 * int m - 1 - int b" using assms(2) by simp_all
  ultimately have "brv8 (int (m + b)) + brv8 (int (2 * m - 1 - b)) = 256" by (simp only:)
  moreover have "0 \<le> brv8 (int (m + b))" "0 \<le> brv8 (int (2 * m - 1 - b))" using m assms(2) brv8_bound [of "m + b"] brv8_bound [of "2 * m - 1 - b"] by linarith+
  ultimately have "nat (brv8 (int (m + b))) + nat (brv8 (int (2 * m - 1 - b))) = 256" by linarith
  then show ?thesis using zetas_zq [of "m + b"] zetas_zq [of "2 * m - 1 - b"] m assms(2) root_256
    by (simp add: power_add [symmetric])
qed

section \<open>The transforms are inverse to each other\<close>

text \<open>The two layers with \<open>m\<close> blocks, as maps of the coefficients.\<close>

definition half :: "nat \<Rightarrow> nat" where "half m = 128 div m"

definition fwd_lay :: "nat \<Rightarrow> (nat \<Rightarrow> zq) \<Rightarrow> nat \<Rightarrow> zq" where
  "fwd_lay m = fwd.lay (\<lambda>b. of_int (zetas ! (m + b))) (half m)"

definition bwd_lay :: "nat \<Rightarrow> (nat \<Rightarrow> zq) \<Rightarrow> nat \<Rightarrow> zq" where
  "bwd_lay m = bwd.lay (\<lambda>b. - of_int (zetas ! (2 * m - 1 - b))) (half m)"

lemma level_facts:
  assumes "m \<in> set levels"
  shows "0 < half m" "ring_n div (2 * half m) = m" "2 * half m * m = ring_n" "m \<le> 128"
  using assms by (auto simp: levels_def half_def)

lemma ntt_layer_zqp:
  assumes "m \<in> set levels" "canonical_poly a"
  obtains a' where "ntt_layer (half m) (m - 1, a) = (2 * m - 1, a')" "canonical_poly a'" "\<And>i. i < ring_n \<Longrightarrow> zqp a' i = fwd_lay m (zqp a) i"
proof -
  note lf = level_facts [OF assms(1)]
  have m: "0 < m" using assms(1) by (auto simp: levels_def)
  have z: "canonical (zetas ! (m - 1 + 1 + b))" if "b < ring_n div (2 * half m)" for b
    using that m lf zetas_canonical [of "m + b"] by simp
  have "m - 1 + m = 2 * m - 1" using m by simp
  moreover have "i < m * (2 * half m)" if "i < ring_n" for i using that lf(3) by (simp add: mult.commute mult.left_commute)
  ultimately show thesis
    using that [of "fold (\<lambda>b. fold (ntt_butterfly (zetas ! (m - 1 + 1 + b)) (half m)) [b * (2 * half m)..<b * (2 * half m) + half m]) [0..<m] a"]
      fwd.layer_zqp [OF assms(2), where kz = "\<lambda>b. zetas ! (m - 1 + 1 + b)", OF z lf(1) order_refl] m lf(2)
    unfolding ntt_layer_fold fwd_lay_def by simp
qed

lemma inv_layer_zqp:
  assumes "m \<in> set levels" "canonical_poly a"
  obtains a' where "inv_layer (half m) (2 * m, a) = (m, a')" "canonical_poly a'" "\<And>i. i < ring_n \<Longrightarrow> zqp a' i = bwd_lay m (zqp a) i"
proof -
  note lf = level_facts [OF assms(1)]
  have z: "canonical (modq - zetas ! (2 * m - 1 - b))" if "b < ring_n div (2 * half m)" for b
    using that lf neg_zeta_canonical [of "2 * m - 1 - b"] by simp
  have "i < m * (2 * half m)" if "i < ring_n" for i using that lf(3) by (simp add: mult.commute mult.left_commute)
  then show thesis
    using that [of "fold (\<lambda>b. fold (inv_butterfly (modq - zetas ! (2 * m - 1 - b)) (half m)) [b * (2 * half m)..<b * (2 * half m) + half m]) [0..<m] a"]
      bwd.layer_zqp [OF assms(2), where kz = "\<lambda>b. modq - zetas ! (2 * m - 1 - b)", OF z lf(1) order_refl] lf(2)
    unfolding inv_layer_fold bwd_lay_def neg_zeta_zq by simp
qed

text \<open>Positions of a pair within their block.\<close>

lemma pair_low:
  fixes i len :: nat
  assumes "i mod (2 * len) < len"
  shows "(i + len) mod (2 * len) = i mod (2 * len) + len" "(i + len) div (2 * len) = i div (2 * len)"
proof -
  have l: "0 < len" using assms by simp
  have i: "i = i div (2 * len) * (2 * len) + i mod (2 * len)" by (rule div_mult_mod_eq [symmetric])
  have 1: "i div (2 * len) * (2 * len) \<le> i + len" using i by linarith
  have 2: "i + len < i div (2 * len) * (2 * len) + 2 * len" using i assms by linarith
  show "(i + len) div (2 * len) = i div (2 * len)" by (rule block_position(1) [OF 1 2])
  show "(i + len) mod (2 * len) = i mod (2 * len) + len" using block_position(2) [OF 1 2] i by linarith
qed

lemma pair_high:
  fixes i len :: nat
  assumes "\<not> i mod (2 * len) < len" "0 < len"
  shows "(i - len) mod (2 * len) < len" "(i - len) div (2 * len) = i div (2 * len)" "len \<le> i"
proof -
  have i: "i = i div (2 * len) * (2 * len) + i mod (2 * len)" by (rule div_mult_mod_eq [symmetric])
  have lt: "i mod (2 * len) < 2 * len" using assms(2) by simp
  show "len \<le> i" using i assms(1) by linarith
  have 1: "i div (2 * len) * (2 * len) \<le> i - len" using i assms(1) by linarith
  have 2: "i - len < i div (2 * len) * (2 * len) + 2 * len" using i lt assms(2) by linarith
  show "(i - len) div (2 * len) = i div (2 * len)" by (rule block_position(1) [OF 1 2])
  show "(i - len) mod (2 * len) < len" using block_position(2) [OF 1 2] i lt by linarith
qed

lemma bwd_fwd_lay:
  assumes "m \<in> set levels" "i < ring_n"
  shows "bwd_lay m (fwd_lay m f) i = 2 * f i" "fwd_lay m (bwd_lay m f) i = 2 * f i"
proof -
  note lf = level_facts [OF assms(1)]
  let ?b = "i div (2 * half m)"
  have "i < m * (2 * half m)" using assms(2) lf(3) by (simp only: mult.commute)
  then have b: "?b < m" by (rule less_mult_imp_div_less)
  have z: "(of_int (zetas ! (m + ?b)) :: zq) * - of_int (zetas ! (2 * m - 1 - ?b)) = 1"
    using zetas_mirror [OF assms(1) b] by simp
  then have z': "- of_int (zetas ! (2 * m - 1 - ?b)) * (of_int (zetas ! (m + ?b)) :: zq) = 1" by (simp add: mult.commute)
  show "bwd_lay m (fwd_lay m f) i = 2 * f i"
  proof (cases "i mod (2 * half m) < half m")
    case True
    then show ?thesis using pair_low [OF True] by (simp add: bwd_lay_def fwd_lay_def bwd.lay_def fwd.lay_def)
  next
    case False
    have "bwd_lay m (fwd_lay m f) i = (- of_int (zetas ! (2 * m - 1 - ?b)) * of_int (zetas ! (m + ?b))) * (2 * f i)"
      using False pair_high [OF False lf(1)] unfolding bwd_lay_def fwd_lay_def bwd.lay_def fwd.lay_def by (simp add: algebra_simps)
    then show ?thesis unfolding z' by simp
  qed
  show "fwd_lay m (bwd_lay m f) i = 2 * f i"
  proof (cases "i mod (2 * half m) < half m")
    case True
    have "fwd_lay m (bwd_lay m f) i = f i + f (i + half m) + (of_int (zetas ! (m + ?b)) * - of_int (zetas ! (2 * m - 1 - ?b))) * (f i - f (i + half m))"
      using True pair_low [OF True] unfolding bwd_lay_def fwd_lay_def bwd.lay_def fwd.lay_def by (simp add: algebra_simps)
    then show ?thesis unfolding z by simp
  next
    case False
    have "fwd_lay m (bwd_lay m f) i = f (i - half m) + f i - (of_int (zetas ! (m + ?b)) * - of_int (zetas ! (2 * m - 1 - ?b))) * (f (i - half m) - f i)"
      using False pair_high [OF False lf(1)] unfolding bwd_lay_def fwd_lay_def bwd.lay_def fwd.lay_def by (simp add: algebra_simps)
    then show ?thesis unfolding z by simp
  qed
qed

lemma lay_cong:
  assumes "m \<in> set levels" "i < ring_n" "\<And>i. i < ring_n \<Longrightarrow> f i = g i"
  shows "fwd_lay m f i = fwd_lay m g i" "bwd_lay m f i = bwd_lay m g i"
proof -
  note lf = level_facts [OF assms(1)]
  have low: "f (i + half m) = g (i + half m)" if "i mod (2 * half m) < half m"
  proof -
    have "i div (2 * half m) < m" using assms(2) lf(3) by (intro less_mult_imp_div_less) (simp only: mult.commute)
    then have "Suc (i div (2 * half m)) * (2 * half m) \<le> m * (2 * half m)" by (intro mult_le_mono1) simp
    moreover have "Suc (i div (2 * half m)) * (2 * half m) = i div (2 * half m) * (2 * half m) + 2 * half m" by simp
    moreover have "m * (2 * half m) = ring_n" using lf(3) by (simp only: mult.commute)
    ultimately have "i + half m < ring_n" using div_mult_mod_eq [of i "2 * half m"] that by linarith
    then show ?thesis by (rule assms(3))
  qed
  have "f (i - half m) = g (i - half m)" using assms(2) by (intro assms(3)) simp
  then show "fwd_lay m f i = fwd_lay m g i" "bwd_lay m f i = bwd_lay m g i"
    using low assms(3) [OF assms(2)] unfolding fwd_lay_def bwd_lay_def fwd.lay_def bwd.lay_def by auto
qed

lemma lay_linear:
  "fwd_lay m (\<lambda>i. c * f i + g i) i = c * fwd_lay m f i + fwd_lay m g i"
  "bwd_lay m (\<lambda>i. c * f i + g i) i = c * bwd_lay m f i + bwd_lay m g i"
  unfolding fwd_lay_def bwd_lay_def fwd.lay_def bwd.lay_def by (simp_all add: algebra_simps)

text \<open>The transforms of the code are the products of their eight layers.\<close>

definition fwd_all :: "(nat \<Rightarrow> zq) \<Rightarrow> nat \<Rightarrow> zq" where "fwd_all f = fold fwd_lay levels f"
definition bwd_all :: "(nat \<Rightarrow> zq) \<Rightarrow> nat \<Rightarrow> zq" where "bwd_all f = foldr bwd_lay levels f"

lemma fwd_fold_cong:
  "set ms \<subseteq> set levels \<Longrightarrow> (\<And>i. i < ring_n \<Longrightarrow> f i = g i) \<Longrightarrow> i < ring_n \<Longrightarrow> fold fwd_lay ms f i = fold fwd_lay ms g i"
proof (induction ms arbitrary: f g)
  case (Cons m ms)
  have "fwd_lay m f i = fwd_lay m g i" if "i < ring_n" for i using lay_cong(1) [of m i f g] Cons.prems that by simp
  then show ?case using Cons.IH [of "fwd_lay m f" "fwd_lay m g"] Cons.prems by simp
qed simp

lemma bwd_fold_cong:
  "set ms \<subseteq> set levels \<Longrightarrow> (\<And>i. i < ring_n \<Longrightarrow> f i = g i) \<Longrightarrow> i < ring_n \<Longrightarrow> foldr bwd_lay ms f i = foldr bwd_lay ms g i"
proof (induction ms arbitrary: i)
  case (Cons m ms)
  have m: "m \<in> set levels" using Cons.prems by simp
  have "foldr bwd_lay ms f i = foldr bwd_lay ms g i" if "i < ring_n" for i using Cons.IH [OF _ Cons.prems(2) that] Cons.prems(1) by simp
  then show ?case unfolding foldr.simps comp_apply by (rule lay_cong(2) [OF m Cons.prems(3)])
qed simp

lemma lay_scale:
  "fwd_lay m (\<lambda>i. c * f i) = (\<lambda>i. c * fwd_lay m f i)" "bwd_lay m (\<lambda>i. c * f i) = (\<lambda>i. c * bwd_lay m f i)"
  unfolding fwd_lay_def bwd_lay_def fwd.lay_def bwd.lay_def by (intro ext, simp add: algebra_simps)+

lemma fwd_fold_scale: "fold fwd_lay ms (\<lambda>i. c * f i) = (\<lambda>i. c * fold fwd_lay ms f i)"
  by (induction ms arbitrary: f) (simp_all only: fold_simps lay_scale)

lemma bwd_fwd_fold:
  "set ms \<subseteq> set levels \<Longrightarrow> i < ring_n \<Longrightarrow> foldr bwd_lay ms (fold fwd_lay ms f) i = 2 ^ length ms * f i"
proof (induction ms arbitrary: f i)
  case (Cons m ms)
  have m: "m \<in> set levels" using Cons.prems by simp
  have "foldr bwd_lay ms (fold fwd_lay ms (fwd_lay m f)) j = 2 ^ length ms * fwd_lay m f j" if "j < ring_n" for j
    using Cons that by simp
  then have "bwd_lay m (foldr bwd_lay ms (fold fwd_lay ms (fwd_lay m f))) i = bwd_lay m (\<lambda>j. 2 ^ length ms * fwd_lay m f j) i"
    by (intro lay_cong(2) [OF m Cons.prems(2)])
  also have "\<dots> = 2 ^ length ms * (2 * f i)" unfolding lay_scale bwd_fwd_lay(1) [OF m Cons.prems(2)] by (rule refl)
  finally show ?case by (simp only: foldr.simps fold_simps comp_apply list.size power_Suc2 power_Suc add_Suc_right add_0_right mult.assoc One_nat_def)
qed simp

lemma fwd_bwd_fold:
  "set ms \<subseteq> set levels \<Longrightarrow> i < ring_n \<Longrightarrow> fold fwd_lay ms (foldr bwd_lay ms f) i = 2 ^ length ms * f i"
proof (induction ms arbitrary: i)
  case (Cons m ms)
  have m: "m \<in> set levels" using Cons.prems by simp
  have "fwd_lay m (bwd_lay m (foldr bwd_lay ms f)) j = 2 * foldr bwd_lay ms f j" if "j < ring_n" for j
    by (rule bwd_fwd_lay(2) [OF m that])
  then have "fold fwd_lay ms (fwd_lay m (bwd_lay m (foldr bwd_lay ms f))) i = fold fwd_lay ms (\<lambda>j. 2 * foldr bwd_lay ms f j) i"
    using Cons.prems by (intro fwd_fold_cong) auto
  also have "\<dots> = 2 * (2 ^ length ms * f i)" unfolding fwd_fold_scale using Cons by simp
  finally show ?case by (simp only: foldr.simps fold_simps comp_apply list.size power_Suc add_Suc_right add_0_right mult.assoc One_nat_def)
qed simp

lemma ntt_zqp:
  assumes "canonical_poly a"
  shows "canonical_poly (ntt a)" and "i < ring_n \<Longrightarrow> zqp (ntt a) i = fwd_all (zqp a) i"
proof -
  have step: "\<exists>a'. ntt_from (half m) (m - 1, b) = ntt_from (half m div 2) (2 * m - 1, a') \<and> canonical_poly a' \<and> (\<forall>i < ring_n. zqp a' i = fwd_lay m g i)"
    if m: "m \<in> set levels" and b: "canonical_poly b" and g: "\<forall>i < ring_n. zqp b i = g i" for m b g
  proof -
    obtain a' where a': "ntt_layer (half m) (m - 1, b) = (2 * m - 1, a')" "canonical_poly a'" "\<And>i. i < ring_n \<Longrightarrow> zqp a' i = fwd_lay m (zqp b) i"
      using ntt_layer_zqp [OF m b] by blast
    have "fwd_lay m (zqp b) i = fwd_lay m g i" if "i < ring_n" for i
      using lay_cong(1) [OF m that, of "zqp b" g] g by simp
    then show ?thesis using a' level_facts(1) [OF m] ntt_from.simps [of "half m" "(m - 1, b)"]
      by (intro exI [of _ a']) auto
  qed
  obtain a1 where 1: "ntt_from 128 (0, a) = ntt_from 64 (1, a1)" "canonical_poly a1" "\<forall>i < ring_n. zqp a1 i = fwd_lay 1 (zqp a) i"
    using step [of 1 a "zqp a"] assms by (auto simp: half_def levels_def)
  obtain a2 where 2: "ntt_from 64 (1, a1) = ntt_from 32 (3, a2)" "canonical_poly a2" "\<forall>i < ring_n. zqp a2 i = fold fwd_lay [1, 2] (zqp a) i"
    using step [OF _ 1(2,3), of 2] by (auto simp: half_def levels_def)
  obtain a3 where 3: "ntt_from 32 (3, a2) = ntt_from 16 (7, a3)" "canonical_poly a3" "\<forall>i < ring_n. zqp a3 i = fold fwd_lay [1, 2, 4] (zqp a) i"
    using step [OF _ 2(2,3), of 4] by (auto simp: half_def levels_def)
  obtain a4 where 4: "ntt_from 16 (7, a3) = ntt_from 8 (15, a4)" "canonical_poly a4" "\<forall>i < ring_n. zqp a4 i = fold fwd_lay [1, 2, 4, 8] (zqp a) i"
    using step [OF _ 3(2,3), of 8] by (auto simp: half_def levels_def)
  obtain a5 where 5: "ntt_from 8 (15, a4) = ntt_from 4 (31, a5)" "canonical_poly a5" "\<forall>i < ring_n. zqp a5 i = fold fwd_lay [1, 2, 4, 8, 16] (zqp a) i"
    using step [OF _ 4(2,3), of 16] by (auto simp: half_def levels_def)
  obtain a6 where 6: "ntt_from 4 (31, a5) = ntt_from 2 (63, a6)" "canonical_poly a6" "\<forall>i < ring_n. zqp a6 i = fold fwd_lay [1, 2, 4, 8, 16, 32] (zqp a) i"
    using step [OF _ 5(2,3), of 32] by (auto simp: half_def levels_def)
  obtain a7 where 7: "ntt_from 2 (63, a6) = ntt_from 1 (127, a7)" "canonical_poly a7" "\<forall>i < ring_n. zqp a7 i = fold fwd_lay [1, 2, 4, 8, 16, 32, 64] (zqp a) i"
    using step [OF _ 6(2,3), of 64] by (auto simp: half_def levels_def)
  obtain a8 where 8: "ntt_from 1 (127, a7) = ntt_from 0 (255, a8)" "canonical_poly a8" "\<forall>i < ring_n. zqp a8 i = fold fwd_lay levels (zqp a) i"
    using step [OF _ 7(2,3), of 128] by (auto simp: half_def levels_def)
  have "ntt a = a8" using 1(1) 2(1) 3(1) 4(1) 5(1) 6(1) 7(1) 8(1) ntt_from.simps [of 0 "(255, a8)"] by (simp add: ntt_def)
  then show "canonical_poly (ntt a)" "i < ring_n \<Longrightarrow> zqp (ntt a) i = fwd_all (zqp a) i"
    using 8(2,3) by (simp_all add: fwd_all_def)
qed

lemma inv_layers_zqp:
  assumes "canonical_poly a"
  shows "\<exists>a'. inv_from 1 (ring_n, a) = (1, a') \<and> canonical_poly a' \<and> (\<forall>i < ring_n. zqp a' i = bwd_all (zqp a) i)"
proof -
  have step: "\<exists>a'. inv_from (half m) (2 * m, b) = inv_from (2 * half m) (m, a') \<and> canonical_poly a' \<and> (\<forall>i < ring_n. zqp a' i = bwd_lay m g i)"
    if m: "m \<in> set levels" and b: "canonical_poly b" and g: "\<forall>i < ring_n. zqp b i = g i" for m b g
  proof -
    obtain a' where a': "inv_layer (half m) (2 * m, b) = (m, a')" "canonical_poly a'" "\<And>i. i < ring_n \<Longrightarrow> zqp a' i = bwd_lay m (zqp b) i"
      using inv_layer_zqp [OF m b] by blast
    have "bwd_lay m (zqp b) i = bwd_lay m g i" if "i < ring_n" for i
      using lay_cong(2) [OF m that, of "zqp b" g] g by simp
    moreover have "half m < ring_n" using m by (auto simp: levels_def half_def)
    ultimately show ?thesis using a' level_facts(1) [OF m] inv_from.simps [of "half m" "(2 * m, b)"]
      by (intro exI [of _ a']) auto
  qed
  obtain a1 where 1: "inv_from 1 (256, a) = inv_from 2 (128, a1)" "canonical_poly a1" "\<forall>i < ring_n. zqp a1 i = bwd_lay 128 (zqp a) i"
    using step [of 128 a "zqp a"] assms by (auto simp: half_def levels_def)
  obtain a2 where 2: "inv_from 2 (128, a1) = inv_from 4 (64, a2)" "canonical_poly a2" "\<forall>i < ring_n. zqp a2 i = foldr bwd_lay [64, 128] (zqp a) i"
    using step [OF _ 1(2,3), of 64] by (auto simp: half_def levels_def)
  obtain a3 where 3: "inv_from 4 (64, a2) = inv_from 8 (32, a3)" "canonical_poly a3" "\<forall>i < ring_n. zqp a3 i = foldr bwd_lay [32, 64, 128] (zqp a) i"
    using step [OF _ 2(2,3), of 32] by (auto simp: half_def levels_def)
  obtain a4 where 4: "inv_from 8 (32, a3) = inv_from 16 (16, a4)" "canonical_poly a4" "\<forall>i < ring_n. zqp a4 i = foldr bwd_lay [16, 32, 64, 128] (zqp a) i"
    using step [OF _ 3(2,3), of 16] by (auto simp: half_def levels_def)
  obtain a5 where 5: "inv_from 16 (16, a4) = inv_from 32 (8, a5)" "canonical_poly a5" "\<forall>i < ring_n. zqp a5 i = foldr bwd_lay [8, 16, 32, 64, 128] (zqp a) i"
    using step [OF _ 4(2,3), of 8] by (auto simp: half_def levels_def)
  obtain a6 where 6: "inv_from 32 (8, a5) = inv_from 64 (4, a6)" "canonical_poly a6" "\<forall>i < ring_n. zqp a6 i = foldr bwd_lay [4, 8, 16, 32, 64, 128] (zqp a) i"
    using step [OF _ 5(2,3), of 4] by (auto simp: half_def levels_def)
  obtain a7 where 7: "inv_from 64 (4, a6) = inv_from 128 (2, a7)" "canonical_poly a7" "\<forall>i < ring_n. zqp a7 i = foldr bwd_lay [2, 4, 8, 16, 32, 64, 128] (zqp a) i"
    using step [OF _ 6(2,3), of 2] by (auto simp: half_def levels_def)
  obtain a8 where 8: "inv_from 128 (2, a7) = inv_from 256 (1, a8)" "canonical_poly a8" "\<forall>i < ring_n. zqp a8 i = foldr bwd_lay levels (zqp a) i"
    using step [OF _ 7(2,3), of 1] by (auto simp: half_def levels_def)
  have "inv_from 1 (256, a) = (1, a8)" using 1(1) 2(1) 3(1) 4(1) 5(1) 6(1) 7(1) 8(1) inv_from.simps [of 256 "(1, a8)"] by simp
  then show ?thesis using 8(2,3) by (simp add: bwd_all_def)
qed

lemma nInv_zq: "(of_int nInv :: zq) * 256 = 1"
proof -
  have "(of_int (nInv * 256) :: zq) = of_int 1" by (simp only: zq_cong) simp
  then show ?thesis by (simp only: of_int_mult of_int_numeral of_int_1)
qed

lemma invNTT_zqp:
  assumes "canonical_poly a"
  shows "canonical_poly (invNTT a)" and "i < ring_n \<Longrightarrow> zqp (invNTT a) i = of_int nInv * bwd_all (zqp a) i"
proof -
  obtain a' where a': "inv_from 1 (ring_n, a) = (1, a')" "canonical_poly a'" "\<forall>i < ring_n. zqp a' i = bwd_all (zqp a) i"
    using inv_layers_zqp [OF assms] by blast
  have n: "canonical nInv" by (simp add: canonical_def)
  have "invNTT a = map (mulQ nInv) a'" using a'(1) by (simp add: invNTT_def)
  then show "canonical_poly (invNTT a)" "i < ring_n \<Longrightarrow> zqp (invNTT a) i = of_int nInv * bwd_all (zqp a) i"
    using a'(2,3) n canonical_poly_length [OF a'(2)] canonical_poly_nth [OF a'(2)]
    by (auto simp: canonical_poly_def zqp_def)
qed

text \<open>The transforms are inverse to each other on canonical polynomials.\<close>

lemma invNTT_ntt: "canonical_poly a \<Longrightarrow> invNTT (ntt a) = a"
proof (rule zqp_inject)
  assume a: "canonical_poly a"
  note n = ntt_zqp [OF a]
  show "canonical_poly (invNTT (ntt a))" "canonical_poly a" using a invNTT_zqp(1) n(1) by simp_all
  fix i assume i: "i < ring_n"
  have "bwd_all (zqp (ntt a)) i = bwd_all (fwd_all (zqp a)) i"
    unfolding bwd_all_def by (rule bwd_fold_cong [OF _ _ i]) (simp_all add: n(2))
  also have "\<dots> = 2 ^ length levels * zqp a i" unfolding bwd_all_def fwd_all_def by (rule bwd_fwd_fold [OF _ i]) simp
  also have "2 ^ length levels = (256 :: zq)" by (simp add: levels_def)
  finally have "zqp (invNTT (ntt a)) i = (of_int nInv * 256) * zqp a i" unfolding invNTT_zqp(2) [OF n(1) i] by (simp only: mult.assoc)
  then show "zqp (invNTT (ntt a)) i = zqp a i" unfolding nInv_zq by simp
qed

lemma ntt_invNTT: "canonical_poly a \<Longrightarrow> ntt (invNTT a) = a"
proof (rule zqp_inject)
  assume a: "canonical_poly a"
  note n = invNTT_zqp [OF a]
  show "canonical_poly (ntt (invNTT a))" "canonical_poly a" using a ntt_zqp(1) n(1) by simp_all
  fix i assume i: "i < ring_n"
  have "fwd_all (zqp (invNTT a)) i = fwd_all (\<lambda>i. of_int nInv * bwd_all (zqp a) i) i"
    unfolding fwd_all_def by (rule fwd_fold_cong [OF _ _ i]) (simp_all add: n(2))
  also have "\<dots> = of_int nInv * (2 ^ length levels * zqp a i)"
    unfolding bwd_all_def fwd_all_def fwd_fold_scale fwd_bwd_fold [OF subset_refl i] by (rule refl)
  also have "2 ^ length levels = (256 :: zq)" by (simp add: levels_def)
  finally have "zqp (ntt (invNTT a)) i = (of_int nInv * 256) * zqp a i" unfolding ntt_zqp(2) [OF n(1) i] by (simp only: mult.assoc)
  then show "zqp (ntt (invNTT a)) i = zqp a i" unfolding nInv_zq by simp
qed

section \<open>The transform evaluates\<close>

text \<open>The polynomial \<open>X^256 + 1\<close> splits along a binary tree; node \<open>m\<close> stands for \<open>X^n - node m\<close>.\<close>

definition node :: "nat \<Rightarrow> zq" where
  "node m = (if m \<le> 1 then - 1 else if even m then of_int (zetas ! (m div 2)) else - of_int (zetas ! (m div 2)))"

lemma zeta_square:
  assumes "1 \<le> k" "k < ring_n"
  shows "(of_int (zetas ! k) :: zq) ^ 2 = node k"
proof -
  have Z: "(of_int (zetas ! k) :: zq) ^ 2 = root ^ nat (2 * brv8 (int k))"
    using zetas_zq [OF assms(2)] brv8_bound [OF assms(2)] by (simp add: nat_mult_distrib power_mult [symmetric] mult.commute)
  define j where "j = k div 2"
  have j: "j < 128" using assms(2) by (simp add: j_def)
  have h: "2 * brv8 (2 * int j) = brv8 (int j)" "2 * brv8 (2 * int j + 1) = brv8 (int j) + 256"
    using brv8_half j by (simp_all add: list_all_iff)
  have b: "0 \<le> brv8 (int j)" using brv8_bound [of j] j by simp
  show ?thesis
  proof (cases "even k")
    case True
    then have k: "k = 2 * j" "\<not> k \<le> 1" using assms(1) by (auto simp: j_def)
    then have "int k = 2 * int j" by simp
    then show ?thesis using Z h(1) k zetas_zq [of j] j by (simp add: node_def)
  next
    case False
    then have k: "k = 2 * j + 1" by (auto simp: j_def)
    then have "int k = 2 * int j + 1" by simp
    then have Z': "(of_int (zetas ! k) :: zq) ^ 2 = root ^ nat (brv8 (int j)) * root ^ 256"
      using Z h(2) b by (simp add: nat_add_distrib power_add)
    show ?thesis
    proof (cases "j = 0")
      case True
      have "brv8 0 = 0" by (simp add: brv8_def)
      then show ?thesis using Z' True k root_256 by (simp add: node_def)
    next
      case False
      then show ?thesis using Z' k zetas_zq [of j] j root_256 by (simp add: node_def)
    qed
  qed
qed

lemma node_square:
  assumes "2 \<le> m" "m < 512"
  shows "node m ^ 2 = node (m div 2)"
  using zeta_square [of "m div 2"] assms by (auto simp: node_def [of m])

lemma node_power: "m < 512 \<Longrightarrow> 1 \<le> m div 2 ^ s \<Longrightarrow> node m ^ (2 ^ s) = node (m div 2 ^ s)"
proof (induction s)
  case (Suc s)
  have "m div 2 ^ Suc s = m div 2 ^ s div 2" unfolding power_Suc2 by (rule div_mult2_eq)
  moreover have "2 \<le> m div 2 ^ s" using Suc.prems(2) calculation by linarith
  moreover have "m div 2 ^ s < 512" using Suc.prems(1) div_le_dividend [of m "2 ^ s"] by linarith
  moreover have "node m ^ (2 ^ Suc s) = (node m ^ (2 ^ s)) ^ 2" by (simp only: power_mult [symmetric] power_Suc2)
  ultimately show ?case using Suc node_square [of "m div 2 ^ s"] by simp
qed simp

definition evaluate :: "nat \<Rightarrow> (nat \<Rightarrow> zq) \<Rightarrow> zq \<Rightarrow> zq" where
  "evaluate n f x = (\<Sum>r<n. f r * x ^ r)"

lemma evaluate_split: "evaluate (L + L) f x = evaluate L f x + x ^ L * evaluate L (\<lambda>r. f (L + r)) x"
proof -
  have "evaluate (L + n) f x = evaluate L f x + x ^ L * evaluate n (\<lambda>r. f (L + r)) x" for n
    by (induction n) (simp_all add: evaluate_def algebra_simps power_add)
  then show ?thesis by simp
qed

lemma fwd_lay_evaluate:
  assumes "m \<in> set levels" "i < ring_n" "x ^ half m = node (2 * m + i div half m)"
  shows "evaluate (half m) (\<lambda>r. fwd_lay m f (i div half m * half m + r)) x =
    evaluate (2 * half m) (\<lambda>r. f (i div (2 * half m) * (2 * half m) + r)) x"
proof -
  note lf = level_facts [OF assms(1)]
  let ?L = "half m" and ?c = "i div half m" and ?b = "i div (2 * half m)"
  have m: "0 < m" using assms(1) by (auto simp: levels_def)
  have cb: "?c div 2 = ?b" by (simp add: div_mult2_eq [symmetric] mult.commute)
  have pos: "(?b * (2 * ?L) + r) mod (2 * ?L) = r" "(?b * (2 * ?L) + r) div (2 * ?L) = ?b" if "r < 2 * ?L" for r
    using block_position [of ?b ?L "?b * (2 * ?L) + r"] that by simp_all
  have split: "evaluate (2 * ?L) (\<lambda>r. f (?b * (2 * ?L) + r)) x =
      evaluate ?L (\<lambda>r. f (?b * (2 * ?L) + r)) x + x ^ ?L * evaluate ?L (\<lambda>r. f (?b * (2 * ?L) + (?L + r))) x"
    using evaluate_split [of ?L] by (simp add: mult_2)
  show ?thesis
  proof (cases "even ?c")
    case True
    then have c: "?c = 2 * ?b" using cb by auto
    have x: "x ^ ?L = of_int (zetas ! (m + ?b))" using assms(3) c m by (simp add: node_def)
    have "fwd_lay m f (?c * ?L + r) = f (?b * (2 * ?L) + r) + x ^ ?L * f (?b * (2 * ?L) + (?L + r))" if "r < ?L" for r
      using pos [of r] that unfolding fwd_lay_def fwd.lay_def c x by (simp add: mult.assoc add.assoc add.commute add.left_commute mult.left_commute)
    then show ?thesis unfolding split by (simp add: evaluate_def sum_distrib_left sum.distrib [symmetric] algebra_simps)
  next
    case False
    then have c: "?c = 2 * ?b + 1" using odd_two_times_div_two_succ [of ?c] unfolding cb by simp
    have x: "of_int (zetas ! (m + ?b)) = - (x ^ ?L)" using assms(3) c m by (simp add: node_def)
    have ix: "?c * ?L + r = ?b * (2 * ?L) + (?L + r)" for r unfolding c by (simp add: algebra_simps)
    have "fwd_lay m f (?c * ?L + r) = f (?b * (2 * ?L) + r) + x ^ ?L * f (?b * (2 * ?L) + (?L + r))" if "r < ?L" for r
      using pos [of "?L + r"] that unfolding fwd_lay_def fwd.lay_def ix by (simp add: x)
    then show ?thesis unfolding split by (simp add: evaluate_def sum_distrib_left sum.distrib [symmetric] algebra_simps)
  qed
qed

text \<open>Every coefficient of the transform is the value of the polynomial at one of the 256 roots.\<close>

lemma fwd_all_evaluate:
  assumes i: "i < ring_n"
  shows "fwd_all f i = evaluate ring_n f (node (ring_n + i))"
proof -
  let ?x = "node (ring_n + i)"
  have step: "evaluate (half m) (\<lambda>r. fwd_lay m g (i div half m * half m + r)) ?x = evaluate (2 * half m) (\<lambda>r. g (i div (2 * half m) * (2 * half m) + r)) ?x"
    if m: "m \<in> set levels" for m g
  proof (rule fwd_lay_evaluate [OF m i])
    obtain s where s: "half m = 2 ^ s" "2 * m * half m = ring_n" "s \<le> 7"
    proof -
      have "\<exists>s\<le>7. half m = 2 ^ s" using m by (auto simp: levels_def half_def intro: exI [of _ 0] exI [of _ 1] exI [of _ 2] exI [of _ 3] exI [of _ 4] exI [of _ 5] exI [of _ 6] exI [of _ 7])
      then show thesis using that level_facts(3) [OF m] by (auto simp: mult.commute mult.left_commute)
    qed
    have d: "(ring_n + i) div half m = 2 * m + i div half m"
      using div_mult_self3 [of "half m" "2 * m" i] level_facts(1) [OF m] unfolding s(2) by simp
    moreover have "1 \<le> (ring_n + i) div half m" using d m by (auto simp: levels_def)
    ultimately show "?x ^ half m = node (2 * m + i div half m)"
      using node_power [of "ring_n + i" s] i s(1) by simp
  qed
  have "fwd_all f i = evaluate 1 (\<lambda>r. fold fwd_lay levels f (i + r)) ?x" by (simp add: evaluate_def fwd_all_def)
  also have "\<dots> = evaluate 2 (\<lambda>r. fold fwd_lay [1, 2, 4, 8, 16, 32, 64] f (i div 2 * 2 + r)) ?x"
    using step [of 128 "fold fwd_lay [1, 2, 4, 8, 16, 32, 64] f"] by (simp add: half_def levels_def)
  also have "\<dots> = evaluate 4 (\<lambda>r. fold fwd_lay [1, 2, 4, 8, 16, 32] f (i div 4 * 4 + r)) ?x"
    using step [of 64 "fold fwd_lay [1, 2, 4, 8, 16, 32] f"] by (simp add: half_def levels_def)
  also have "\<dots> = evaluate 8 (\<lambda>r. fold fwd_lay [1, 2, 4, 8, 16] f (i div 8 * 8 + r)) ?x"
    using step [of 32 "fold fwd_lay [1, 2, 4, 8, 16] f"] by (simp add: half_def levels_def)
  also have "\<dots> = evaluate 16 (\<lambda>r. fold fwd_lay [1, 2, 4, 8] f (i div 16 * 16 + r)) ?x"
    using step [of 16 "fold fwd_lay [1, 2, 4, 8] f"] by (simp add: half_def levels_def)
  also have "\<dots> = evaluate 32 (\<lambda>r. fold fwd_lay [1, 2, 4] f (i div 32 * 32 + r)) ?x"
    using step [of 8 "fold fwd_lay [1, 2, 4] f"] by (simp add: half_def levels_def)
  also have "\<dots> = evaluate 64 (\<lambda>r. fold fwd_lay [1, 2] f (i div 64 * 64 + r)) ?x"
    using step [of 4 "fold fwd_lay [1, 2] f"] by (simp add: half_def levels_def)
  also have "\<dots> = evaluate 128 (\<lambda>r. fold fwd_lay [1] f (i div 128 * 128 + r)) ?x"
    using step [of 2 "fold fwd_lay [1] f"] by (simp add: half_def levels_def)
  also have "\<dots> = evaluate 256 (\<lambda>r. f (i div 256 * 256 + r)) ?x"
    using step [of 1 f] by (simp add: half_def levels_def)
  finally show ?thesis using i by simp
qed

section \<open>Products\<close>

text \<open>Multiplication by \<open>X\<close> modulo \<open>X^256 + 1\<close>, and the product of two polynomials.\<close>

definition shift1 :: "(nat \<Rightarrow> 'a::comm_ring_1) \<Rightarrow> nat \<Rightarrow> 'a" where
  "shift1 f j = (if j = 0 then - f (ring_n - 1) else f (j - 1))"

definition negacyclic :: "(nat \<Rightarrow> 'a::comm_ring_1) \<Rightarrow> (nat \<Rightarrow> 'a) \<Rightarrow> nat \<Rightarrow> 'a" where
  "negacyclic f g j = (\<Sum>a<ring_n. f a * (shift1 ^^ a) g j)"

lemma evaluate_shift1:
  assumes "x ^ ring_n = - 1"
  shows "evaluate ring_n (shift1 g) x = x * evaluate ring_n g x"
proof -
  have "evaluate (Suc 255) (shift1 g) x = - g 255 + (\<Sum>r<255. g r * x ^ Suc r)"
    unfolding evaluate_def sum.lessThan_Suc_shift by (simp add: shift1_def)
  moreover have "x * evaluate (Suc 255) g x = (\<Sum>r<255. g r * x ^ Suc r) + g 255 * x ^ Suc 255"
    unfolding evaluate_def sum.lessThan_Suc power_Suc by (simp only: sum_distrib_left distrib_left mult.left_commute)
  moreover have "Suc 255 = ring_n" by simp
  ultimately show ?thesis using assms by (simp only:) simp
qed

lemma evaluate_negacyclic:
  assumes "x ^ ring_n = - 1"
  shows "evaluate ring_n (negacyclic f g) x = evaluate ring_n f x * evaluate ring_n g x"
proof -
  have sh: "evaluate ring_n ((shift1 ^^ a) g) x = x ^ a * evaluate ring_n g x" for a
    by (induction a) (simp_all add: evaluate_shift1 [OF assms] mult.assoc)
  have "evaluate ring_n (negacyclic f g) x = (\<Sum>r<ring_n. \<Sum>a<ring_n. f a * (shift1 ^^ a) g r * x ^ r)"
    unfolding evaluate_def negacyclic_def by (simp only: sum_distrib_right)
  also have "\<dots> = (\<Sum>a<ring_n. \<Sum>r<ring_n. f a * (shift1 ^^ a) g r * x ^ r)" by (rule sum.swap)
  also have "\<dots> = (\<Sum>a<ring_n. f a * evaluate ring_n ((shift1 ^^ a) g) x)"
    unfolding evaluate_def by (simp only: sum_distrib_left mult.assoc)
  also have "\<dots> = (\<Sum>a<ring_n. f a * x ^ a) * evaluate ring_n g x"
    unfolding sh by (simp only: sum_distrib_right mult.assoc)
  finally show ?thesis unfolding evaluate_def [of ring_n f] .
qed

lemma root_of_leaf: "i < ring_n \<Longrightarrow> node (ring_n + i) ^ ring_n = - 1"
proof -
  assume i: "i < ring_n"
  then have "(ring_n + i) div 2 ^ 8 = Suc 0" by (simp add: div_nat_eqI)
  then have "node (ring_n + i) ^ 2 ^ 8 = node (Suc 0)" using node_power [of "ring_n + i" 8] i by simp
  then show ?thesis by (simp add: node_def)
qed

text \<open>The integer product of the centred coefficients, reduced, is what the transform computes.\<close>

definition poly_product :: "poly \<Rightarrow> poly \<Rightarrow> nat \<Rightarrow> int" where
  "poly_product a b = negacyclic (\<lambda>i. centered (a ! i)) (\<lambda>i. centered (b ! i))"

lemma of_int_negacyclic:
  "(of_int (negacyclic f g j) :: zq) = negacyclic (\<lambda>i. of_int (f i)) (\<lambda>i. of_int (g i)) j"
proof -
  have "(of_int ((shift1 ^^ a) g j) :: zq) = (shift1 ^^ a) (\<lambda>i. of_int (g i)) j" for a j
    by (induction a arbitrary: j) (simp_all add: shift1_def)
  then show ?thesis by (simp add: negacyclic_def)
qed

lemma negacyclic_cong:
  assumes "\<And>i. i < ring_n \<Longrightarrow> f i = f' i" "\<And>i. i < ring_n \<Longrightarrow> g i = g' i" "j < ring_n"
  shows "negacyclic f g j = negacyclic f' g' j"
proof -
  have "(shift1 ^^ a) g j = (shift1 ^^ a) g' j" if "j < ring_n" for a j
    using that by (induction a arbitrary: j) (simp_all add: shift1_def assms(2))
  then show ?thesis using assms by (simp add: negacyclic_def)
qed

lemma ntt_product:
  assumes "canonical_poly a" "canonical_poly b"
  shows "invNTT (mulHat (ntt a) (ntt b)) = map (\<lambda>j. poly_product a b j mod modq) [0..<ring_n]"
proof -
  let ?P = "map (\<lambda>j. poly_product a b j mod modq) [0..<ring_n]"
  have P: "canonical_poly ?P" by (rule canonical_polyI) (simp_all add: canonical_def)
  have zP: "zqp ?P j = negacyclic (zqp a) (zqp b) j" if j: "j < ring_n" for j
  proof -
    have "zqp ?P j = negacyclic (\<lambda>i. of_int (centered (a ! i))) (\<lambda>i. of_int (centered (b ! i))) j"
      using j by (simp add: zqp_def poly_product_def of_int_negacyclic)
    also have "\<dots> = negacyclic (zqp a) (zqp b) j"
      by (rule negacyclic_cong [OF _ _ j]) (simp_all add: zqp_def canonical_poly_nth assms)
    finally show ?thesis .
  qed
  have "ntt ?P = mulHat (ntt a) (ntt b)"
  proof (rule zqp_inject)
    show "canonical_poly (ntt ?P)" "canonical_poly (mulHat (ntt a) (ntt b))"
      using ntt_zqp(1) P assms by simp_all
    fix i assume i: "i < ring_n"
    have "zqp (ntt ?P) i = evaluate ring_n (zqp ?P) (node (ring_n + i))"
      using ntt_zqp(2) [OF P i] fwd_all_evaluate [OF i] by simp
    also have "\<dots> = evaluate ring_n (negacyclic (zqp a) (zqp b)) (node (ring_n + i))"
      unfolding evaluate_def by (intro sum.cong refl) (simp only: zP lessThan_iff)
    also have "\<dots> = zqp (ntt a) i * zqp (ntt b) i"
      unfolding evaluate_negacyclic [OF root_of_leaf [OF i]]
      using ntt_zqp(2) [OF assms(1) i] ntt_zqp(2) [OF assms(2) i] fwd_all_evaluate [OF i] by simp
    also have "\<dots> = zqp (mulHat (ntt a) (ntt b)) i" using ntt_zqp(1) assms i by simp
    finally show "zqp (ntt ?P) i = zqp (mulHat (ntt a) (ntt b)) i" .
  qed
  then show ?thesis using invNTT_ntt [OF P] by simp
qed

lemma shift1_bound: "(\<And>i. i < ring_n \<Longrightarrow> \<bar>g i\<bar> \<le> M) \<Longrightarrow> j < ring_n \<Longrightarrow> \<bar>(shift1 ^^ a) g j\<bar> \<le> (M :: int)"
  by (induction a arbitrary: j) (simp_all add: shift1_def)

text \<open>The product with a sparse polynomial is small.\<close>

lemma poly_product_bound:
  assumes "\<And>i. i < ring_n \<Longrightarrow> \<bar>centered (b ! i)\<bar> \<le> M" "(\<Sum>i<ring_n. \<bar>centered (a ! i)\<bar>) \<le> T" "0 \<le> M" "j < ring_n"
  shows "\<bar>poly_product a b j\<bar> \<le> T * M"
proof -
  have "\<bar>poly_product a b j\<bar> \<le> (\<Sum>i<ring_n. \<bar>centered (a ! i) * (shift1 ^^ i) (\<lambda>i. centered (b ! i)) j\<bar>)"
    unfolding poly_product_def negacyclic_def by (rule sum_abs)
  also have "\<dots> \<le> (\<Sum>i<ring_n. \<bar>centered (a ! i)\<bar> * M)"
    unfolding abs_mult by (intro sum_mono mult_left_mono shift1_bound assms) simp_all
  also have "\<dots> = (\<Sum>i<ring_n. \<bar>centered (a ! i)\<bar>) * M" by (rule sum_distrib_right [symmetric])
  also have "\<dots> \<le> T * M" using assms by (intro mult_right_mono) auto
  finally show ?thesis .
qed

lemma centered_mod: "\<bar>x\<bar> \<le> 4190208 \<Longrightarrow> centered (x mod modq) = x"
proof -
  assume x: "\<bar>x\<bar> \<le> 4190208"
  have c: "canonical (x mod modq)" by (simp add: canonical_def)
  show ?thesis
  proof (cases "0 \<le> x")
    case True
    then have "x mod modq = x" using x by simp
    then show ?thesis using x centered_eq [OF c] by simp
  next
    case False
    then have "x mod modq = x + modq" using x mod_below_twice [of "x + modq" modq] by simp
    then show ?thesis using x False centered_eq [OF c] by simp
  qed
qed

lemma ntt_product_small:
  assumes "canonical_poly a" "canonical_poly b" "\<And>i. i < ring_n \<Longrightarrow> \<bar>centered (b ! i)\<bar> \<le> M" "(\<Sum>i<ring_n. \<bar>centered (a ! i)\<bar>) \<le> T"
    and "0 \<le> M" "T * M \<le> 4190208" "j < ring_n"
  shows "\<bar>centered (invNTT (mulHat (ntt a) (ntt b)) ! j)\<bar> \<le> T * M"
  using poly_product_bound [OF assms(3,4,5,7)] assms(6,7) centered_mod [of "poly_product a b j"]
  by (simp add: ntt_product [OF assms(1,2)])

text \<open>
  C37: The number-theoretic transform is correct. On polynomials with canonical coefficients the two transforms are inverse to each other,
  and multiplying two transforms coefficient by coefficient and transforming back gives the product of the polynomials modulo
  \<open>X^256 + 1\<close> and the prime, with canonical coefficients.
\<close>

theorem ntt_correct:
  assumes "canonical_poly a" and "canonical_poly b"
  shows "invNTT (ntt a) = a \<and> ntt (invNTT a) = a
    \<and> invNTT (mulHat (ntt a) (ntt b)) = map (\<lambda>j. negacyclic ((!) a) ((!) b) j mod modq) [0..<ring_n]"
proof -
  have "poly_product a b j mod modq = negacyclic ((!) a) ((!) b) j mod modq" if j: "j < ring_n" for j
  proof -
    have "(of_int (poly_product a b j) :: zq) = negacyclic (\<lambda>i. of_int (centered (a ! i))) (\<lambda>i. of_int (centered (b ! i))) j"
      by (simp add: poly_product_def of_int_negacyclic)
    also have "\<dots> = negacyclic (\<lambda>i. of_int (a ! i)) (\<lambda>i. of_int (b ! i)) j"
      by (rule negacyclic_cong [OF _ _ j]) (simp_all add: canonical_poly_nth assms)
    also have "\<dots> = of_int (negacyclic ((!) a) ((!) b) j)" by (simp add: of_int_negacyclic)
    finally show ?thesis by (simp only: zq_cong)
  qed
  then show ?thesis using invNTT_ntt [OF assms(1)] ntt_invNTT [OF assms(1)] ntt_product [OF assms] by simp
qed

text \<open>The product of \<open>X\<close> and \<open>X^255\<close> is \<open>- 1\<close>.\<close>

definition monomial :: "nat \<Rightarrow> poly" where
  "monomial k = map (\<lambda>i. if i = k then 1 else 0) [0..<ring_n]"

lemma canonical_monomial: "canonical_poly (monomial k)"
  by (rule canonical_polyI) (simp_all add: monomial_def canonical_def)

theorem ntt_correct_witness:
  "invNTT (ntt (monomial 1)) = monomial 1 \<and>
   invNTT (mulHat (ntt (monomial 1)) (ntt (monomial 255))) ! 0 = modq - 1"
proof -
  have "negacyclic ((!) (monomial 1)) ((!) (monomial 255)) 0 = (\<Sum>a<ring_n. if a = 1 then (shift1 ^^ a) ((!) (monomial 255)) 0 else 0)"
    unfolding negacyclic_def by (intro sum.cong) (simp_all add: monomial_def)
  also have "\<dots> = shift1 ((!) (monomial 255)) 0" by simp
  also have "\<dots> = - 1" by (simp add: shift1_def monomial_def)
  finally show ?thesis using ntt_correct [OF canonical_monomial canonical_monomial, of 1 255] by simp
qed

end
