(* ===== verification/MldsaRounding.thy ===== *)
theory MldsaRounding
  imports MldsaArith
begin

text \<open>
  Rounding and hints of ML-DSA (\<^verbatim>\<open>mldsa/rounding.go\<close>). The branch-free \<^verbatim>\<open>decompose\<close> computes the decomposition of FIPS 204, and a hint
  made for a small change of a value lets the receiver of the changed value recover the high bits of the original one.
\<close>

section \<open>The code\<close>

definition power2Round :: "int \<Rightarrow> int \<times> int" where
  "power2Round r =
     (let r0 = r AND (2 ^ drop_d - 1);
          r0 = wrap32 (r0 - (drop_bit 31 (wrap32 (2 ^ (drop_d - 1) - r0)) AND 2 ^ drop_d)) in
      (drop_bit drop_d (wrap32 (r - r0)), r0))"

definition decompose :: "mldsa_params \<Rightarrow> int \<Rightarrow> int \<times> int" where
  "decompose p r =
     (let r1 = drop_bit 7 (wrap32 (r + 127));
          r1 = (if mp_Gamma2 p = (modq - 1) div 32
                then drop_bit 22 (wrap32 (wrap32 (r1 * 1025) + 2 ^ 21)) AND 15
                else let r1 = drop_bit 24 (wrap32 (wrap32 (r1 * 11275) + 2 ^ 23)) in r1 XOR (drop_bit 31 (wrap32 (43 - r1)) AND r1));
          r0 = wrap32 (r - wrap32 (wrap32 (r1 * 2) * mp_Gamma2 p));
          r0 = wrap32 (r0 - (drop_bit 31 (wrap32 ((modq - 1) div 2 - r0)) AND modq)) in
      (r1, r0))"

definition highBits :: "mldsa_params \<Rightarrow> int \<Rightarrow> int" where
  "highBits p r = fst (decompose p r)"

definition lowBits :: "mldsa_params \<Rightarrow> int \<Rightarrow> int" where
  "lowBits p r = snd (decompose p r)"

definition makeHint :: "mldsa_params \<Rightarrow> int \<Rightarrow> int \<Rightarrow> int" where
  "makeHint p z r = (if highBits p r \<noteq> highBits p (addQ r z) then 1 else 0)"

definition useHint :: "mldsa_params \<Rightarrow> int \<Rightarrow> int \<Rightarrow> int" where
  "useHint p h r =
     (let m = (modq - 1) sdiv (2 * mp_Gamma2 p) in
      case decompose p r of (r1, r0) \<Rightarrow>
        if h = 0 then r1
        else if r0 > 0 then wrap32 (r1 + 1) smod m
        else wrap32 (wrap32 (r1 - 1) + m) smod m)"

definition lowBitsVec :: "mldsa_params \<Rightarrow> vec \<Rightarrow> vec" where
  "lowBitsVec p v = map (map (\<lambda>x. canon (lowBits p x))) v"

definition highBitsVec :: "mldsa_params \<Rightarrow> vec \<Rightarrow> vec" where
  "highBitsVec p v = map (map (highBits p)) v"

section \<open>Power-of-two rounding\<close>

lemma and_mask: "x AND (2 ^ n - 1) = x mod 2 ^ n" for x :: int
  by (simp add: mask_eq_exp_minus_1 [symmetric] take_bit_eq_mask [symmetric] take_bit_eq_mod)

lemma power2Round_spec:
  assumes "canonical r" "power2Round r = (r1, r0)"
  shows "r = r1 * 2 ^ 13 + r0" "- (2 ^ 12) < r0" "r0 \<le> 2 ^ 12" "0 \<le> r1" "r1 < 2 ^ 10"
proof -
  have r: "0 \<le> r" "r < modq" using assms(1) by (simp_all add: canonical_def)
  let ?m = "r mod 8192"
  have m: "0 \<le> ?m" "?m < 8192" by simp_all
  have "r AND (2 ^ drop_d - 1) = ?m" using and_mask [of r 13] by simp
  then have r0: "r0 = (if 4096 < ?m then ?m - 8192 else ?m)"
    using assms(2) m by (simp add: power2Round_def Let_def wrap32_id is_int32_def sign_mask split: if_splits)
  have "is_int32 (r - r0)" using r m r0 by (auto simp: is_int32_def)
  then have r1: "r1 = (r - r0) div 8192" using assms(2) by (auto simp: power2Round_def Let_def wrap32_id drop_bit_eq_div)
  have e: "r = r div 8192 * 8192 + ?m" by simp
  have q: "r1 = r div 8192 + (if 4096 < ?m then 1 else 0)"
  proof (cases "4096 < ?m")
    case True
    have "(r div 8192 + 1) * 8192 = r div 8192 * 8192 + 8192" by (simp add: distrib_right)
    moreover have "r0 = ?m - 8192" using r0 True by (simp only: if_True)
    ultimately have "r - r0 = (r div 8192 + 1) * 8192" using e by linarith
    then show ?thesis using True r1 by simp
  next
    case False
    then have "r0 = ?m" using r0 by (simp only: if_False)
    then have "r - r0 = (r div 8192) * 8192" using e by linarith
    then show ?thesis using False r1 by simp
  qed
  show "r = r1 * 2 ^ 13 + r0" using e q r0 by auto
  show "- (2 ^ 12) < r0" "r0 \<le> 2 ^ 12" using r0 m by auto
  have "0 \<le> r div 8192" using r by simp
  then show "0 \<le> r1" using q by simp
  show "r1 < 2 ^ 10"
  proof (cases "4096 < ?m")
    case True
    then have "r1 = r div 8192 + 1" using q by (simp only: if_True)
    then have "r1 < 1024" using e r True by linarith
    then show ?thesis by simp
  next
    case False
    then have "r1 = r div 8192" using q by (simp only: if_False)
    then have "r1 < 1024" using e r m by linarith
    then show ?thesis by simp
  qed
qed

section \<open>Decomposition\<close>

lemma centered_window: "- modq < a \<Longrightarrow> a < modq \<Longrightarrow> centered a = (if a \<le> 4190208 then a else a - modq)"
  by (simp add: centered_def wrap32_id sign_mask is_int32_def Let_def)

text \<open>
  The multiplication and shift find the multiple of \<open>2 gamma2\<close> nearest to the value; the last multiple wraps to the first.
\<close>

lemma decompose_88:
  assumes "mp_Gamma2 p = 95232" "canonical r"
  shows "\<exists>k x. decompose p r = (if k = 44 then (0, x - 1) else (k, x)) \<and> r = k * 190464 + x \<and> 0 \<le> k \<and> k \<le> 44
    \<and> - 95232 < x \<and> x \<le> 95232"
proof -
  have r: "0 \<le> r" "r < modq" using assms(2) by (simp_all add: canonical_def)
  define t where "t = (r + 127) div 128"
  have t: "128 * t - 127 \<le> r" "r \<le> 128 * t" "0 \<le> t" "t \<le> 65473" using r by (auto simp: t_def)
  define k where "k = (t * 11275 + 8388608) div 16777216"
  have k0: "0 \<le> k" "k \<le> 44" using t by (auto simp: k_def)
  have kt: "16777216 * k \<le> t * 11275 + 8388608" "t * 11275 + 8388608 < 16777216 * k + 16777216" by (auto simp: k_def)
  have s: "- 743 \<le> t - 1488 * k" "t - 1488 * k \<le> 744"
  proof -
    show "- 743 \<le> t - 1488 * k"
    proof (cases "k \<le> 0")
      case False
      then have "1 \<le> k" by simp
      show ?thesis
      proof (rule ccontr)
        assume "\<not> ?thesis"
        then have "t - 1488 * k \<le> - 744" by simp
        then show False using kt(1) \<open>1 \<le> k\<close> by linarith
      qed
    qed (use t k0 in linarith)
    show "t - 1488 * k \<le> 744"
    proof (rule ccontr)
      assume "\<not> ?thesis"
      then have "745 \<le> t - 1488 * k" by simp
      then show False using kt(2) k0 by linarith
    qed
  qed
  have x: "- 95232 < r - k * 190464" "r - k * 190464 \<le> 95232" using s t by auto
  have t': "drop_bit 7 (wrap32 (r + 127)) = t" using r by (simp add: wrap32_id is_int32_def drop_bit_eq_div t_def)
  have k': "drop_bit 24 (wrap32 (wrap32 (t * 11275) + 2 ^ 23)) = k"
    using t by (simp add: wrap32_id is_int32_def drop_bit_eq_div k_def)
  have k'': "k XOR (drop_bit 31 (wrap32 (43 - k)) AND k) = (if k = 44 then 0 else k)"
    using k0 by (simp add: wrap32_id is_int32_def sign_mask)
  let ?k = "if k = 44 then 0 else k"
  have w: "wrap32 (r - wrap32 (wrap32 (?k * 2) * 95232)) = r - ?k * 190464"
    using k0 x r by (cases "k = 44") (simp_all add: wrap32_id is_int32_def)
  have "decompose p r = (?k, centered (r - ?k * 190464))"
    using w assms(1) unfolding decompose_def Let_def centered_def t' k' by (simp only: k'') simp
  then have "decompose p r = (if k = 44 then (0, r - k * 190464 - 1) else (k, r - k * 190464))"
    using x r centered_window [of r] centered_window [of "r - k * 190464"] by (cases "k = 44") simp_all
  then show ?thesis using k0 x by (intro exI [of _ k] exI [of _ "r - k * 190464"]) simp
qed

lemma decompose_32:
  assumes "mp_Gamma2 p = 261888" "canonical r"
  shows "\<exists>k x. decompose p r = (if k = 16 then (0, x - 1) else (k, x)) \<and> r = k * 523776 + x \<and> 0 \<le> k \<and> k \<le> 16
    \<and> - 261888 < x \<and> x \<le> 261888"
proof -
  have r: "0 \<le> r" "r < modq" using assms(2) by (simp_all add: canonical_def)
  define t where "t = (r + 127) div 128"
  have t: "128 * t - 127 \<le> r" "r \<le> 128 * t" "0 \<le> t" "t \<le> 65473" using r by (auto simp: t_def)
  define k where "k = (t * 1025 + 2097152) div 4194304"
  have k0: "0 \<le> k" "k \<le> 16" using t by (auto simp: k_def)
  have kt: "4194304 * k \<le> t * 1025 + 2097152" "t * 1025 + 2097152 < 4194304 * k + 4194304" by (auto simp: k_def)
  have s: "- 2045 \<le> t - 4092 * k" "t - 4092 * k \<le> 2046"
  proof -
    show "- 2045 \<le> t - 4092 * k"
    proof (cases "k \<le> 0")
      case False
      then have "1 \<le> k" by simp
      show ?thesis
      proof (rule ccontr)
        assume "\<not> ?thesis"
        then have "t - 4092 * k \<le> - 2046" by simp
        then show False using kt(1) \<open>1 \<le> k\<close> by linarith
      qed
    qed (use t k0 in linarith)
    show "t - 4092 * k \<le> 2046"
    proof (rule ccontr)
      assume "\<not> ?thesis"
      then have "2047 \<le> t - 4092 * k" by simp
      then show False using kt(2) k0 by linarith
    qed
  qed
  have x: "- 261888 < r - k * 523776" "r - k * 523776 \<le> 261888" using s t by auto
  have t': "drop_bit 7 (wrap32 (r + 127)) = t" using r by (simp add: wrap32_id is_int32_def drop_bit_eq_div t_def)
  have k': "drop_bit 22 (wrap32 (wrap32 (t * 1025) + 2 ^ 21)) = k"
    using t by (simp add: wrap32_id is_int32_def drop_bit_eq_div k_def)
  have "k AND 15 = k mod 16" using and_mask [of k 4] by simp
  then have k'': "k AND 15 = (if k = 16 then 0 else k)" using k0 by simp
  let ?k = "if k = 16 then 0 else k"
  have w: "wrap32 (r - wrap32 (wrap32 (?k * 2) * 261888)) = r - ?k * 523776"
    using k0 x r by (cases "k = 16") (simp_all add: wrap32_id is_int32_def)
  have "decompose p r = (?k, centered (r - ?k * 523776))"
    using w assms(1) unfolding decompose_def Let_def centered_def t' k' by (simp only: k'') simp
  then have "decompose p r = (if k = 16 then (0, r - k * 523776 - 1) else (k, r - k * 523776))"
    using x r centered_window [of r] centered_window [of "r - k * 523776"] by (cases "k = 16") simp_all
  then show ?thesis using k0 x by (intro exI [of _ k] exI [of _ "r - k * 523776"]) simp
qed

text \<open>
  Both cases at once: \<open>g\<close> is \<open>gamma2\<close> and \<open>m\<close> the number of values of the high bits.
\<close>

definition rounding_params :: "mldsa_params \<Rightarrow> int \<Rightarrow> int \<Rightarrow> bool" where
  "rounding_params p g m \<longleftrightarrow> mp_Gamma2 p = g \<and> (g = 95232 \<and> m = 44 \<or> g = 261888 \<and> m = 16)"

lemma decompose_cases:
  assumes "rounding_params p g m" "canonical r"
  obtains k x where "decompose p r = (if k = m then (0, x - 1) else (k, x))" "r = k * (2 * g) + x" "0 \<le> k" "k \<le> m" "- g < x" "x \<le> g"
  using assms decompose_88 [of p r] decompose_32 [of p r] unfolding rounding_params_def by fastforce

lemma rounding_modulus: "rounding_params p g m \<Longrightarrow> m * (2 * g) = modq - 1 \<and> 0 < g \<and> 1 < m"
  by (auto simp: rounding_params_def)

text \<open>What a decomposition is: the nearest multiple of \<open>2 gamma2\<close> modulo the prime, and the rest.\<close>

definition nearest :: "int \<Rightarrow> int \<Rightarrow> int \<Rightarrow> int \<Rightarrow> bool" where
  "nearest g m k x \<longleftrightarrow> 0 \<le> k \<and> k < m \<and> x \<le> g \<and> (- g < x \<or> k = 0 \<and> - g \<le> x)"

lemma decompose_spec:
  assumes "rounding_params p g m" "canonical r" "decompose p r = (r1, r0)"
  shows "nearest g m r1 r0 \<and> r = (r1 * (2 * g) + r0) mod modq"
proof -
  note mg = rounding_modulus [OF assms(1)]
  have r: "0 \<le> r" "r < modq" using assms(2) by (simp_all add: canonical_def)
  obtain k x where *: "decompose p r = (if k = m then (0, x - 1) else (k, x))" "r = k * (2 * g) + x" "0 \<le> k" "k \<le> m" "- g < x" "x \<le> g"
    using decompose_cases [OF assms(1,2)] .
  show ?thesis
  proof (cases "k = m")
    case True
    then have "r1 = 0" "r0 = x - 1" "r = modq - 1 + x" using * assms(3) mg by simp_all
    moreover have "(x - 1) mod modq = modq - 1 + x" using calculation r mod_negative [of modq "x - 1"] by simp
    ultimately show ?thesis using *(5,6) mg r by (simp add: nearest_def)
  next
    case False
    then show ?thesis using * assms(3) r by (simp add: nearest_def)
  qed
qed

lemma multiples_apart:
  fixes g :: int
  assumes "a * (2 * g) + x = b * (2 * g) + y" "- g < x" "x \<le> g" "- g < y" "y \<le> g"
  shows "a = b"
proof -
  have g: "0 < 2 * g" using assms(2,3) by simp
  have d: "(a - b) * (2 * g) = y - x" using assms(1) by (simp add: algebra_simps)
  have "(a - b) * (2 * g) < 1 * (2 * g)" "(- 1) * (2 * g) < (a - b) * (2 * g)" using d assms(2-5) by simp_all
  then have "a - b < 1" "- 1 < a - b" using g by (simp_all only: mult_less_cancel_right_pos)
  then show ?thesis by simp
qed

lemma highBits_unique:
  assumes "rounding_params p g m" "nearest g m k x"
  shows "highBits p ((k * (2 * g) + x) mod modq) = k"
proof -
  note mg = rounding_modulus [OF assms(1)]
  have k: "0 \<le> k" "k < m" "x \<le> g" "- g \<le> x" using assms(2) mg by (auto simp: nearest_def)
  let ?r = "(k * (2 * g) + x) mod modq"
  have c: "canonical ?r" by (simp add: canonical_def)
  obtain k' x' where *: "decompose p ?r = (if k' = m then (0, x' - 1) else (k', x'))" "?r = k' * (2 * g) + x'" "0 \<le> k'" "k' \<le> m" "- g < x'" "x' \<le> g"
    using decompose_cases [OF assms(1) c] .
  have "k * (2 * g) \<le> (m - 1) * (2 * g)" using k mg by (intro mult_right_mono) simp_all
  then have up: "k * (2 * g) + x < modq" using mg k by (simp add: left_diff_distrib)
  show ?thesis
  proof (cases "0 \<le> k * (2 * g) + x")
    case True
    then have "k * (2 * g) + x = k' * (2 * g) + x'" using *(2) up by simp
    moreover have "- g < x" using assms(2) True mg by (auto simp: nearest_def)
    ultimately have "k = k'" using multiples_apart k(3) *(5,6) by blast
    then show ?thesis using * k by (simp add: highBits_def)
  next
    case False
    have "k = 0"
    proof (rule ccontr)
      assume "k \<noteq> 0"
      then have "1 * (2 * g) \<le> k * (2 * g)" using k mg by (intro mult_right_mono) simp_all
      then show False using False k mg by linarith
    qed
    then have "?r = x + modq" using False k mg up mod_negative [of modq x] assms(1) by (auto simp: rounding_params_def)
    then have "m * (2 * g) + (x + 1) = k' * (2 * g) + x'" using *(2) mg by simp
    then have "k' = m" using multiples_apart [of m g "x + 1" k' x'] k False \<open>k = 0\<close> *(5,6) by simp
    then show ?thesis using * \<open>k = 0\<close> by (simp add: highBits_def)
  qed
qed

text \<open>A hint recovers the high bits.\<close>

lemma useHint_makeHint:
  assumes "rounding_params p g m" "canonical r" "canonical z" "\<bar>centered z\<bar> < g"
  shows "useHint p (makeHint p z r) r = highBits p (addQ r z)"
proof -
  note mg = rounding_modulus [OF assms(1)]
  obtain r1 r0 where d: "decompose p r = (r1, r0)" by fastforce
  have n: "nearest g m r1 r0" and r: "r = (r1 * (2 * g) + r0) mod modq" using decompose_spec [OF assms(1,2) d] by simp_all
  define y where "y = r0 + centered z"
  have s: "addQ r z = (r1 * (2 * g) + y) mod modq"
  proof -
    have "(of_int (addQ r z) :: zq) = of_int (r1 * (2 * g) + y)"
      using assms(2,3) r zq_mod [of "r1 * (2 * g) + r0"] by (simp add: y_def)
    then show ?thesis using assms(2,3) by (intro zq_canonical) simp_all
  qed
  have m: "(modq - 1) sdiv (2 * mp_Gamma2 p) = m" using assms(1) by (auto simp: rounding_params_def sdiv_nonneg)
  have w: "wrap32 (r1 + 1) = r1 + 1" "wrap32 (wrap32 (r1 - 1) + m) = r1 - 1 + m"
    using n assms(1) by (auto simp: nearest_def rounding_params_def wrap32_id is_int32_def)
  have use: "useHint p h r = (if h = 0 then r1 else if r0 > 0 then (r1 + 1) smod m else (r1 - 1 + m) smod m)" for h
    unfolding useHint_def Let_def d m prod.case w by (rule refl)
  have high: "highBits p (addQ r z) = k" if "nearest g m k x" "r1 * (2 * g) + y = k * (2 * g) + x \<or> r1 * (2 * g) + y = k * (2 * g) + x + modq
      \<or> r1 * (2 * g) + y = k * (2 * g) + x - modq" for k x
  proof -
    have "(r1 * (2 * g) + y) mod modq = (k * (2 * g) + x) mod modq" using that(2) by auto
    then show ?thesis using highBits_unique [OF assms(1) that(1)] s by simp
  qed
  have r1: "highBits p r = r1" by (simp add: highBits_def d)
  show ?thesis
  proof (cases "nearest g m r1 y")
    case True
    then show ?thesis using high [OF True] use r1 by (simp add: makeHint_def)
  next
    case far: False
    show ?thesis
    proof (cases "r0 > 0")
      case True
      have y: "g < y" "y < 2 * g" using far True n assms(4) mg by (auto simp: y_def nearest_def)
      show ?thesis
      proof (cases "r1 + 1 < m")
        case True
        then have "nearest g m (r1 + 1) (y - 2 * g)" using y n by (simp add: nearest_def)
        then have "highBits p (addQ r z) = r1 + 1" using high by (simp add: distrib_right)
        then show ?thesis using use r1 \<open>r0 > 0\<close> True n by (simp add: makeHint_def smod_nonneg nearest_def)
      next
        case False
        then have r1m: "r1 = m - 1" using n by (simp add: nearest_def)
        have "nearest g m 0 (y - 2 * g - 1)" using y mg by (simp add: nearest_def)
        moreover have "r1 * (2 * g) + y = 0 * (2 * g) + (y - 2 * g - 1) + modq" using mg by (simp add: r1m left_diff_distrib)
        ultimately have "highBits p (addQ r z) = 0" using high by blast
        then show ?thesis using use r1 \<open>r0 > 0\<close> r1m mg by (simp add: makeHint_def smod_nonneg)
      qed
    next
      case False
      have y: "- 2 * g < y" "y \<le> - g" using far False n assms(4) mg by (auto simp: y_def nearest_def)
      show ?thesis
      proof (cases "1 \<le> r1")
        case True
        then have "nearest g m (r1 - 1) (y + 2 * g)" using y n by (simp add: nearest_def)
        then have "highBits p (addQ r z) = r1 - 1" using high by (simp add: left_diff_distrib)
        then show ?thesis using use r1 False True n by (simp add: makeHint_def smod_nonneg nearest_def)
      next
        case r10: False
        then have r10: "r1 = 0" using n by (simp add: nearest_def)
        then have "y < - g" using far y n by (auto simp: nearest_def)
        then have "nearest g m (m - 1) (y + 2 * g + 1)" using y mg by (simp add: nearest_def)
        moreover have "r1 * (2 * g) + y = (m - 1) * (2 * g) + (y + 2 * g + 1) - modq" using mg by (simp add: r10 left_diff_distrib)
        ultimately have "highBits p (addQ r z) = m - 1" using high by blast
        moreover have "(m - 1) smod m = m - 1" using mg by (simp add: smod_nonneg mod_pos_pos_trivial del: minus_mod_self1)
        ultimately show ?thesis using use [of 1] r1 False r10 mg by (simp add: makeHint_def)
      qed
    qed
  qed
qed

text \<open>A change that keeps the low bits in range keeps the high bits.\<close>

lemma highBits_stable:
  assumes "rounding_params p g m" "canonical r" "canonical z" "\<bar>lowBits p r\<bar> + \<bar>centered z\<bar> < g"
  shows "highBits p (addQ r z) = highBits p r"
proof -
  obtain r1 r0 where d: "decompose p r = (r1, r0)" by fastforce
  have n: "nearest g m r1 r0" and r: "r = (r1 * (2 * g) + r0) mod modq" using decompose_spec [OF assms(1,2) d] by simp_all
  have "(of_int (addQ r z) :: zq) = of_int (r1 * (2 * g) + (r0 + centered z))"
    using assms(2,3) r zq_mod [of "r1 * (2 * g) + r0"] by simp
  then have "addQ r z = (r1 * (2 * g) + (r0 + centered z)) mod modq"
    using assms(2,3) by (intro zq_canonical) simp_all
  moreover have "nearest g m r1 (r0 + centered z)" using n assms(4) by (auto simp: nearest_def lowBits_def d)
  ultimately show ?thesis using highBits_unique [OF assms(1)] by (simp add: highBits_def d)
qed



end
