(* ===== verification/MldsaPack.thy ===== *)
theory MldsaPack
  imports MldsaRounding
begin

text \<open>
  The encodings of ML-DSA (\<^verbatim>\<open>mldsa/pack.go\<close>): bit packing, hints, keys and signatures. The results: decoding an encoding gives back
  what was encoded, every hint encoding that is accepted is the one encoding of its hint, and decoding a string of the right size never panics.
  The accumulators are \<^verbatim>\<open>uint64\<close>: a shift to the left is followed by \<open>take_bit 64\<close>.
\<close>

section \<open>Bit packing\<close>

function flush :: "int \<Rightarrow> nat \<Rightarrow> bytes \<Rightarrow> int \<times> nat \<times> bytes" where
  "flush acc n out = (if n \<ge> 8 then flush (drop_bit 8 acc) (n - 8) (out @ [word_of_int acc]) else (acc, n, out))"
  by pat_completeness auto
termination
  by (relation "measure (\<lambda>(acc, n, out). n)") auto

declare flush.simps [simp del]

definition pack_step :: "nat \<Rightarrow> int \<Rightarrow> int \<times> nat \<times> bytes \<Rightarrow> int \<times> nat \<times> bytes" where
  "pack_step bits x s = (case s of (acc, n, out) \<Rightarrow> flush (take_bit 64 (acc OR push_bit n (take_bit 32 x))) (n + bits) out)"

definition packed :: "poly \<Rightarrow> nat \<Rightarrow> bytes" where
  "packed a bits = snd (snd (fold (pack_step bits) a (0, 0, [])))"

text \<open>The bytes are written to the front of the destination, one after the other; a write past its end panics.\<close>

definition overwrite :: "bytes \<Rightarrow> bytes \<Rightarrow> bytes outcome" where
  "overwrite dst out = (if length out \<le> length dst then Returns (out @ drop (length out) dst) else Panic)"

definition bitPack :: "bytes \<Rightarrow> poly \<Rightarrow> nat \<Rightarrow> bytes outcome" where
  "bitPack dst a bits = overwrite dst (packed a bits)"

function fill :: "bytes \<Rightarrow> nat \<Rightarrow> int \<times> nat \<times> nat \<Rightarrow> (int \<times> nat \<times> nat) outcome" where
  "fill src bits (acc, n, idx) =
     (if n < bits then
        (if idx < length src then fill src bits (take_bit 64 (acc OR push_bit n (uint (src ! idx))), n + 8, idx + 1) else Panic)
      else Returns (acc, n, idx))"
  by pat_completeness auto
termination
  by (relation "measure (\<lambda>(src, bits, acc, n, idx). bits - n)") auto

declare fill.simps [simp del]

fun unpack_from :: "nat \<Rightarrow> bytes \<Rightarrow> nat \<Rightarrow> int \<times> nat \<times> nat \<Rightarrow> poly outcome" where
  "unpack_from 0 src bits s = Returns []"
| "unpack_from (Suc c) src bits s =
     bind_outcome (fill src bits s) (\<lambda>(acc, n, idx).
     bind_outcome (unpack_from c src bits (drop_bit bits acc, n - bits, idx)) (\<lambda>rest.
     Returns (wrap32 (acc AND (2 ^ bits - 1)) # rest)))"

definition bitUnpack :: "bytes \<Rightarrow> nat \<Rightarrow> poly outcome" where
  "bitUnpack src bits = unpack_from ring_n src bits (0, 0, 0)"

definition bitPackSigned :: "bytes \<Rightarrow> poly \<Rightarrow> int \<Rightarrow> int \<Rightarrow> nat \<Rightarrow> bytes outcome" where
  "bitPackSigned dst w a b bits = bitPack dst (map (\<lambda>x. wrap32 (b - centered x)) w) bits"

function bitLen :: "int \<Rightarrow> nat" where
  "bitLen v = (if v \<le> 0 then 0 else Suc (bitLen (drop_bit 1 v)))"
  by pat_completeness auto
termination
  by (relation "measure nat") (simp_all add: drop_bit_eq_div)

declare bitLen.simps [simp del]

definition bitUnpackSigned :: "bytes \<Rightarrow> int \<Rightarrow> int \<Rightarrow> poly outcome" where
  "bitUnpackSigned src a b =
     bind_outcome (bitUnpack src (bitLen (take_bit 32 (wrap32 (a + b))))) (\<lambda>w. Returns (map (\<lambda>x. canon (wrap32 (b - x))) w))"

section \<open>Hints\<close>

fun hint_row :: "nat \<Rightarrow> poly \<Rightarrow> nat \<times> bytes \<Rightarrow> (nat \<times> bytes) outcome" where
  "hint_row j [] s = Returns s"
| "hint_row j (x # xs) (idx, dst) =
     (if x = 1 then (if idx < length dst then hint_row (j + 1) xs (idx + 1, dst[idx := word_of_nat j]) else Panic)
      else hint_row (j + 1) xs (idx, dst))"

fun hint_rows :: "mldsa_params \<Rightarrow> nat \<Rightarrow> vec \<Rightarrow> nat \<times> bytes \<Rightarrow> bytes outcome" where
  "hint_rows p i [] s = Returns (snd s)"
| "hint_rows p i (r # rs) s =
     bind_outcome (hint_row 0 r s) (\<lambda>(idx, dst).
     if mp_Omega p + i < length dst then hint_rows p (i + 1) rs (idx, dst[mp_Omega p + i := word_of_nat idx]) else Panic)"

definition hintBitPack :: "mldsa_params \<Rightarrow> bytes \<Rightarrow> vec \<Rightarrow> bytes outcome" where
  "hintBitPack p dst h = hint_rows p 0 h (0, dst)"

definition zero_poly :: poly where
  "zero_poly = replicate ring_n 0"

function ones :: "bytes \<Rightarrow> nat \<Rightarrow> nat \<Rightarrow> nat \<Rightarrow> poly \<Rightarrow> (nat \<times> poly) option outcome" where
  "ones src first idx stop row =
     (if idx < stop then
        (if idx < length src then
           (if idx > first \<and> src ! (idx - 1) \<ge> src ! idx then Returns None
            else ones src first (idx + 1) stop (row[unat (src ! idx) := 1]))
         else Panic)
      else Returns (Some (idx, row)))"
  by pat_completeness auto
termination
  by (relation "measure (\<lambda>(src, first, idx, stop, row). stop - idx)") auto

declare ones.simps [simp del]

definition bind_ok :: "'a option outcome \<Rightarrow> ('a \<Rightarrow> 'b option outcome) \<Rightarrow> 'b option outcome" where
  "bind_ok r f = bind_outcome r (\<lambda>x. case x of None \<Rightarrow> Returns None | Some a \<Rightarrow> f a)"

fun unhint_rows :: "mldsa_params \<Rightarrow> bytes \<Rightarrow> nat list \<Rightarrow> nat \<Rightarrow> (nat \<times> vec) option outcome" where
  "unhint_rows p src [] idx = Returns (Some (idx, []))"
| "unhint_rows p src (i # is) idx =
     (if mp_Omega p + i < length src then
        (let stop = unat (src ! (mp_Omega p + i)) in
         if stop < idx \<or> stop > mp_Omega p then Returns None
         else bind_ok (ones src idx idx stop zero_poly) (\<lambda>(idx', row).
              bind_ok (unhint_rows p src is idx') (\<lambda>(idx'', rows). Returns (Some (idx'', row # rows)))))
      else Panic)"

fun padding :: "bytes \<Rightarrow> nat list \<Rightarrow> bool outcome" where
  "padding src [] = Returns True"
| "padding src (i # is) = (if i < length src then (if src ! i \<noteq> 0 then Returns False else padding src is) else Panic)"

definition hintBitUnpack :: "mldsa_params \<Rightarrow> bytes \<Rightarrow> vec option outcome" where
  "hintBitUnpack p src =
     bind_ok (unhint_rows p src [0..<mp_K p] 0) (\<lambda>(idx, h).
     bind_outcome (padding src [idx..<mp_Omega p]) (\<lambda>ok. Returns (if ok then Some h else None)))"

section \<open>Keys and signatures\<close>

text \<open>
  Slices of a buffer: \<open>in_slice off\<close> runs a writer on \<^verbatim>\<open>buf[off:]\<close>, \<open>copy_at\<close> is
  \<^verbatim>\<open>off += copy(buf[off:], src)\<close>, and \<open>pack_all\<close> and \<open>unpack_all\<close> are the loops that advance the offset by a
  fixed stride.
\<close>

definition in_slice :: "nat \<Rightarrow> (bytes \<Rightarrow> bytes outcome) \<Rightarrow> bytes \<Rightarrow> bytes outcome" where
  "in_slice off f buf = (if off \<le> length buf then bind_outcome (f (drop off buf)) (\<lambda>t. Returns (take off buf @ t)) else Panic)"

definition copy_at :: "bytes \<Rightarrow> nat \<times> bytes \<Rightarrow> nat \<times> bytes" where
  "copy_at src s = (case s of (off, buf) \<Rightarrow>
     let c = min (length buf - off) (length src) in (off + c, take off buf @ take c src @ drop (off + c) buf))"

fun pack_all :: "(bytes \<Rightarrow> poly \<Rightarrow> bytes outcome) \<Rightarrow> nat \<Rightarrow> nat \<Rightarrow> vec \<Rightarrow> bytes \<Rightarrow> bytes outcome" where
  "pack_all f stride off [] buf = Returns buf"
| "pack_all f stride off (w # ws) buf = bind_outcome (in_slice off (\<lambda>d. f d w) buf) (pack_all f stride (off + stride) ws)"

definition unpack_all :: "(bytes \<Rightarrow> poly outcome) \<Rightarrow> nat \<Rightarrow> nat \<Rightarrow> nat \<Rightarrow> bytes \<Rightarrow> vec outcome" where
  "unpack_all f stride off c src =
     map_outcome (\<lambda>i. if off + i * stride \<le> length src then f (drop (off + i * stride) src) else Panic) [0..<c]"

definition pkEncode :: "mldsa_params \<Rightarrow> bytes \<Rightarrow> vec \<Rightarrow> bytes outcome" where
  "pkEncode p rho t1 = pack_all (\<lambda>d w. bitPack d w 10) 320 seedB t1 (snd (copy_at rho (0, replicate (mp_PublicKeySize p) 0)))"

definition pkDecode :: "mldsa_params \<Rightarrow> bytes \<Rightarrow> (bytes \<times> vec) outcome" where
  "pkDecode p pk =
     (if length pk < seedB then Panic
      else bind_outcome (unpack_all (\<lambda>src. bitUnpack src 10) 320 seedB (mp_K p) pk) (\<lambda>t1. Returns (take seedB pk, t1)))"

definition skEncode :: "mldsa_params \<Rightarrow> bytes \<Rightarrow> bytes \<Rightarrow> bytes \<Rightarrow> vec \<Rightarrow> vec \<Rightarrow> vec \<Rightarrow> bytes outcome" where
  "skEncode p rho key tr s1 s2 t0 =
     (let (off, sk) = copy_at tr (copy_at key (copy_at rho (0, replicate (mp_PrivateKeySize p) 0)));
          etaLen = ring_n div 8 * mp_etaBits p;
          packEta = (\<lambda>d w. bitPackSigned d w (mp_Eta p) (mp_Eta p) (mp_etaBits p)) in
      bind_outcome (pack_all packEta etaLen off s1 sk) (\<lambda>sk.
      bind_outcome (pack_all packEta etaLen (off + length s1 * etaLen) s2 sk) (\<lambda>sk.
      pack_all (\<lambda>d w. bitPackSigned d w (2 ^ (drop_d - 1) - 1) (2 ^ (drop_d - 1)) drop_d) (ring_n div 8 * drop_d)
        (off + length s1 * etaLen + length s2 * etaLen) t0 sk)))"

definition skDecode :: "mldsa_params \<Rightarrow> bytes \<Rightarrow> (bytes \<times> bytes \<times> bytes \<times> vec \<times> vec \<times> vec) outcome" where
  "skDecode p sk =
     (if length sk < 128 then Panic
      else
        (let etaLen = ring_n div 8 * mp_etaBits p; unpackEta = (\<lambda>src. bitUnpackSigned src (mp_Eta p) (mp_Eta p)) in
         bind_outcome (unpack_all unpackEta etaLen 128 (mp_L p) sk) (\<lambda>s1.
         bind_outcome (unpack_all unpackEta etaLen (128 + mp_L p * etaLen) (mp_K p) sk) (\<lambda>s2.
         bind_outcome (unpack_all (\<lambda>src. bitUnpackSigned src (2 ^ (drop_d - 1) - 1) (2 ^ (drop_d - 1))) (ring_n div 8 * drop_d)
           (128 + mp_L p * etaLen + mp_K p * etaLen) (mp_K p) sk) (\<lambda>t0.
         Returns (take 32 sk, take 32 (drop 32 sk), take 64 (drop 64 sk), s1, s2, t0))))))"

definition sigEncode :: "mldsa_params \<Rightarrow> bytes \<Rightarrow> vec \<Rightarrow> vec \<Rightarrow> bytes outcome" where
  "sigEncode p cTilde z h =
     (let (off, sig) = copy_at cTilde (0, replicate (mp_SignatureSize p) 0); zLen = ring_n div 8 * mp_zBits p in
      bind_outcome (pack_all (\<lambda>d w. bitPackSigned d w (mp_Gamma1 p - 1) (mp_Gamma1 p) (mp_zBits p)) zLen off z sig) (\<lambda>sig.
      in_slice (off + length z * zLen) (\<lambda>d. hintBitPack p d h) sig))"

definition sigDecode :: "mldsa_params \<Rightarrow> bytes \<Rightarrow> (bytes \<times> vec \<times> vec option) outcome" where
  "sigDecode p sig =
     (let off = mp_Lambda p div 4; zLen = ring_n div 8 * mp_zBits p in
      if length sig < off then Panic
      else
        bind_outcome (unpack_all (\<lambda>src. bitUnpackSigned src (mp_Gamma1 p - 1) (mp_Gamma1 p)) zLen off (mp_L p) sig) (\<lambda>z.
        if length sig < off + mp_L p * zLen then Panic
        else bind_outcome (hintBitUnpack p (drop (off + mp_L p * zLen) sig)) (\<lambda>h. Returns (take off sig, z, h))))"

definition w1Encode :: "mldsa_params \<Rightarrow> vec \<Rightarrow> bytes outcome" where
  "w1Encode p w1 =
     pack_all (\<lambda>d w. bitPack d w (mp_w1Bits p)) (ring_n div 8 * mp_w1Bits p) 0 w1 (replicate (mp_K p * ring_n div 8 * mp_w1Bits p) 0)"

section \<open>Bit packing is positional notation\<close>

fun bval :: "bytes \<Rightarrow> int" where
  "bval [] = 0"
| "bval (b # bs) = uint b + 256 * bval bs"

fun cval :: "nat \<Rightarrow> int list \<Rightarrow> int" where
  "cval bits [] = 0"
| "cval bits (x # xs) = x + 2 ^ bits * cval bits xs"

lemma bval_append: "bval (xs @ ys) = bval xs + 256 ^ length xs * bval ys"
  by (induction xs) (simp_all add: algebra_simps)

lemma cval_append: "cval bits (xs @ ys) = cval bits xs + 2 ^ (bits * length xs) * cval bits ys"
  by (induction xs) (simp_all add: algebra_simps power_add)

lemma bval_nonneg: "0 \<le> bval bs" and bval_less: "bval bs < 256 ^ length bs"
proof (induction bs)
  case (Cons b bs)
  { case 1 then show ?case using Cons by simp }
  { case 2
    have "uint b < 256" using uint_lt2p [of b] by simp
    then show ?case using Cons.IH(2) by simp }
qed simp_all

lemma bval_inject: "length xs = length ys \<Longrightarrow> bval xs = bval ys \<Longrightarrow> xs = ys"
proof (induction xs ys rule: list_induct2)
  case (Cons x xs y ys)
  have "uint x < 256" "uint y < 256" using uint_lt2p [of x] uint_lt2p [of y] by simp_all
  moreover have "uint x + 256 * bval xs = uint y + 256 * bval ys" using Cons.prems by simp
  moreover have "(uint x + 256 * bval xs) mod 256 = uint x" "(uint y + 256 * bval ys) mod 256 = uint y"
    using calculation(1,2) by simp_all
  ultimately have "uint x = uint y" by simp
  then have "x = y" by (rule word_uint_eqI)
  moreover from this have "bval xs = bval ys" using Cons.prems by simp
  ultimately show ?case using Cons.IH by simp
qed simp

lemma or_disjoint: "0 \<le> a \<Longrightarrow> a < 2 ^ n \<Longrightarrow> a OR push_bit n b = a + 2 ^ n * b" for a b :: int
proof -
  assume a: "0 \<le> a" "a < 2 ^ n"
  have "a AND push_bit n b = 0"
  proof (rule bit_eqI)
    fix k
    have "take_bit n a = a" using a by (simp add: take_bit_int_eq_self)
    then have "bit a k \<Longrightarrow> k < n" by (metis bit_take_bit_iff)
    then show "bit (a AND push_bit n b) k = bit 0 k" by (auto simp: bit_and_iff bit_push_bit_iff)
  qed
  then have "a OR push_bit n b = a + push_bit n b" by (simp add: disjunctive_add_eq_or)
  then show ?thesis by (simp add: push_bit_eq_mult mult.commute)
qed

lemma flush_spec:
  assumes "0 \<le> acc" "acc < 2 ^ n" "flush acc n out = (acc', n', out')"
  shows "bval out' + 256 ^ length out' * acc' = bval out + 256 ^ length out * acc \<and> 0 \<le> acc' \<and> acc' < 2 ^ n' \<and> n' < 8
    \<and> 8 * length out' + n' = 8 * length out + n"
  using assms
proof (induction acc n out rule: flush.induct)
  case (1 acc n out)
  show ?case
  proof (cases "n \<ge> 8")
    case True
    have "flush (drop_bit 8 acc) (n - 8) (out @ [word_of_int acc]) = (acc', n', out')" using 1(4) True flush.simps [of acc n out] by simp
    moreover have "0 \<le> drop_bit 8 acc" using 1(2) by simp
    moreover have "drop_bit 8 acc < 2 ^ (n - 8)"
    proof -
      have "acc < 256 * 2 ^ (n - 8)" using 1(3) True power_add [of "2 :: int" 8 "n - 8"] by simp
      moreover have "256 * (acc div 256) \<le> acc" by simp
      ultimately have "acc div 256 < 2 ^ (n - 8)" by linarith
      then show ?thesis by (simp add: drop_bit_eq_div)
    qed
    ultimately have IH: "bval out' + 256 ^ length out' * acc' = bval (out @ [word_of_int acc]) + 256 ^ length (out @ [word_of_int acc :: byte]) * drop_bit 8 acc"
      "0 \<le> acc'" "acc' < 2 ^ n'" "n' < 8" "8 * length out' + n' = 8 * length (out @ [word_of_int acc :: byte]) + (n - 8)"
      using 1(1) [OF True] by blast+
    have "bval (out @ [word_of_int acc]) + 256 ^ length (out @ [word_of_int acc :: byte]) * drop_bit 8 acc
        = bval out + 256 ^ length out * (acc mod 256 + 256 * (acc div 256))"
      unfolding bval_append distrib_left by (simp add: uint_word_of_int drop_bit_eq_div)
    also have "\<dots> = bval out + 256 ^ length out * acc" by simp
    finally have "bval (out @ [word_of_int acc]) + 256 ^ length (out @ [word_of_int acc :: byte]) * drop_bit 8 acc = bval out + 256 ^ length out * acc" .
    then show ?thesis using IH True by simp
  next
    case False
    then show ?thesis using 1 flush.simps [of acc n out] by simp
  qed
qed

lemma pack_fold:
  assumes "\<And>x. x \<in> set a \<Longrightarrow> 0 \<le> x \<and> x < 2 ^ bits" "bits \<le> 32" "0 \<le> acc" "acc < 2 ^ n" "n < 8"
    and "fold (pack_step bits) a (acc, n, out) = (acc', n', out')"
  shows "bval out' + 256 ^ length out' * acc' = bval out + 256 ^ length out * (acc + 2 ^ n * cval bits a) \<and> 0 \<le> acc' \<and> acc' < 2 ^ n' \<and> n' < 8
    \<and> 8 * length out' + n' = 8 * length out + n + bits * length a"
  using assms
proof (induction a arbitrary: acc n out)
  case Nil
  then show ?case by simp
next
  case (Cons x a)
  have x: "0 \<le> x" "x < 2 ^ bits" using Cons.prems(1) by simp_all
  let ?acc = "acc + 2 ^ n * x"
  have "2 ^ n * x < 2 ^ n * 2 ^ bits" using x by simp
  moreover have "2 ^ n * (x + 1) \<le> (2 :: int) ^ n * 2 ^ bits" using x by (intro mult_left_mono) simp_all
  ultimately have lt: "?acc < 2 ^ (n + bits)" using Cons.prems(4) unfolding power_add distrib_left by linarith
  have "(2 :: int) ^ (n + bits) \<le> 2 ^ 64" using Cons.prems(2,5) by (intro power_increasing) simp_all
  then have fit: "take_bit 64 ?acc = ?acc" using lt x Cons.prems(3) by (intro take_bit_int_eq_self) simp_all
  have "x < 2 ^ 32" using x power_increasing [of bits 32 "2 :: int"] Cons.prems(2) by simp
  then have "take_bit 32 x = x" using x by (intro take_bit_int_eq_self) simp_all
  then have step: "pack_step bits x (acc, n, out) = flush ?acc (n + bits) out"
    unfolding pack_step_def prod.case by (simp only: or_disjoint [OF Cons.prems(3,4)] fit)
  obtain acc1 n1 out1 where f: "flush ?acc (n + bits) out = (acc1, n1, out1)" by (cases "flush ?acc (n + bits) out")
  have nn: "0 \<le> ?acc" using x Cons.prems(3) by simp
  note fl = flush_spec [OF nn lt f]
  have "fold (pack_step bits) a (acc1, n1, out1) = (acc', n', out')" using Cons.prems(6) step f by simp
  then have IH: "bval out' + 256 ^ length out' * acc' = bval out1 + 256 ^ length out1 * (acc1 + 2 ^ n1 * cval bits a)"
    "0 \<le> acc' \<and> acc' < 2 ^ n' \<and> n' < 8" "8 * length out' + n' = 8 * length out1 + n1 + bits * length a"
    using Cons.IH [of acc1 n1 out1] Cons.prems(1,2) fl by simp_all
  have "(256 :: int) ^ length out1 * 2 ^ n1 = 256 ^ length out * (2 ^ n * 2 ^ bits)"
  proof -
    have "(256 :: int) = 2 ^ 8" by simp
    then have "(256 :: int) ^ length out1 * 2 ^ n1 = 2 ^ (8 * length out1 + n1)" by (simp only: power_mult power_add)
    also have "\<dots> = 2 ^ (8 * length out + (n + bits))" using fl by simp
    also have "\<dots> = 256 ^ length out * (2 ^ n * 2 ^ bits)" unfolding \<open>(256 :: int) = 2 ^ 8\<close> by (simp only: power_mult power_add)
    finally show ?thesis .
  qed
  then have "bval out' + 256 ^ length out' * acc' = bval out + 256 ^ length out * ?acc + 256 ^ length out * (2 ^ n * 2 ^ bits) * cval bits a"
    using IH(1) fl by (simp add: distrib_left mult.assoc [symmetric])
  also have "\<dots> = bval out + 256 ^ length out * (acc + 2 ^ n * cval bits (x # a))" by (simp add: algebra_simps)
  finally show ?case using IH fl by simp
qed

lemma packed_spec:
  assumes "\<And>x. x \<in> set a \<Longrightarrow> 0 \<le> x \<and> x < 2 ^ bits" "bits \<le> 32" "length a = ring_n"
  shows "length (packed a bits) = 32 * bits" "bval (packed a bits) = cval bits a"
proof -
  obtain acc n out where f: "fold (pack_step bits) a (0, 0, []) = (acc, n, out)" by (cases "fold (pack_step bits) a (0, 0, [])")
  have s: "bval out + 256 ^ length out * acc = cval bits a" "acc < 2 ^ n" "0 \<le> acc" "n < 8" "8 * length out + n = bits * ring_n"
    using pack_fold [OF assms(1,2) _ _ _ f] assms(3) by simp_all
  then have "n = 0" by presburger
  then have "acc = 0" using s by simp
  with \<open>n = 0\<close> show "length (packed a bits) = 32 * bits" "bval (packed a bits) = cval bits a" using s f by (simp_all add: packed_def)
qed

lemma fill_spec:
  assumes "0 \<le> acc" "acc < 2 ^ n" "bits \<le> 32" "n < bits + 8" "bits \<le> n + 8 * (length src - idx)" "idx \<le> length src"
  shows "\<exists>acc' n' idx'. fill src bits (acc, n, idx) = Returns (acc', n', idx') \<and> bits \<le> n' \<and> n' < bits + 8 \<and> 0 \<le> acc' \<and> acc' < 2 ^ n'
    \<and> idx' \<le> length src \<and> n' + 8 * (length src - idx') = n + 8 * (length src - idx)
    \<and> acc' + 2 ^ n' * bval (drop idx' src) = acc + 2 ^ n * bval (drop idx src)"
  using assms
proof (induction src bits "(acc, n, idx)" arbitrary: acc n idx rule: fill.induct)
  case (1 src bits acc n idx)
  show ?case
  proof (cases "n < bits")
    case True
    then have idx: "idx < length src" using "1.prems" by (cases "idx = length src") auto
    let ?acc = "acc + 2 ^ n * uint (src ! idx)"
    have u: "uint (src ! idx) < 256" using uint_lt2p [of "src ! idx"] by simp
    have "2 ^ n * (uint (src ! idx) + 1) \<le> 2 ^ n * (2 :: int) ^ 8" using u by (intro mult_left_mono) simp_all
    then have lt: "?acc < 2 ^ (n + 8)" using "1.prems"(2) unfolding power_add distrib_left by linarith
    have "(2 :: int) ^ (n + 8) \<le> 2 ^ 64" using "1.prems"(3) True by (intro power_increasing) simp_all
    then have fit: "take_bit 64 (acc OR push_bit n (uint (src ! idx))) = ?acc"
      unfolding or_disjoint [OF "1.prems"(1,2)] using lt "1.prems"(1) by (intro take_bit_int_eq_self) simp_all
    have nn: "0 \<le> ?acc" using "1.prems"(1) by simp
    have d: "drop idx src = src ! idx # drop (idx + 1) src" using idx by (simp add: Cons_nth_drop_Suc)
    have step: "fill src bits (acc, n, idx) = fill src bits (?acc, n + 8, idx + 1)"
      using True idx fit fill.simps [of src bits acc n idx] by simp
    have len: "bits \<le> n + 8 + 8 * (length src - (idx + 1))" "n + 8 + 8 * (length src - (idx + 1)) = n + 8 * (length src - idx)"
      using "1.prems"(5) idx by simp_all
    have eq: "?acc + 2 ^ (n + 8) * bval (drop (idx + 1) src) = acc + 2 ^ n * bval (drop idx src)"
      unfolding d by (simp add: power_add algebra_simps)
    have "n + 8 < bits + 8" "idx + 1 \<le> length src" using True idx by simp_all
    from "1.hyps" [OF True idx, unfolded fit, OF nn lt "1.prems"(3) this(1) len(1) this(2)] show ?thesis unfolding step eq len(2) .
  next
    case False
    then show ?thesis using "1.prems" fill.simps [of src bits acc n idx] by simp
  qed
qed

text \<open>The digits of a number, least significant first.\<close>

fun digits :: "nat \<Rightarrow> nat \<Rightarrow> int \<Rightarrow> int list" where
  "digits bits 0 v = []"
| "digits bits (Suc c) v = v mod 2 ^ bits # digits bits c (v div 2 ^ bits)"

lemma digits_cval: "(\<And>x. x \<in> set xs \<Longrightarrow> 0 \<le> x \<and> x < 2 ^ bits) \<Longrightarrow> digits bits (length xs) (cval bits xs + 2 ^ (bits * length xs) * e) = xs"
proof (induction xs)
  case (Cons x xs)
  have x: "0 \<le> x" "x < 2 ^ bits" using Cons.prems by simp_all
  have v: "cval bits (x # xs) + 2 ^ (bits * length (x # xs)) * e = x + 2 ^ bits * (cval bits xs + 2 ^ (bits * length xs) * e)"
    by (simp add: algebra_simps power_add)
  show ?case unfolding v using Cons.IH Cons.prems x by simp
qed simp

lemma digits_range: "x \<in> set (digits bits c v) \<Longrightarrow> 0 \<le> x \<and> x < 2 ^ bits"
  by (induction bits c v rule: digits.induct) auto

lemma length_digits [simp]: "length (digits bits c v) = c"
  by (induction bits c v rule: digits.induct) auto

lemma unpack_from_digits:
  assumes "0 \<le> acc" "acc < 2 ^ n" "0 < bits" "bits < 32" "n < 8" "bits * c \<le> n + 8 * (length src - idx)" "idx \<le> length src"
  shows "unpack_from c src bits (acc, n, idx) = Returns (digits bits c (acc + 2 ^ n * bval (drop idx src)))"
  using assms
proof (induction c arbitrary: acc n idx)
  case (Suc c)
  have "n < bits + 8" "bits \<le> n + 8 * (length src - idx)" "bits \<le> 32" using Suc.prems by simp_all
  from fill_spec [OF Suc.prems(1,2) this(3,1,2) Suc.prems(7)]
  obtain acc' n' idx' where f: "fill src bits (acc, n, idx) = Returns (acc', n', idx')" "bits \<le> n'" "n' < bits + 8" "0 \<le> acc'" "acc' < 2 ^ n'"
    "idx' \<le> length src" "n' + 8 * (length src - idx') = n + 8 * (length src - idx)"
    and v: "acc' + 2 ^ n' * bval (drop idx' src) = acc + 2 ^ n * bval (drop idx src)" by blast
  have p: "(2 :: int) ^ n' = 2 ^ bits * 2 ^ (n' - bits)" using f(2) by (simp add: power_add [symmetric])
  let ?b = "bval (drop idx' src)"
  have m: "(acc' + 2 ^ n' * ?b) mod 2 ^ bits = acc' mod 2 ^ bits" unfolding p by (simp add: mult.assoc)
  have d: "(acc' + 2 ^ n' * ?b) div 2 ^ bits = acc' div 2 ^ bits + 2 ^ (n' - bits) * ?b" unfolding p by (simp add: mult.assoc)
  have "(2 :: int) ^ bits \<le> 2 ^ 31" using Suc.prems(4) by (intro power_increasing) simp_all
  moreover have "acc' mod 2 ^ bits < 2 ^ bits" and mod_nonneg: "0 \<le> acc' mod 2 ^ bits" by simp_all
  ultimately have "is_int32 (acc' mod 2 ^ bits)" unfolding is_int32_def by linarith
  then have w: "wrap32 (acc' AND (2 ^ bits - 1)) = acc' mod 2 ^ bits" unfolding and_mask by (rule wrap32_id)
  have "acc' div 2 ^ bits < 2 ^ (n' - bits)"
  proof (rule ccontr)
    assume "\<not> ?thesis"
    then have "2 ^ bits * 2 ^ (n' - bits) \<le> 2 ^ bits * (acc' div 2 ^ bits)" by (intro mult_left_mono) simp_all
    moreover have "2 ^ bits * (acc' div 2 ^ bits) \<le> acc'" using mult_div_mod_eq [of "2 ^ bits" acc'] mod_nonneg by linarith
    ultimately show False using f(5) p by linarith
  qed
  moreover have "0 \<le> acc' div 2 ^ bits" using f(4) by (simp add: pos_imp_zdiv_nonneg_iff)
  moreover have "bits * c \<le> n' - bits + 8 * (length src - idx')" using Suc.prems(6) f(2,7) by simp
  ultimately have "unpack_from c src bits (drop_bit bits acc', n' - bits, idx') = Returns (digits bits c (acc' div 2 ^ bits + 2 ^ (n' - bits) * ?b))"
    using Suc.IH [of "acc' div 2 ^ bits" "n' - bits" idx'] Suc.prems(3,4) f(2,3,6) by (simp add: drop_bit_eq_div)
  then show ?case using f(1) w by (simp add: v [symmetric] m d)
qed simp

lemma bitUnpack_digits:
  "0 < bits \<Longrightarrow> bits < 32 \<Longrightarrow> 32 * bits \<le> length src \<Longrightarrow> bitUnpack src bits = Returns (digits bits ring_n (bval src))"
  using unpack_from_digits [of 0 0 bits ring_n src 0] by (simp add: bitUnpack_def)

lemma bitUnpack_packed:
  assumes "\<And>x. x \<in> set a \<Longrightarrow> 0 \<le> x \<and> x < 2 ^ bits" "0 < bits" "bits < 32" "length a = ring_n"
  shows "bitUnpack (packed a bits @ rest) bits = Returns a"
proof -
  have b: "bits \<le> 32" using assms(3) by simp
  note s = packed_spec [OF assms(1) b assms(4)]
  have "(256 :: int) ^ (32 * bits) = 2 ^ (bits * length a)"
  proof -
    have "(256 :: int) = 2 ^ 8" by simp
    then show ?thesis using assms(4) by (simp only: power_mult [symmetric]) (simp add: mult.commute)
  qed
  then have "bval (packed a bits @ rest) = cval bits a + 2 ^ (bits * length a) * bval rest" using s by (simp add: bval_append)
  then show ?thesis
    using bitUnpack_digits [OF assms(2,3), of "packed a bits @ rest"] s(1) digits_cval [of a bits "bval rest", OF assms(1)] assms(4) by simp
qed

section \<open>Signed values\<close>

text \<open>The three ranges of signed values that the code packs.\<close>

definition pack_range :: "int \<Rightarrow> int \<Rightarrow> nat \<Rightarrow> bool" where
  "pack_range a b bits \<longleftrightarrow> 0 < b \<and> 0 \<le> a \<and> bits = bitLen (take_bit 32 (wrap32 (a + b))) \<and> a + b < 2 ^ bits \<and> 0 < bits \<and> bits \<le> 20"

definition signed_poly :: "int \<Rightarrow> int \<Rightarrow> poly \<Rightarrow> bool" where
  "signed_poly a b w \<longleftrightarrow> canonical_poly w \<and> (\<forall>x \<in> set w. - a \<le> centered x \<and> centered x \<le> b)"

lemma pack_range_pow: "pack_range a b bits \<Longrightarrow> (2 :: int) ^ bits \<le> 1048576"
  using power_increasing [of bits 20 "2 :: int"] by (simp add: pack_range_def)

lemma signed_value:
  assumes "pack_range a b bits" "signed_poly a b w" "x \<in> set w"
  shows "wrap32 (b - centered x) = b - centered x" "0 \<le> b - centered x" "b - centered x < 2 ^ bits" "canon (wrap32 (b - (b - centered x))) = x"
proof -
  have x: "canonical x" "- a \<le> centered x" "centered x \<le> b" using assms(2,3) by (auto simp: signed_poly_def canonical_poly_def)
  have r: "a + b < 2 ^ bits" "0 \<le> a" "0 < b" using assms(1) unfolding pack_range_def by blast+
  show lt: "0 \<le> b - centered x" "b - centered x < 2 ^ bits" using x r by simp_all
  then show "wrap32 (b - centered x) = b - centered x" using pack_range_pow [OF assms(1)] by (intro wrap32_id) (simp add: is_int32_def)
  have c: "\<bar>centered x\<bar> < modq" using x(1) by (auto simp: centered_eq canonical_def)
  then have "is_int32 (centered x)" unfolding is_int32_def by (simp add: abs_less_iff)
  then have "wrap32 (b - (b - centered x)) = centered x" by (simp add: wrap32_id)
  moreover have "canon (centered x) = x" using canon_eq [of "centered x"] c centered_eq [OF x(1)] x(1) by (auto simp: canonical_def split: if_splits)
  ultimately show "canon (wrap32 (b - (b - centered x))) = x" by simp
qed

definition packed_signed :: "poly \<Rightarrow> int \<Rightarrow> nat \<Rightarrow> bytes" where
  "packed_signed w b bits = packed (map (\<lambda>x. wrap32 (b - centered x)) w) bits"

lemma bitPackSigned_eq: "bitPackSigned dst w a b bits = overwrite dst (packed_signed w b bits)"
  by (simp add: bitPackSigned_def bitPack_def packed_signed_def)

lemma length_packed_signed:
  assumes "pack_range a b bits" "signed_poly a b w"
  shows "length (packed_signed w b bits) = 32 * bits"
  unfolding packed_signed_def
proof (rule packed_spec)
  show "bits \<le> 32" using assms(1) by (simp add: pack_range_def)
  show "length (map (\<lambda>x. wrap32 (b - centered x)) w) = ring_n" using assms(2) by (simp add: signed_poly_def canonical_poly_def)
qed (use signed_value [OF assms] in auto)

lemma bitUnpackSigned_packed:
  assumes "pack_range a b bits" "signed_poly a b w"
  shows "bitUnpackSigned (packed_signed w b bits @ rest) a b = Returns w"
proof -
  have r: "bitLen (take_bit 32 (wrap32 (a + b))) = bits" "0 < bits" "bits < 32" using assms(1) by (simp_all add: pack_range_def)
  have len: "length (map (\<lambda>x. wrap32 (b - centered x)) w) = ring_n" using assms(2) by (simp add: signed_poly_def canonical_poly_def)
  have "bitUnpack (packed_signed w b bits @ rest) bits = Returns (map (\<lambda>x. wrap32 (b - centered x)) w)"
    unfolding packed_signed_def by (rule bitUnpack_packed [OF _ r(2,3) len]) (use signed_value [OF assms] in auto)
  moreover have "map (\<lambda>x. canon (wrap32 (b - wrap32 (b - centered x)))) w = w"
    using signed_value [OF assms] by (intro map_idI) simp
  ultimately show ?thesis by (simp add: bitUnpackSigned_def r o_def)
qed

lemma bitUnpackSigned_returns:
  assumes "pack_range a b bits" "32 * bits \<le> length src" "b < modq"
  shows "\<exists>w. bitUnpackSigned src a b = Returns w \<and> canonical_poly w"
proof -
  have r: "bitLen (take_bit 32 (wrap32 (a + b))) = bits" "0 < bits" "bits < 32" "0 < b" using assms(1) by (simp_all add: pack_range_def)
  have "canonical (canon (wrap32 (b - x)))" if "x \<in> set (digits bits ring_n (bval src))" for x
  proof -
    have "0 \<le> x" "x < 1048576" using digits_range [OF that] pack_range_pow [OF assms(1)] by simp_all
    then have "- modq < b - x" "b - x < modq" "wrap32 (b - x) = b - x" using assms(3) r(4) by (simp_all add: wrap32_id is_int32_def)
    then show ?thesis using canon_eq [of "b - x"] by (simp add: canonical_def)
  qed
  then show ?thesis using bitUnpack_digits [OF r(2,3) assms(2)] by (auto simp: bitUnpackSigned_def r canonical_poly_def)
qed

lemma bitLen_power: "bitLen (2 ^ k - 1) = k"
proof (induction k)
  case 0
  show ?case by (simp add: bitLen.simps)
next
  case (Suc k)
  have "(2 :: int) ^ Suc k - 1 = 2 * (2 ^ k - 1) + 1" by simp
  then have "drop_bit 1 ((2 :: int) ^ Suc k - 1) = 2 ^ k - 1" by (simp only: drop_bit_eq_div) simp
  moreover have "\<not> (2 :: int) ^ Suc k - 1 \<le> 0" unfolding power_Suc using zero_less_power [of "2 :: int" k] by linarith
  ultimately show ?case using Suc bitLen.simps [of "2 ^ Suc k - 1"] by simp
qed

lemma pack_ranges:
  assumes "standard_params p"
  shows "pack_range (mp_Eta p) (mp_Eta p) (mp_etaBits p)" "pack_range (2 ^ 12 - 1) (2 ^ 12) 13"
    "pack_range (mp_Gamma1 p - 1) (mp_Gamma1 p) (mp_zBits p)"
proof -
  have b: "bitLen 4 = 3" "bitLen 8 = 4" by (simp_all add: bitLen.simps drop_bit_eq_div)
  have c: "bitLen 8191 = 13" "bitLen 262143 = 18" "bitLen 1048575 = 20"
    using bitLen_power [of 13] bitLen_power [of 18] bitLen_power [of 20] by simp_all
  have t: "take_bit 32 x = x" if "0 \<le> x" "x < 2 ^ 32" for x :: int using that by (intro take_bit_int_eq_self) simp_all
  note pr = pack_range_def standard_params_def MLDSA44_def MLDSA65_def MLDSA87_def newParams_def wrap32_id is_int32_def t b c
  show "pack_range (mp_Eta p) (mp_Eta p) (mp_etaBits p)" using assms by (auto simp: pr)
  show "pack_range (2 ^ 12 - 1) (2 ^ 12) 13" by (simp add: pr)
  show "pack_range (mp_Gamma1 p - 1) (mp_Gamma1 p) (mp_zBits p)" using assms by (auto simp: pr)
qed

section \<open>The encoding of a hint\<close>

text \<open>The positions of the ones of a row, and what a packed hint looks like: positions, padding, and for each row the number of ones up to it.\<close>

fun positions_from :: "nat \<Rightarrow> poly \<Rightarrow> nat list" where
  "positions_from j [] = []"
| "positions_from j (x # xs) = (if x = 1 then [j] else []) @ positions_from (j + 1) xs"

abbreviation positions :: "poly \<Rightarrow> nat list" where "positions \<equiv> positions_from 0"

abbreviation row_bytes :: "poly \<Rightarrow> bytes" where "row_bytes r \<equiv> map word_of_nat (positions r)"

fun counts :: "nat \<Rightarrow> vec \<Rightarrow> bytes" where
  "counts idx [] = []"
| "counts idx (r # rs) = word_of_nat (idx + length (positions r)) # counts (idx + length (positions r)) rs"

definition weight :: "vec \<Rightarrow> nat" where
  "weight h = length (concat (map positions h))"

definition hint_bytes :: "mldsa_params \<Rightarrow> vec \<Rightarrow> bytes" where
  "hint_bytes p h = concat (map row_bytes h) @ replicate (mp_Omega p - weight h) 0 @ counts 0 h"

definition hint_poly :: "poly \<Rightarrow> bool" where
  "hint_poly r \<longleftrightarrow> length r = ring_n \<and> set r \<subseteq> {0, 1}"

lemma weight_simps [simp]: "weight [] = 0" "weight (r # rs) = length (positions r) + weight rs"
  by (simp_all add: weight_def)

lemma length_row_bytes: "length (concat (map row_bytes h)) = weight h"
  by (induction h) simp_all

lemma length_counts [simp]: "length (counts idx h) = length h"
  by (induction h arbitrary: idx) simp_all

lemma hint_row_spec:
  "idx + length (positions_from j xs) \<le> length dst \<Longrightarrow>
   hint_row j xs (idx, dst) = Returns (idx + length (positions_from j xs),
     take idx dst @ map word_of_nat (positions_from j xs) @ drop (idx + length (positions_from j xs)) dst)"
proof (induction xs arbitrary: j idx dst)
  case (Cons x xs)
  show ?case
  proof (cases "x = 1")
    case True
    then have i: "idx < length dst" "idx + 1 + length (positions_from (j + 1) xs) \<le> length dst" using Cons.prems by simp_all
    moreover have "take (Suc idx) (dst[idx := word_of_nat j]) = take idx dst @ [word_of_nat j]" using i by (simp add: take_Suc_conv_app_nth)
    ultimately show ?thesis using True Cons.IH [of "idx + 1" "j + 1" "dst[idx := word_of_nat j]"] by (simp add: drop_update_cancel)
  next
    case False
    then show ?thesis using Cons.IH [of idx "j + 1" dst] Cons.prems by simp
  qed
qed simp

lemma hint_rows_spec:
  assumes "length pre + weight h \<le> mp_Omega p"
    and "length cs = i"
  shows "hint_rows p i h (length pre, pre @ replicate (mp_Omega p - length pre) 0 @ cs @ replicate (length h) 0) =
    Returns (pre @ concat (map row_bytes h) @ replicate (mp_Omega p - length pre - weight h) 0 @ cs @ counts (length pre) h)"
  using assms
proof (induction h arbitrary: pre cs i)
  case (Cons r h)
  let ?n = "length (positions r)"
  let ?om = "mp_Omega p"
  let ?dst = "pre @ replicate (?om - length pre) 0 @ cs @ replicate (length (r # h)) 0"
  let ?dst' = "pre @ row_bytes r @ replicate (?om - length pre - ?n) 0 @ cs @ replicate (length (r # h)) 0"
  have le: "length pre + ?n \<le> ?om" using Cons.prems by simp
  have "hint_row 0 r (length pre, ?dst) = Returns (length pre + ?n, ?dst')"
    using hint_row_spec [of "length pre" 0 r ?dst] le by (simp add: drop_replicate)
  moreover have "?dst'[?om + i := word_of_nat (length pre + ?n)] =
      (pre @ row_bytes r) @ replicate (?om - length (pre @ row_bytes r)) 0 @ (cs @ [word_of_nat (length pre + ?n)]) @ replicate (length h) 0"
    using le Cons.prems(2) list_update_length [of "pre @ row_bytes r @ replicate (?om - length pre - ?n) 0 @ cs" 0 "replicate (length h) 0"]
    by simp
  moreover have "?om + i < length ?dst'" using le Cons.prems(2) by simp
  ultimately have "hint_rows p i (r # h) (length pre, ?dst) =
      hint_rows p (i + 1) h (length (pre @ row_bytes r), (pre @ row_bytes r) @ replicate (?om - length (pre @ row_bytes r)) 0
        @ (cs @ [word_of_nat (length pre + ?n)]) @ replicate (length h) 0)"
    by simp
  also have "\<dots> = Returns (pre @ concat (map row_bytes (r # h)) @ replicate (?om - length pre - weight (r # h)) 0 @ cs @ counts (length pre) (r # h))"
    using Cons.IH [of "pre @ row_bytes r" "cs @ [word_of_nat (length pre + ?n)]" "i + 1"] Cons.prems by simp
  finally show ?case .
qed simp

lemma hintBitPack_eq:
  "weight h \<le> mp_Omega p \<Longrightarrow> length h = mp_K p \<Longrightarrow> hintBitPack p (replicate (mp_Omega p + mp_K p) 0) h = Returns (hint_bytes p h)"
  using hint_rows_spec [of "[]" h p "[]" 0] by (simp add: hintBitPack_def hint_bytes_def replicate_add)

section \<open>Accepted hints\<close>

lemma positions_from_append: "positions_from j (xs @ ys) = positions_from j xs @ positions_from (j + length xs) ys"
  by (induction xs arbitrary: j) simp_all

lemma positions_from_bounds: "i \<in> set (positions_from j xs) \<longleftrightarrow> j \<le> i \<and> i < j + length xs \<and> xs ! (i - j) = 1"
proof (induction xs arbitrary: j)
  case (Cons x xs)
  show ?case using Cons [of "j + 1"] by (cases "i = j") (auto simp: nth_Cons')
qed simp

lemma positions_sorted: "sorted_wrt (<) (positions_from j xs)"
  by (induction xs arbitrary: j) (auto simp: positions_from_bounds)

text \<open>The row with ones at the given positions.\<close>

definition mark :: "bytes \<Rightarrow> poly \<Rightarrow> poly" where
  "mark bs row = fold (\<lambda>b row. row[unat b := 1]) bs row"

lemma mark_simps [simp]: "mark [] row = row" "mark (b # bs) row = mark bs (row[unat b := 1])"
  by (simp_all add: mark_def)

lemma length_mark [simp]: "length (mark bs row) = length row"
  by (induction bs arbitrary: row) simp_all

lemma mark_nth: "i < length row \<Longrightarrow> mark bs row ! i = (if i \<in> unat ` set bs then 1 else row ! i)"
  by (induction bs arbitrary: row) (auto simp: nth_list_update)

lemma byte_less: "unat (b :: byte) < 256"
  using unsigned_less [where ?'a = nat and w = b] by simp

lemma hint_poly_mark: "hint_poly (mark bs zero_poly)"
proof -
  have "mark bs zero_poly ! i = 0 \<or> mark bs zero_poly ! i = 1" if "i < 256" for i
    using mark_nth [of i zero_poly bs] that by (simp add: zero_poly_def)
  moreover have "length (mark bs zero_poly) = ring_n" by (simp add: zero_poly_def)
  ultimately show ?thesis unfolding hint_poly_def by (metis in_set_conv_nth insert_iff subsetI)
qed

lemma row_bytes_mark:
  assumes "sorted_wrt (<) bs"
  shows "row_bytes (mark bs zero_poly) = bs"
proof -
  have "sorted_wrt (<) (map unat bs)" unfolding sorted_wrt_map
    by (rule sorted_wrt_mono_rel [OF _ assms]) (simp add: word_less_nat_alt)
  moreover have "sorted_wrt (<) (positions (mark bs zero_poly))" by (rule positions_sorted)
  moreover have "set (positions (mark bs zero_poly)) = set (map unat bs)"
    using byte_less by (auto simp: positions_from_bounds mark_nth zero_poly_def split: if_splits)
  ultimately have "positions (mark bs zero_poly) = map unat bs" by (metis strict_sorted_equal)
  then show ?thesis by (simp add: o_def)
qed

lemma unat_position: "r < 256 \<Longrightarrow> unat (word_of_nat r :: byte) = r"
  by (simp add: unat_of_nat)

lemma mark_row_bytes:
  assumes "hint_poly r"
  shows "mark (row_bytes r) zero_poly = r"
proof (rule nth_equalityI)
  show "length (mark (row_bytes r) zero_poly) = length r" using assms by (simp add: hint_poly_def zero_poly_def)
  fix i assume "i < length (mark (row_bytes r) zero_poly)"
  then have i: "i < 256" by (simp add: zero_poly_def)
  have l: "length r = 256" using assms by (simp add: hint_poly_def)
  then have "r ! i \<in> set r" using i by simp
  then have r: "length r = 256" "r ! i = 0 \<or> r ! i = 1" using assms l unfolding hint_poly_def by auto
  have "unat ` set (row_bytes r) = set (positions r)" using r(1) by (force simp: positions_from_bounds image_image unat_position)
  then have "i \<in> unat ` set (row_bytes r) \<longleftrightarrow> r ! i = 1" using i r(1) by (simp only: positions_from_bounds) simp
  then show "mark (row_bytes r) zero_poly ! i = r ! i" using i r mark_nth [of i zero_poly "row_bytes r"] by (auto simp: zero_poly_def)
qed

lemma row_bytes_sorted: "length r = ring_n \<Longrightarrow> sorted_wrt (<) (row_bytes r)"
proof -
  assume r: "length r = ring_n"
  have "sorted_wrt (\<lambda>a b. (word_of_nat a :: byte) < word_of_nat b) (positions r)"
    using positions_sorted [of 0 r]
    by (rule sorted_wrt_mono_rel [rotated]) (use r in \<open>auto simp: word_less_nat_alt unat_position positions_from_bounds\<close>)
  then show ?thesis by (simp add: sorted_wrt_map)
qed

lemma ones_spec:
  assumes "idx \<le> stop" "stop \<le> length src" "first \<le> idx"
  shows "ones src first idx stop row = Returns
    (if sorted_wrt (<) ((if first < idx then [src ! (idx - 1)] else []) @ take (stop - idx) (drop idx src))
     then Some (stop, mark (take (stop - idx) (drop idx src)) row) else None)"
  using assms
proof (induction src first idx stop row rule: ones.induct)
  case (1 src first idx stop row)
  show ?case
  proof (cases "idx < stop")
    case True
    have idx: "idx < length src" using True 1 by simp
    have seg: "take (stop - idx) (drop idx src) = src ! idx # take (stop - (idx + 1)) (drop (idx + 1) src)"
      using True idx by (simp add: Cons_nth_drop_Suc [symmetric] take_Cons' Suc_diff_Suc)
    show ?thesis
    proof (cases "idx > first \<and> src ! (idx - 1) \<ge> src ! idx")
      case bad: True
      then have "\<not> src ! (idx - 1) < src ! idx" by (simp add: not_less)
      then show ?thesis unfolding seg using bad True idx ones.simps [of src first idx stop row] by simp
    next
      case False
      have "ones src first idx stop row = ones src first (idx + 1) stop (row[unat (src ! idx) := 1])"
        using False True idx by (subst ones.simps) auto
      also have "\<dots> = Returns (if sorted_wrt (<) (src ! idx # take (stop - (idx + 1)) (drop (idx + 1) src))
          then Some (stop, mark (take (stop - (idx + 1)) (drop (idx + 1) src)) (row[unat (src ! idx) := 1])) else None)"
        using "1.IH" [OF True idx False] True "1.prems" by simp
      finally show ?thesis unfolding seg using False by (auto simp: sorted_wrt2 [OF transp_on_less] intro: less_trans)
    qed
  next
    case False
    then show ?thesis using 1 ones.simps [of src first idx stop row] by simp
  qed
qed

text \<open>What the source must hold at a row for the row to be read.\<close>

fun hint_at :: "mldsa_params \<Rightarrow> bytes \<Rightarrow> nat \<Rightarrow> nat \<Rightarrow> vec \<Rightarrow> bool" where
  "hint_at p src i idx [] = True"
| "hint_at p src i idx (r # rs) =
     (hint_poly r \<and> idx + length (positions r) \<le> mp_Omega p \<and> unat (src ! (mp_Omega p + i)) = idx + length (positions r)
      \<and> take (length (positions r)) (drop idx src) = row_bytes r \<and> hint_at p src (i + 1) (idx + length (positions r)) rs)"

lemma bind_ok_Some: "bind_ok r f = Returns (Some b) \<longleftrightarrow> (\<exists>a. r = Returns (Some a) \<and> f a = Returns (Some b))"
  by (auto simp: bind_ok_def bind_outcome_Returns split: option.splits)

lemma ones_row:
  assumes "idx \<le> stop" "stop \<le> length src"
  shows "ones src idx idx stop zero_poly = Returns (Some (idx', r)) \<longleftrightarrow>
    idx' = stop \<and> hint_poly r \<and> length (positions r) = stop - idx \<and> take (stop - idx) (drop idx src) = row_bytes r"
proof -
  let ?seg = "take (stop - idx) (drop idx src)"
  have len: "length ?seg = stop - idx" using assms by simp
  have "(sorted_wrt (<) ?seg \<and> r = mark ?seg zero_poly) \<longleftrightarrow> (hint_poly r \<and> length (positions r) = stop - idx \<and> ?seg = row_bytes r)"
    (is "?l \<longleftrightarrow> ?r")
  proof
    assume ?l
    then have "?seg = row_bytes r" "hint_poly r" using row_bytes_mark [of ?seg] hint_poly_mark by simp_all
    moreover from this(1) have "length (positions r) = stop - idx" using len by (metis length_map)
    ultimately show ?r by blast
  next
    assume ?r
    then show ?l using mark_row_bytes [of r] row_bytes_sorted [of r] by (simp add: hint_poly_def)
  qed
  then show ?thesis using ones_spec [OF assms order_refl, of zero_poly] by auto
qed

lemma unhint_rows_iff:
  assumes "mp_Omega p + i + m \<le> length src" "idx \<le> mp_Omega p"
  shows "unhint_rows p src [i..<i + m] idx = Returns (Some (idx', h)) \<longleftrightarrow>
    length h = m \<and> idx' = idx + weight h \<and> hint_at p src i idx h"
  using assms
proof (induction m arbitrary: i idx h)
  case (Suc m)
  let ?stop = "unat (src ! (mp_Omega p + i))"
  have u: "[i..<i + Suc m] = i # [i + 1..<i + 1 + m]" by (simp add: upt_conv_Cons)
  have len: "mp_Omega p + i < length src" "mp_Omega p + (i + 1) + m \<le> length src" using Suc.prems by simp_all
  show ?case
  proof (cases "?stop < idx \<or> ?stop > mp_Omega p")
    case True
    then show ?thesis unfolding u using len by (cases h) (auto simp: Let_def)
  next
    case False
    have stop: "idx \<le> ?stop" "?stop \<le> length src" "?stop \<le> mp_Omega p" using False len by simp_all
    have "unhint_rows p src (i # [i + 1..<i + 1 + m]) idx = Returns (Some (idx', h)) \<longleftrightarrow>
        (\<exists>r rs. h = r # rs \<and> ones src idx idx ?stop zero_poly = Returns (Some (?stop, r))
          \<and> unhint_rows p src [i + 1..<i + 1 + m] ?stop = Returns (Some (idx', rs)))"
      using False len ones_row [OF stop(1,2)] by (auto simp: Let_def bind_ok_Some)
    also have "\<dots> \<longleftrightarrow> (\<exists>r rs. h = r # rs \<and> hint_poly r \<and> length (positions r) = ?stop - idx \<and> take (?stop - idx) (drop idx src) = row_bytes r
        \<and> length rs = m \<and> idx' = ?stop + weight rs \<and> hint_at p src (i + 1) ?stop rs)"
      unfolding ones_row [OF stop(1,2)] Suc.IH [OF len(2) stop(3)] by blast
    also have "\<dots> \<longleftrightarrow> length h = Suc m \<and> idx' = idx + weight h \<and> hint_at p src i idx h"
      using stop by (cases h) auto
    finally show ?thesis unfolding u .
  qed
qed auto

lemma padding_eq: "(\<And>i. i \<in> set is \<Longrightarrow> i < length src) \<Longrightarrow> padding src is = Returns (\<forall>i \<in> set is. src ! i = 0)"
  by (induction "is") auto

lemma byte_count: "v < 256 \<Longrightarrow> unat (b :: byte) = v \<longleftrightarrow> b = word_of_nat v"
  by (metis unat_position word_unat_eq_iff)

lemma hint_at_iff:
  assumes "mp_Omega p + i + length h \<le> length src" "idx \<le> mp_Omega p" "mp_Omega p < 256"
  shows "hint_at p src i idx h \<longleftrightarrow> (\<forall>r \<in> set h. hint_poly r) \<and> idx + weight h \<le> mp_Omega p
    \<and> take (weight h) (drop idx src) = concat (map row_bytes h) \<and> take (length h) (drop (mp_Omega p + i) src) = counts idx h"
  using assms
proof (induction h arbitrary: i idx)
  case (Cons r h)
  let ?n = "length (positions r)"
  show ?case
  proof (cases "idx + ?n \<le> mp_Omega p")
    case True
    have l: "mp_Omega p + i < length src" "mp_Omega p + (i + 1) + length h \<le> length src" using Cons.prems by simp_all
    have "take (weight (r # h)) (drop idx src) = take ?n (drop idx src) @ take (weight h) (drop (idx + ?n) src)"
      unfolding weight_simps take_add by (simp add: add.commute)
    then have "take (weight (r # h)) (drop idx src) = concat (map row_bytes (r # h)) \<longleftrightarrow>
        take ?n (drop idx src) = row_bytes r \<and> take (weight h) (drop (idx + ?n) src) = concat (map row_bytes h)"
      using True l by simp
    moreover have "take (length (r # h)) (drop (mp_Omega p + i) src) = src ! (mp_Omega p + i) # take (length h) (drop (mp_Omega p + (i + 1)) src)"
      using l by (simp add: Cons_nth_drop_Suc [symmetric])
    moreover have "unat (src ! (mp_Omega p + i)) = idx + ?n \<longleftrightarrow> src ! (mp_Omega p + i) = word_of_nat (idx + ?n)"
      using True Cons.prems(3) by (intro byte_count) simp
    ultimately show ?thesis using Cons.IH [OF l(2) True Cons.prems(3)] True by auto
  qed auto
qed simp

lemma hintBitUnpack_iff:
  assumes "length src = mp_Omega p + mp_K p" "mp_Omega p < 256"
  shows "hintBitUnpack p src = Returns (Some h) \<longleftrightarrow>
    length h = mp_K p \<and> (\<forall>r \<in> set h. hint_poly r) \<and> weight h \<le> mp_Omega p \<and> src = hint_bytes p h"
proof -
  let ?om = "mp_Omega p"
  have "hintBitUnpack p src = Returns (Some h) \<longleftrightarrow>
      length h = mp_K p \<and> hint_at p src 0 0 h \<and> padding src [weight h..<?om] = Returns True"
    using unhint_rows_iff [of p 0 "mp_K p" src 0] assms(1)
    by (auto simp: hintBitUnpack_def bind_ok_Some bind_outcome_Returns split: if_splits)
  also have "\<dots> \<longleftrightarrow> length h = mp_K p \<and> hint_at p src 0 0 h \<and> (\<forall>i \<in> {weight h..<?om}. src ! i = 0)"
    using assms(1) by (subst padding_eq) simp_all
  also have "\<dots> \<longleftrightarrow> length h = mp_K p \<and> (\<forall>r \<in> set h. hint_poly r) \<and> weight h \<le> ?om
      \<and> take (weight h) src = concat (map row_bytes h) \<and> take (length h) (drop ?om src) = counts 0 h \<and> (\<forall>i \<in> {weight h..<?om}. src ! i = 0)"
    using hint_at_iff [of p 0 h src 0] assms by auto
  also have "\<dots> \<longleftrightarrow> length h = mp_K p \<and> (\<forall>r \<in> set h. hint_poly r) \<and> weight h \<le> ?om \<and> src = hint_bytes p h"
  proof -
    have "take (weight h) src = concat (map row_bytes h) \<and> take (length h) (drop ?om src) = counts 0 h \<and> (\<forall>i \<in> {weight h..<?om}. src ! i = 0)
        \<longleftrightarrow> src = hint_bytes p h" if h: "length h = mp_K p" "weight h \<le> ?om"
    proof -
      have s: "src = take (weight h) src @ take (?om - weight h) (drop (weight h) src) @ drop ?om src"
        using h(2) by (metis append_assoc append_take_drop_id le_add_diff_inverse take_add)
      have z: "(\<forall>i \<in> {weight h..<?om}. src ! i = 0) \<longleftrightarrow> take (?om - weight h) (drop (weight h) src) = replicate (?om - weight h) 0"
      proof
        assume "\<forall>i \<in> {weight h..<?om}. src ! i = 0"
        then show "take (?om - weight h) (drop (weight h) src) = replicate (?om - weight h) 0"
          using h assms(1) by (intro nth_equalityI) auto
      next
        assume e: "take (?om - weight h) (drop (weight h) src) = replicate (?om - weight h) 0"
        have "src ! i = 0" if "weight h \<le> i" "i < ?om" for i
          using arg_cong [OF e, of "\<lambda>xs. xs ! (i - weight h)"] that assms(1) by simp
        then show "\<forall>i \<in> {weight h..<?om}. src ! i = 0" by simp
      qed
      have c: "take (length h) (drop ?om src) = drop ?om src" using h(1) assms(1) by simp
      show ?thesis unfolding z c hint_bytes_def
        by (subst (4) s) (use h assms(1) in \<open>auto simp: length_row_bytes append_eq_append_conv\<close>)
    qed
    then show ?thesis by blast
  qed
  finally show ?thesis .
qed

lemma hintBitUnpack_returns:
  assumes "mp_Omega p + mp_K p \<le> length src"
  shows "\<exists>r. hintBitUnpack p src = Returns r"
proof -
  have rows: "\<exists>r. unhint_rows p src is idx = Returns r" if "\<forall>i \<in> set is. mp_Omega p + i < length src" for "is" idx
    using that
  proof (induction "is" arbitrary: idx)
    case (Cons i "is")
    let ?stop = "unat (src ! (mp_Omega p + i))"
    obtain r where "unhint_rows p src is ?stop = Returns r" using Cons by auto
    then show ?case using Cons.prems ones_spec [of idx ?stop src idx zero_poly]
      by (cases r) (auto simp: Let_def bind_ok_def)
  qed simp
  have pad: "padding src [a..<mp_Omega p] = Returns (\<forall>i \<in> set [a..<mp_Omega p]. src ! i = 0)" for a
    using assms by (intro padding_eq) simp
  show ?thesis
    using rows [of "[0..<mp_K p]" 0] assms by (auto simp: pad hintBitUnpack_def bind_ok_def split: option.splits)
qed

section \<open>Round trips\<close>

lemma overwrite_eq: "length out \<le> length dst \<Longrightarrow> overwrite dst out = Returns (out @ drop (length out) dst)"
  by (simp add: overwrite_def)

lemma copy_at_eq: "copy_at src (length pre, pre @ replicate m 0) = (length pre + length src, pre @ src @ replicate (m - length src) 0)"
  if "length src \<le> m"
  using that by (simp add: copy_at_def Let_def min_def)

lemma pack_all_eq:
  assumes "\<And>d w. w \<in> set ws \<Longrightarrow> stride \<le> length d \<Longrightarrow> f d w = Returns (g w @ drop stride d)"
    and "\<And>w. w \<in> set ws \<Longrightarrow> length (g w) = stride" and "stride * length ws \<le> m"
  shows "pack_all f stride (length pre) ws (pre @ replicate m 0) = Returns (pre @ concat (map g ws) @ replicate (m - stride * length ws) 0)"
  using assms
proof (induction ws arbitrary: pre m)
  case (Cons w ws)
  have "in_slice (length pre) (\<lambda>d. f d w) (pre @ replicate m 0) = Returns ((pre @ g w) @ replicate (m - stride) 0)"
    using Cons.prems by (simp add: in_slice_def)
  moreover have "length (pre @ g w) = length pre + stride" using Cons.prems(2) by simp
  ultimately show ?case using Cons.IH [of "m - stride" "pre @ g w"] Cons.prems by (simp add: diff_diff_left)
qed simp

lemma unpack_all_eq:
  assumes "\<And>w rest. w \<in> set ws \<Longrightarrow> f (g w @ rest) = Returns w" and "\<And>w. w \<in> set ws \<Longrightarrow> length (g w) = stride"
  shows "unpack_all f stride (length pre) (length ws) (pre @ concat (map g ws) @ rest) = Returns ws"
proof -
  let ?src = "pre @ concat (map g ws) @ rest"
  have at: "length pre + i * stride \<le> length ?src \<and> f (drop (length pre + i * stride) ?src) = Returns (ws ! i)" if i: "i < length ws" for i
  proof -
    have len: "length (concat (map g vs)) = length vs * stride" if "set vs \<subseteq> set ws" for vs
      using that assms(2) by (induction vs) auto
    have "concat (map g ws) = concat (map g (take i ws)) @ g (ws ! i) @ concat (map g (drop (Suc i) ws))"
      by (subst (1) id_take_nth_drop [OF i]) simp
    moreover have "length (concat (map g (take i ws))) = i * stride" using len [of "take i ws"] i by (simp add: set_take_subset)
    ultimately have "?src = (pre @ concat (map g (take i ws))) @ g (ws ! i) @ concat (map g (drop (Suc i) ws)) @ rest"
      "length (pre @ concat (map g (take i ws))) = length pre + i * stride" by simp_all
    then have "drop (length pre + i * stride) ?src = g (ws ! i) @ concat (map g (drop (Suc i) ws)) @ rest"
      "length pre + i * stride \<le> length ?src" by (metis append_eq_conv_conj, simp)
    then show ?thesis using assms(1) i by simp
  qed
  have "unpack_all f stride (length pre) (length ws) ?src = Returns (map ((!) ws) [0..<length ws])"
    unfolding unpack_all_def by (rule map_outcome_Returns) (use at in simp)
  then show ?thesis by (simp add: map_nth)
qed

lemma unpack_all_at:
  assumes "src = pre @ concat (map g ws) @ rest" "off = length pre" "c = length ws"
    and "\<And>w rest. w \<in> set ws \<Longrightarrow> f (g w @ rest) = Returns w" "\<And>w. w \<in> set ws \<Longrightarrow> length (g w) = stride"
  shows "unpack_all f stride off c src = Returns ws"
  unfolding assms(1-3) by (rule unpack_all_eq) (use assms(4,5) in auto)

lemma unpack_all_returns:
  assumes "\<And>src. stride \<le> length src \<Longrightarrow> \<exists>w. f src = Returns w \<and> P w" "off + c * stride \<le> length src"
  shows "\<exists>ws. unpack_all f stride off c src = Returns ws \<and> length ws = c \<and> (\<forall>w \<in> set ws. P w)"
proof -
  have "\<exists>w. f (drop (off + i * stride) src) = Returns w \<and> P w" "off + i * stride \<le> length src" if "i < c" for i
  proof -
    have "(i + 1) * stride \<le> c * stride" using that by (intro mult_right_mono) simp_all
    then show "off + i * stride \<le> length src" using assms(2) by simp
    show "\<exists>w. f (drop (off + i * stride) src) = Returns w \<and> P w"
      using \<open>(i + 1) * stride \<le> c * stride\<close> assms(2) by (intro assms(1)) simp
  qed
  then obtain w where w: "\<And>i. i < c \<Longrightarrow> f (drop (off + i * stride) src) = Returns (w i) \<and> P (w i) \<and> off + i * stride \<le> length src" by metis
  have "unpack_all f stride off c src = Returns (map w [0..<c])"
    unfolding unpack_all_def by (rule map_outcome_Returns) (use w in simp)
  then show ?thesis using w by auto
qed

lemma standard_sizes:
  assumes "standard_params p"
  shows "mp_PublicKeySize p = 32 + 320 * mp_K p"
    "mp_PrivateKeySize p = 128 + mp_L p * (32 * mp_etaBits p) + mp_K p * (32 * mp_etaBits p) + mp_K p * 416"
    "mp_SignatureSize p = mp_Lambda p div 4 + mp_L p * (32 * mp_zBits p) + (mp_Omega p + mp_K p)"
    "mp_Omega p < 256" "mp_Gamma1 p < modq" "mp_Eta p < modq"
  using assms by (auto simp: standard_params_def MLDSA44_def MLDSA65_def MLDSA87_def newParams_def)

text \<open>Coefficients of a given width.\<close>

definition width_poly :: "nat \<Rightarrow> poly \<Rightarrow> bool" where
  "width_poly bits w \<longleftrightarrow> length w = ring_n \<and> (\<forall>x \<in> set w. 0 \<le> x \<and> x < 2 ^ bits)"

lemma width_packed:
  assumes "width_poly bits w" "0 < bits" "bits < 32"
  shows "length (packed w bits) = 32 * bits" "bitUnpack (packed w bits @ rest) bits = Returns w"
    "32 * bits \<le> length d \<Longrightarrow> bitPack d w bits = Returns (packed w bits @ drop (32 * bits) d)"
proof -
  show l: "length (packed w bits) = 32 * bits" using assms by (intro packed_spec) (simp_all add: width_poly_def)
  show "bitUnpack (packed w bits @ rest) bits = Returns w" using assms by (intro bitUnpack_packed) (simp_all add: width_poly_def)
  show "32 * bits \<le> length d \<Longrightarrow> bitPack d w bits = Returns (packed w bits @ drop (32 * bits) d)" by (simp add: bitPack_def overwrite_eq l)
qed

lemma signed_packed:
  assumes "pack_range a b bits" "signed_poly a b w"
  shows "32 * bits \<le> length d \<Longrightarrow> bitPackSigned d w a b bits = Returns (packed_signed w b bits @ drop (32 * bits) d)"
  by (simp add: bitPackSigned_eq overwrite_eq length_packed_signed [OF assms])

lemma length_concat_map: "(\<And>w. w \<in> set ws \<Longrightarrow> length (g w) = m) \<Longrightarrow> length (concat (map g ws)) = length ws * m"
  by (induction ws) simp_all

lemma pkEncode_roundtrip:
  assumes "standard_params p" "length rho = seedB" "length t1 = mp_K p" "\<And>w. w \<in> set t1 \<Longrightarrow> width_poly 10 w"
  shows "\<exists>pk. pkEncode p rho t1 = Returns pk \<and> length pk = mp_PublicKeySize p \<and> pkDecode p pk = Returns (rho, t1)"
proof -
  note s = standard_sizes [OF assms(1)]
  note w = width_packed [OF assms(4), simplified]
  let ?pk = "rho @ concat (map (\<lambda>w. packed w 10) t1)"
  have "pkEncode p rho t1 = Returns ?pk"
    using pack_all_eq [of t1 320 "\<lambda>d w. bitPack d w 10" "\<lambda>w. packed w 10" "320 * mp_K p" rho] w assms(2,3)
      copy_at_eq [of rho "mp_PublicKeySize p" "[]"] by (simp add: pkEncode_def s)
  moreover have "pkDecode p ?pk = Returns (rho, t1)"
    using unpack_all_eq [of t1 "\<lambda>src. bitUnpack src 10" "\<lambda>w. packed w 10" 320 rho "[]"] w assms(2,3) by (simp add: pkDecode_def)
  moreover have "length ?pk = mp_PublicKeySize p" using length_concat_map [of t1 "\<lambda>w. packed w 10" 320] w assms(2,3) by (simp add: s)
  ultimately show ?thesis by blast
qed

lemma pkDecode_returns:
  assumes "standard_params p" "length pk = mp_PublicKeySize p"
  shows "\<exists>t1. pkDecode p pk = Returns (take seedB pk, t1) \<and> length t1 = mp_K p \<and> (\<forall>w \<in> set t1. width_poly 10 w)"
proof -
  note s = standard_sizes [OF assms(1)]
  have "\<exists>w. bitUnpack src 10 = Returns w \<and> width_poly 10 w" if "320 \<le> length src" for src
    using bitUnpack_digits [of 10 src] that digits_range [of _ 10 ring_n "bval src"] by (auto simp: width_poly_def)
  from unpack_all_returns [OF this, where off = seedB and c = "mp_K p" and src = pk] show ?thesis
    using assms(2) s by (fastforce simp: pkDecode_def)
qed

definition secret_vec :: "mldsa_params \<Rightarrow> nat \<Rightarrow> vec \<Rightarrow> bool" where
  "secret_vec p c v \<longleftrightarrow> length v = c \<and> (\<forall>w \<in> set v. signed_poly (mp_Eta p) (mp_Eta p) w)"

definition rest_vec :: "mldsa_params \<Rightarrow> vec \<Rightarrow> bool" where
  "rest_vec p v \<longleftrightarrow> length v = mp_K p \<and> (\<forall>w \<in> set v. signed_poly (2 ^ 12 - 1) (2 ^ 12) w)"

definition response_vec :: "mldsa_params \<Rightarrow> vec \<Rightarrow> bool" where
  "response_vec p v \<longleftrightarrow> length v = mp_L p \<and> (\<forall>w \<in> set v. signed_poly (mp_Gamma1 p - 1) (mp_Gamma1 p) w)"

lemma skEncode_roundtrip:
  assumes "standard_params p" "length rho = 32" "length key = 32" "length tr = 64"
    and "secret_vec p (mp_L p) s1" "secret_vec p (mp_K p) s2" "rest_vec p t0"
  shows "\<exists>sk. skEncode p rho key tr s1 s2 t0 = Returns sk \<and> length sk = mp_PrivateKeySize p \<and> skDecode p sk = Returns (rho, key, tr, s1, s2, t0)"
proof -
  note s = standard_sizes [OF assms(1)]
  note v = assms(5) [unfolded secret_vec_def] assms(6) [unfolded secret_vec_def] assms(7) [unfolded rest_vec_def]
  let ?e = "\<lambda>w. packed_signed w (mp_Eta p) (mp_etaBits p)" and ?t = "\<lambda>w. packed_signed w (2 ^ 12) 13"
  let ?el = "32 * mp_etaBits p"
  let ?h = "rho @ key @ tr"
  let ?a = "concat (map ?e s1)" and ?b = "concat (map ?e s2)" and ?c = "concat (map ?t t0)"
  note e = pack_ranges(1) [OF assms(1)] and t = pack_ranges(2) [OF assms(1)]
  have le: "length (?e w) = ?el" if "w \<in> set s1 \<union> set s2" for w using that v by (intro length_packed_signed [OF e]) auto
  have lt: "length (?t w) = 416" if "w \<in> set t0" for w using that v length_packed_signed [OF t, of w] by simp
  have l: "length ?h = 128" "length ?a = mp_L p * ?el" "length ?b = mp_K p * ?el" "length ?c = mp_K p * 416"
    using assms(2-4) v le lt by (simp_all add: length_concat_map)
  have cp: "copy_at tr (copy_at key (copy_at rho (0, replicate (mp_PrivateKeySize p) 0))) = (128, ?h @ replicate (mp_PrivateKeySize p - 128) 0)"
    using copy_at_eq [of rho "mp_PrivateKeySize p" "[]"] copy_at_eq [of key "mp_PrivateKeySize p - 32" rho]
      copy_at_eq [of tr "mp_PrivateKeySize p - 64" "rho @ key"] assms(2-4) by (simp add: s)
  have p1: "pack_all (\<lambda>d w. bitPackSigned d w (mp_Eta p) (mp_Eta p) (mp_etaBits p)) ?el (length ?h) s1 (?h @ replicate (mp_PrivateKeySize p - 128) 0) =
      Returns ((?h @ ?a) @ replicate (mp_K p * ?el + mp_K p * 416) 0)"
    using pack_all_eq [of s1 ?el "\<lambda>d w. bitPackSigned d w (mp_Eta p) (mp_Eta p) (mp_etaBits p)" ?e "mp_PrivateKeySize p - 128" ?h]
      signed_packed [OF e] le v by (simp add: s mult.commute)
  have p2: "pack_all (\<lambda>d w. bitPackSigned d w (mp_Eta p) (mp_Eta p) (mp_etaBits p)) ?el (length (?h @ ?a)) s2 ((?h @ ?a) @ replicate (mp_K p * ?el + mp_K p * 416) 0) =
      Returns ((?h @ ?a @ ?b) @ replicate (mp_K p * 416) 0)"
    using pack_all_eq [of s2 ?el "\<lambda>d w. bitPackSigned d w (mp_Eta p) (mp_Eta p) (mp_etaBits p)" ?e "mp_K p * ?el + mp_K p * 416" "?h @ ?a"]
      signed_packed [OF e] le v by (simp add: mult.commute)
  have p3: "pack_all (\<lambda>d w. bitPackSigned d w (2 ^ 12 - 1) (2 ^ 12) 13) 416 (length (?h @ ?a @ ?b)) t0 ((?h @ ?a @ ?b) @ replicate (mp_K p * 416) 0) =
      Returns (?h @ ?a @ ?b @ ?c)"
    using pack_all_eq [of t0 416 "\<lambda>d w. bitPackSigned d w (2 ^ 12 - 1) (2 ^ 12) 13" ?t "mp_K p * 416" "?h @ ?a @ ?b"]
      signed_packed [OF t] lt v by (simp add: mult.commute)
  let ?sk = "?h @ ?a @ ?b @ ?c"
  have enc: "skEncode p rho key tr s1 s2 t0 = Returns ?sk"
  proof -
    have o: "length ?h = 128" "length (?h @ ?a) = 128 + mp_L p * ?el" "length (?h @ ?a @ ?b) = 128 + mp_L p * ?el + mp_K p * ?el"
      using l by simp_all
    have "length s1 = mp_L p" "length s2 = mp_K p" using v by simp_all
    then show ?thesis unfolding skEncode_def cp Let_def prod.case
      using p1 [unfolded o] p2 [unfolded o] p3 [unfolded o] by simp
  qed
  have d1: "unpack_all (\<lambda>src. bitUnpackSigned src (mp_Eta p) (mp_Eta p)) ?el 128 (mp_L p) ?sk = Returns s1"
    by (rule unpack_all_at [where g = ?e and pre = ?h and rest = "?b @ ?c"]) (use bitUnpackSigned_packed [OF e] le v l in auto)
  have d2: "unpack_all (\<lambda>src. bitUnpackSigned src (mp_Eta p) (mp_Eta p)) ?el (128 + mp_L p * ?el) (mp_K p) ?sk = Returns s2"
    by (rule unpack_all_at [where g = ?e and pre = "?h @ ?a" and rest = ?c]) (use bitUnpackSigned_packed [OF e] le v l in auto)
  have d3: "unpack_all (\<lambda>src. bitUnpackSigned src (2 ^ 12 - 1) (2 ^ 12)) 416 (128 + mp_L p * ?el + mp_K p * ?el) (mp_K p) ?sk = Returns t0"
    by (rule unpack_all_at [where g = ?t and pre = "?h @ ?a @ ?b" and rest = "[]"]) (use bitUnpackSigned_packed [OF t] lt v l in auto)
  have "skDecode p ?sk = Returns (rho, key, tr, s1, s2, t0)"
    unfolding skDecode_def Let_def using d1 d2 d3 assms(2-4) by simp
  moreover have "length ?sk = mp_PrivateKeySize p" using l by (simp add: s)
  ultimately show ?thesis using enc by blast
qed

lemma skDecode_returns:
  assumes "standard_params p" "length sk = mp_PrivateKeySize p"
  shows "\<exists>s1 s2 t0. skDecode p sk = Returns (take 32 sk, take 32 (drop 32 sk), take 64 (drop 64 sk), s1, s2, t0)
    \<and> length s1 = mp_L p \<and> length s2 = mp_K p \<and> length t0 = mp_K p \<and> (\<forall>w \<in> set s1 \<union> set s2 \<union> set t0. canonical_poly w)"
proof -
  note s = standard_sizes [OF assms(1)]
  let ?el = "32 * mp_etaBits p"
  have e: "\<exists>w. bitUnpackSigned src (mp_Eta p) (mp_Eta p) = Returns w \<and> canonical_poly w" if "?el \<le> length src" for src
    using that by (rule bitUnpackSigned_returns [OF pack_ranges(1) [OF assms(1)] _ s(6)])
  have t: "\<exists>w. bitUnpackSigned src (2 ^ 12 - 1) (2 ^ 12) = Returns w \<and> canonical_poly w" if "416 \<le> length src" for src
    using bitUnpackSigned_returns [OF pack_ranges(2) [OF assms(1)], of src] that by simp
  obtain s1 where s1: "unpack_all (\<lambda>src. bitUnpackSigned src (mp_Eta p) (mp_Eta p)) ?el 128 (mp_L p) sk = Returns s1"
    "length s1 = mp_L p" "\<forall>w \<in> set s1. canonical_poly w"
    using unpack_all_returns [of ?el "\<lambda>src. bitUnpackSigned src (mp_Eta p) (mp_Eta p)" canonical_poly 128 "mp_L p" sk, OF e] assms(2) s by auto
  obtain s2 where s2: "unpack_all (\<lambda>src. bitUnpackSigned src (mp_Eta p) (mp_Eta p)) ?el (128 + mp_L p * ?el) (mp_K p) sk = Returns s2"
    "length s2 = mp_K p" "\<forall>w \<in> set s2. canonical_poly w"
    using unpack_all_returns [of ?el "\<lambda>src. bitUnpackSigned src (mp_Eta p) (mp_Eta p)" canonical_poly "128 + mp_L p * ?el" "mp_K p" sk, OF e] assms(2) s by auto
  obtain t0 where t0: "unpack_all (\<lambda>src. bitUnpackSigned src (2 ^ 12 - 1) (2 ^ 12)) 416 (128 + mp_L p * ?el + mp_K p * ?el) (mp_K p) sk = Returns t0"
    "length t0 = mp_K p" "\<forall>w \<in> set t0. canonical_poly w"
    using unpack_all_returns [of 416 "\<lambda>src. bitUnpackSigned src (2 ^ 12 - 1) (2 ^ 12)" canonical_poly "128 + mp_L p * ?el + mp_K p * ?el" "mp_K p" sk, OF t] assms(2) s by auto
  have "\<not> length sk < 128" using assms(2) s by simp
  then have "skDecode p sk = Returns (take 32 sk, take 32 (drop 32 sk), take 64 (drop 64 sk), s1, s2, t0)"
    unfolding skDecode_def Let_def using s1(1) s2(1) t0(1) by simp
  then show ?thesis using s1 s2 t0 by blast
qed

lemma sigEncode_roundtrip:
  assumes "standard_params p" "length cTilde = mp_Lambda p div 4" "response_vec p z"
    and "length h = mp_K p" "\<forall>r \<in> set h. hint_poly r" "weight h \<le> mp_Omega p"
  shows "\<exists>sig. sigEncode p cTilde z h = Returns sig \<and> length sig = mp_SignatureSize p \<and> sigDecode p sig = Returns (cTilde, z, Some h)"
proof -
  note s = standard_sizes [OF assms(1)]
  note v = assms(3) [unfolded response_vec_def]
  let ?g = "\<lambda>w. packed_signed w (mp_Gamma1 p) (mp_zBits p)"
  let ?zl = "32 * mp_zBits p"
  let ?a = "concat (map ?g z)"
  let ?off = "mp_Lambda p div 4"
  note e = pack_ranges(3) [OF assms(1)]
  have lg: "length (?g w) = ?zl" if "w \<in> set z" for w using that v by (intro length_packed_signed [OF e]) auto
  have l: "length ?a = mp_L p * ?zl" "length (cTilde @ ?a) = ?off + mp_L p * ?zl" using v lg assms(2) by (simp_all add: length_concat_map)
  have cp: "copy_at cTilde (0, replicate (mp_SignatureSize p) 0) = (length cTilde, cTilde @ replicate (mp_SignatureSize p - ?off) 0)"
    using copy_at_eq [of cTilde "mp_SignatureSize p" "[]"] assms(2) s by simp
  have p1: "pack_all (\<lambda>d w. bitPackSigned d w (mp_Gamma1 p - 1) (mp_Gamma1 p) (mp_zBits p)) ?zl (length cTilde) z
      (cTilde @ replicate (mp_SignatureSize p - ?off) 0) = Returns ((cTilde @ ?a) @ replicate (mp_Omega p + mp_K p) 0)"
    using pack_all_eq [of z ?zl "\<lambda>d w. bitPackSigned d w (mp_Gamma1 p - 1) (mp_Gamma1 p) (mp_zBits p)" ?g "mp_SignatureSize p - ?off" cTilde]
      signed_packed [OF e] lg v by (simp add: s mult.commute)
  have lh: "length (hint_bytes p h) = mp_Omega p + mp_K p" using assms(4,6) by (simp add: hint_bytes_def length_row_bytes)
  have p2: "in_slice (?off + mp_L p * ?zl) (\<lambda>d. hintBitPack p d h) ((cTilde @ ?a) @ replicate (mp_Omega p + mp_K p) 0) =
      Returns (cTilde @ ?a @ hint_bytes p h)"
    unfolding in_slice_def l(2) [symmetric] using hintBitPack_eq [OF assms(6,4)] by simp
  have enc: "sigEncode p cTilde z h = Returns (cTilde @ ?a @ hint_bytes p h)"
    unfolding sigEncode_def cp Let_def prod.case using p1 p2 v assms(2) by simp
  have d1: "unpack_all (\<lambda>src. bitUnpackSigned src (mp_Gamma1 p - 1) (mp_Gamma1 p)) ?zl ?off (mp_L p) (cTilde @ ?a @ hint_bytes p h) = Returns z"
    by (rule unpack_all_at [where g = ?g and pre = cTilde and rest = "hint_bytes p h"]) (use bitUnpackSigned_packed [OF e] lg v assms(2) in auto)
  have d2: "drop (?off + mp_L p * ?zl) (cTilde @ ?a @ hint_bytes p h) = hint_bytes p h"
    unfolding l(2) [symmetric] append_assoc [symmetric] by simp
  have d3: "hintBitUnpack p (hint_bytes p h) = Returns (Some h)" using hintBitUnpack_iff [OF lh s(4)] assms(4-6) by blast
  have len: "length (cTilde @ ?a @ hint_bytes p h) = ?off + mp_L p * ?zl + (mp_Omega p + mp_K p)" using l lh assms(2) by simp
  have "sigDecode p (cTilde @ ?a @ hint_bytes p h) = Returns (cTilde, z, Some h)"
    unfolding sigDecode_def Let_def len using d1 d2 d3 assms(2) by simp
  then show ?thesis using enc len s(3) by (intro exI [of _ "cTilde @ ?a @ hint_bytes p h"]) simp
qed

lemma sigDecode_returns:
  assumes "standard_params p" "length sig = mp_SignatureSize p"
  shows "\<exists>z h. sigDecode p sig = Returns (take (mp_Lambda p div 4) sig, z, h) \<and> length z = mp_L p \<and> (\<forall>w \<in> set z. canonical_poly w)
    \<and> (\<forall>h'. h = Some h' \<longrightarrow> length h' = mp_K p \<and> (\<forall>r \<in> set h'. hint_poly r))"
proof -
  note s = standard_sizes [OF assms(1)]
  let ?zl = "32 * mp_zBits p"
  let ?off = "mp_Lambda p div 4 + mp_L p * ?zl"
  have e: "\<exists>w. bitUnpackSigned src (mp_Gamma1 p - 1) (mp_Gamma1 p) = Returns w \<and> canonical_poly w" if "?zl \<le> length src" for src
    using that by (rule bitUnpackSigned_returns [OF pack_ranges(3) [OF assms(1)] _ s(5)])
  obtain z where z: "unpack_all (\<lambda>src. bitUnpackSigned src (mp_Gamma1 p - 1) (mp_Gamma1 p)) ?zl (mp_Lambda p div 4) (mp_L p) sig = Returns z"
    "length z = mp_L p" "\<forall>w \<in> set z. canonical_poly w"
    using unpack_all_returns [of ?zl "\<lambda>src. bitUnpackSigned src (mp_Gamma1 p - 1) (mp_Gamma1 p)" canonical_poly "mp_Lambda p div 4" "mp_L p" sig, OF e] assms(2) s by auto
  have l: "length (drop ?off sig) = mp_Omega p + mp_K p" using assms(2) s by simp
  then obtain h where h: "hintBitUnpack p (drop ?off sig) = Returns h" using hintBitUnpack_returns [of p "drop ?off sig"] by auto
  have "length h' = mp_K p \<and> (\<forall>r \<in> set h'. hint_poly r)" if "h = Some h'" for h'
    using hintBitUnpack_iff [OF l s(4), of h'] h that by blast
  moreover have "sigDecode p sig = Returns (take (mp_Lambda p div 4) sig, z, h)"
    unfolding sigDecode_def Let_def using z(1) h assms(2) s(3) by simp
  ultimately show ?thesis using z by blast
qed

lemma w1Encode_eq:
  assumes "0 < mp_w1Bits p" "mp_w1Bits p < 32" "length w1 = mp_K p" "\<And>w. w \<in> set w1 \<Longrightarrow> width_poly (mp_w1Bits p) w"
  shows "w1Encode p w1 = Returns (concat (map (\<lambda>w. packed w (mp_w1Bits p)) w1))"
proof -
  have m: "mp_K p * ring_n div 8 * mp_w1Bits p = 32 * mp_w1Bits p * length w1" using assms(3) by simp
  show ?thesis unfolding w1Encode_def m
    using pack_all_eq [of w1 "32 * mp_w1Bits p" "\<lambda>d w. bitPack d w (mp_w1Bits p)" "\<lambda>w. packed w (mp_w1Bits p)" "32 * mp_w1Bits p * length w1" "[]"]
      width_packed [OF assms(4,1,2)] by simp
qed

text \<open>
  C39: A hint has one encoding. For each parameter set, a string of the right size is accepted as the encoding of a hint if and only if the
  hint has as many rows as the parameter set says, every row has 256 entries 0 or 1, there are at most \<^verbatim>\<open>Omega\<close> ones in it, and packing the hint
  into a fresh buffer gives the string; and reading a string of that size never panics.
\<close>

theorem hint_encoding_canonical:
  assumes "standard_params p" and "length src = mp_Omega p + mp_K p"
  shows "(\<exists>r. hintBitUnpack p src = Returns r) \<and>
    (hintBitUnpack p src = Returns (Some h) \<longleftrightarrow>
       length h = mp_K p \<and> (\<forall>r \<in> set h. length r = ring_n \<and> set r \<subseteq> {0, 1}) \<and> (\<Sum>r\<leftarrow>h. count_list r 1) \<le> mp_Omega p
       \<and> hintBitPack p (replicate (mp_Omega p + mp_K p) 0) h = Returns src)"
proof -
  have c: "length (positions_from j r) = count_list r 1" for j r by (induction r arbitrary: j) auto
  have w: "weight h = (\<Sum>r\<leftarrow>h. count_list r 1)" by (induction h) (simp_all add: c)
  have "hintBitUnpack p src = Returns (Some h) \<longleftrightarrow>
      length h = mp_K p \<and> (\<forall>r \<in> set h. hint_poly r) \<and> weight h \<le> mp_Omega p \<and> src = hint_bytes p h"
    by (rule hintBitUnpack_iff [OF assms(2) standard_sizes(4) [OF assms(1)]])
  also have "\<dots> \<longleftrightarrow> length h = mp_K p \<and> (\<forall>r \<in> set h. hint_poly r) \<and> weight h \<le> mp_Omega p
      \<and> hintBitPack p (replicate (mp_Omega p + mp_K p) 0) h = Returns src"
    using hintBitPack_eq [of h p] by auto
  finally show ?thesis using hintBitUnpack_returns [of p src] assms(2) by (simp add: w hint_poly_def)
qed

text \<open>The empty hint is read back, and the encoding whose padding is not zero is not.\<close>

theorem hint_encoding_canonical_witness:
  "hintBitPack MLDSA44 (replicate 84 0) (replicate 4 zero_poly) = Returns (replicate 84 0)
   \<and> hintBitUnpack MLDSA44 (replicate 84 0) = Returns (Some (replicate 4 zero_poly))
   \<and> hintBitUnpack MLDSA44 (1 # replicate 83 0) \<noteq> Returns (Some (replicate 4 zero_poly))"
proof -
  have p: "mp_Omega MLDSA44 = 80" "mp_K MLDSA44 = 4" by (simp_all add: MLDSA44_def newParams_def)
  have c: "count_list (replicate n 0) (1 :: int) = 0" for n by (induction n) simp_all
  have pos: "positions_from j (replicate n 0) = []" for j n by (induction n arbitrary: j) simp_all
  have w: "weight (replicate 4 zero_poly) = 0" "hint_bytes MLDSA44 (replicate 4 zero_poly) = replicate 84 0"
    by (simp_all add: hint_bytes_def zero_poly_def weight_def pos p numeral_eq_Suc)
  then have pk: "hintBitPack MLDSA44 (replicate 84 0) (replicate 4 zero_poly) = Returns (replicate 84 0)"
    using hintBitPack_eq [of "replicate 4 zero_poly" MLDSA44] by (simp add: p)
  moreover have "hintBitUnpack MLDSA44 (replicate 84 0) = Returns (Some (replicate 4 zero_poly))"
    using hint_encoding_canonical [of MLDSA44 "replicate 84 0" "replicate 4 zero_poly"] pk
    by (simp add: p standard_params_def zero_poly_def c sum_list_replicate)
  moreover have "hintBitUnpack MLDSA44 (1 # replicate 83 0) \<noteq> Returns (Some (replicate 4 zero_poly))"
    using hint_encoding_canonical [of MLDSA44 "1 # replicate 83 0" "replicate 4 zero_poly"] pk
    by (simp add: p standard_params_def numeral_eq_Suc)
  ultimately show ?thesis by blast
qed

end
