(* ===== verification/MldsaSample.thy ===== *)
theory MldsaSample
  imports MldsaPack "HOL-Library.Infinite_Set"
begin

text \<open>
  Sampling in ML-DSA (\<^verbatim>\<open>mldsa/sample.go\<close>). SHAKE128 and SHAKE256 are parameters: functions from the bytes written to the endless
  stream of bytes that can be read (\<open>xof\<close>). Every loop that reads until enough values have been accepted is a
  \<^theory_text>\<open>partial_function\<close>, so that a stream with too few acceptable values shows as \<open>Loops\<close>. The results: exactly when each
  sampler returns, and that what it returns is in range: uniform polynomials are canonical, secrets are bounded by
  \<^verbatim>\<open>Eta\<close>, masks by \<^verbatim>\<open>Gamma1\<close>, and a challenge has exactly \<^verbatim>\<open>Tau\<close> coefficients 1 or - 1 and no other.
\<close>

section \<open>Extendable output\<close>

type_synonym stream = "nat \<Rightarrow> byte"

record xof =
  x128 :: "bytes \<Rightarrow> stream"
  x256 :: "bytes \<Rightarrow> stream"

definition shake256 :: "xof \<Rightarrow> nat \<Rightarrow> bytes list \<Rightarrow> bytes" where
  "shake256 X outLen ins = map (x256 X (concat ins)) [0..<outLen]"

lemma length_shake256 [simp]: "length (shake256 X outLen ins) = outLen"
  by (simp add: shake256_def)

text \<open>Reading until 256 coefficients are there: \<open>step k\<close> is what the \<open>k\<close>-th read does to the coefficients so far.\<close>

partial_function (option) read_until :: "(nat \<Rightarrow> poly \<Rightarrow> poly) \<Rightarrow> nat \<Rightarrow> poly \<Rightarrow> poly option" where
  "read_until step k a = (if length a < ring_n then read_until step (k + 1) (step k a) else Some a)"

definition run :: "'a option \<Rightarrow> 'a outcome" where
  "run r = (case r of None \<Rightarrow> Loops | Some a \<Rightarrow> Returns a)"

lemma run_simps [simp]: "run None = Loops" "run (Some a) = Returns a" "run r = Returns a \<longleftrightarrow> r = Some a" "run r \<noteq> Panic"
  by (auto simp: run_def split: option.splits)

section \<open>The public matrix\<close>

definition three_bytes :: "stream \<Rightarrow> nat \<Rightarrow> int" where
  "three_bytes st k = uint (st (3 * k)) OR push_bit 8 (uint (st (3 * k + 1))) OR push_bit 16 (uint (st (3 * k + 2) AND 0x7F))"

definition ntt_step :: "stream \<Rightarrow> nat \<Rightarrow> poly \<Rightarrow> poly" where
  "ntt_step st k a = (let z = three_bytes st k in if z < modq then a @ [z] else a)"

definition rejNTTPoly :: "xof \<Rightarrow> bytes \<Rightarrow> byte \<Rightarrow> byte \<Rightarrow> poly outcome" where
  "rejNTTPoly X rho s r = run (read_until (ntt_step (x128 X (rho @ [s, r]))) 0 [])"

definition expandA :: "mldsa_params \<Rightarrow> xof \<Rightarrow> bytes \<Rightarrow> vec list outcome" where
  "expandA p X rho =
     map_outcome (\<lambda>r. map_outcome (\<lambda>s. rejNTTPoly X rho (word_of_nat s) (word_of_nat r)) [0..<mp_L p]) [0..<mp_K p]"

section \<open>Secrets\<close>

definition half_byte :: "int \<Rightarrow> int \<Rightarrow> int option" where
  "half_byte eta z =
     (if eta = 2 \<and> z < 15 then Some (2 - z smod 5)
      else if eta = 4 \<and> z < 9 then Some (4 - z)
      else None)"

definition bounded_one :: "int \<Rightarrow> int \<Rightarrow> poly \<Rightarrow> poly" where
  "bounded_one eta z a =
     (if length a = ring_n then a else case half_byte eta z of None \<Rightarrow> a | Some c \<Rightarrow> a @ [canon c])"

definition bounded_step :: "int \<Rightarrow> stream \<Rightarrow> nat \<Rightarrow> poly \<Rightarrow> poly" where
  "bounded_step eta st k a = bounded_one eta (uint (drop_bit 4 (st k))) (bounded_one eta (uint (st k AND 0x0F)) a)"

definition le16 :: "nat \<Rightarrow> bytes" where
  "le16 nonce = [word_of_nat nonce, word_of_nat (drop_bit 8 nonce)]"

definition rejBoundedPoly :: "mldsa_params \<Rightarrow> xof \<Rightarrow> bytes \<Rightarrow> nat \<Rightarrow> poly outcome" where
  "rejBoundedPoly p X rhoPrime nonce = run (read_until (bounded_step (mp_Eta p) (x256 X (rhoPrime @ le16 nonce))) 0 [])"

definition expandS :: "mldsa_params \<Rightarrow> xof \<Rightarrow> bytes \<Rightarrow> (vec \<times> vec) outcome" where
  "expandS p X rhoPrime =
     bind_outcome (map_outcome (rejBoundedPoly p X rhoPrime) [0..<mp_L p]) (\<lambda>s1.
     bind_outcome (map_outcome (\<lambda>r. rejBoundedPoly p X rhoPrime (mp_L p + r)) [0..<mp_K p]) (\<lambda>s2.
     Returns (s1, s2)))"

section \<open>Masks and challenges\<close>

definition expandMask :: "mldsa_params \<Rightarrow> xof \<Rightarrow> bytes \<Rightarrow> nat \<Rightarrow> vec outcome" where
  "expandMask p X rhoPP kappa =
     map_outcome (\<lambda>r. bitUnpackSigned (shake256 X (32 * mp_zBits p) [rhoPP, le16 (kappa + r)]) (mp_Gamma1 p - 1) (mp_Gamma1 p)) [0..<mp_L p]"

partial_function (option) find_index :: "stream \<Rightarrow> nat \<Rightarrow> nat \<Rightarrow> (nat \<times> nat) option" where
  "find_index st i pos = (if unat (st pos) > i then find_index st i (pos + 1) else Some (unat (st pos), pos + 1))"

fun ball :: "stream \<Rightarrow> nat list \<Rightarrow> int \<Rightarrow> nat \<Rightarrow> poly \<Rightarrow> poly option" where
  "ball st [] h pos c = Some c"
| "ball st (i # is) h pos c =
     (case find_index st i pos of None \<Rightarrow> None
      | Some (j, pos') \<Rightarrow> ball st is (drop_bit 1 h) pos' ((c[i := c ! j])[j := canon (1 - 2 * (h AND 1))]))"

definition sign_bits :: "stream \<Rightarrow> int" where
  "sign_bits st = fold (\<lambda>i h. h OR push_bit (8 * i) (uint (st i))) [0..<8] 0"

definition sampleInBall :: "mldsa_params \<Rightarrow> xof \<Rightarrow> bytes \<Rightarrow> poly outcome" where
  "sampleInBall p X cTilde =
     (let st = x256 X cTilde in run (ball st [ring_n - mp_Tau p..<ring_n] (sign_bits st) 8 zero_poly))"

section \<open>When reading ends\<close>

text \<open>The coefficients after the first \<open>k\<close> reads.\<close>

definition after :: "(nat \<Rightarrow> poly \<Rightarrow> poly) \<Rightarrow> nat \<Rightarrow> poly" where
  "after step k = fold step [0..<k] []"

lemma after_simps [simp]: "after step 0 = []" "after step (Suc k) = step k (after step k)"
  by (simp_all add: after_def)

lemma read_until_reaches:
  assumes "\<forall>i < m. length (after step i) < ring_n" "ring_n \<le> length (after step m)" "k \<le> m"
  shows "read_until step k (after step k) = Some (after step m)"
  using assms(3)
proof (induction "m - k" arbitrary: k)
  case 0
  then show ?case using assms(2) by (simp add: read_until.simps)
next
  case (Suc d)
  then have "k < m" by simp
  then show ?case using Suc.hyps(1) [of "k + 1"] Suc.hyps(2) assms(1) by (subst read_until.simps) simp
qed

lemma read_until_Some:
  "read_until step k a = Some b \<Longrightarrow> \<exists>n. b = fold step [k..<k + n] a \<and> ring_n \<le> length b \<and> (\<forall>i < n. length (fold step [k..<k + i] a) < ring_n)"
proof (induction rule: read_until.raw_induct [rotated, consumes 1])
  case (1 read_until step k a b)
  show ?case
  proof (cases "length a < ring_n")
    case True
    then have "read_until step (k + 1) (step k a) = Some b" using 1(2) by simp
    from 1(1) [OF this] obtain n where n: "b = fold step [k + 1..<k + 1 + n] (step k a)" "ring_n \<le> length b"
      "\<forall>i < n. length (fold step [k + 1..<k + 1 + i] (step k a)) < ring_n" by blast
    have f: "fold step [k..<k + Suc i] a = fold step [k + 1..<k + 1 + i] (step k a)" for i
      using upt_conv_Cons [of k "k + Suc i"] by (simp del: upt_Suc)
    have "length (fold step [k..<k + i] a) < ring_n" if "i < Suc n" for i
    proof (cases i)
      case (Suc j)
      then show ?thesis using that n(3) f [of j] by simp
    qed (use True in simp)
    then show ?thesis using n(1,2) f [of n] by (intro exI [of _ "Suc n"]) simp
  next
    case False
    then show ?thesis using 1 by (intro exI [of _ 0]) simp
  qed
qed

lemma read_until_iff:
  "read_until step 0 [] = Some a \<longleftrightarrow> (\<exists>m. a = after step m \<and> ring_n \<le> length a \<and> (\<forall>i < m. length (after step i) < ring_n))"
proof
  assume "read_until step 0 [] = Some a"
  from read_until_Some [OF this] show "\<exists>m. a = after step m \<and> ring_n \<le> length a \<and> (\<forall>i < m. length (after step i) < ring_n)"
    by (simp add: after_def)
next
  assume "\<exists>m. a = after step m \<and> ring_n \<le> length a \<and> (\<forall>i < m. length (after step i) < ring_n)"
  then show "read_until step 0 [] = Some a" using read_until_reaches [of _ step 0] by auto
qed

lemma read_until_returns: "ring_n \<le> length (after step m) \<Longrightarrow> \<exists>a. read_until step 0 [] = Some a"
proof -
  assume "ring_n \<le> length (after step m)"
  then have "\<exists>m. ring_n \<le> length (after step m) \<and> (\<forall>i < m. \<not> ring_n \<le> length (after step i))" by (rule exists_least_iff [THEN iffD1, OF exI])
  then show ?thesis by (auto simp: read_until_iff not_le)
qed

lemma read_until_invariant:
  assumes "read_until step 0 [] = Some a" "P []" "\<And>k a. P a \<Longrightarrow> length a < ring_n \<Longrightarrow> P (step k a)"
  shows "P a" "ring_n \<le> length a"
proof -
  obtain m where m: "a = after step m" "ring_n \<le> length a" "\<forall>i < m. length (after step i) < ring_n" using assms(1) by (auto simp: read_until_iff)
  have "P (after step i)" if "i \<le> m" for i
    using that by (induction i) (simp_all add: assms(2,3) m(3))
  then show "P a" "ring_n \<le> length a" using m by simp_all
qed

section \<open>Uniform polynomials\<close>

lemma three_bytes_nonneg: "0 \<le> three_bytes st k"
  by (simp add: three_bytes_def or_nonnegative_int_iff)

lemma rejNTTPoly_canonical:
  assumes "rejNTTPoly X rho s r = Returns a"
  shows "canonical_poly a"
proof -
  let ?P = "\<lambda>a. length a \<le> ring_n \<and> (\<forall>x \<in> set a. canonical x)"
  have run: "read_until (ntt_step (x128 X (rho @ [s, r]))) 0 [] = Some a" using assms by (simp add: rejNTTPoly_def)
  have "?P a" by (rule read_until_invariant(1) [OF run]) (auto simp: ntt_step_def Let_def canonical_def three_bytes_nonneg)
  moreover have "ring_n \<le> length a" by (rule read_until_invariant(2) [OF run, of "\<lambda>_. True"]) simp_all
  ultimately show ?thesis by (simp add: canonical_poly_def)
qed

lemma ntt_step_after: "after (ntt_step st) m = map (three_bytes st) (filter (\<lambda>k. three_bytes st k < modq) [0..<m])"
  by (induction m) (simp_all add: ntt_step_def Let_def)

lemma expandA_canonical:
  assumes "expandA p X rho = Returns a"
  shows "length a = mp_K p" "\<And>row. row \<in> set a \<Longrightarrow> length row = mp_L p" "\<And>row w. row \<in> set a \<Longrightarrow> w \<in> set row \<Longrightarrow> canonical_poly w"
proof -
  have rows: "list_all2 (\<lambda>r row. map_outcome (\<lambda>s. rejNTTPoly X rho (word_of_nat s) (word_of_nat r)) [0..<mp_L p] = Returns row) [0..<mp_K p] a"
    using assms by (simp add: expandA_def map_outcome_list_all2)
  then show "length a = mp_K p" using list_all2_lengthD [OF rows] by simp
  fix row assume "row \<in> set a"
  then obtain r where row: "list_all2 (\<lambda>s w. rejNTTPoly X rho (word_of_nat s) (word_of_nat r) = Returns w) [0..<mp_L p] row"
    using rows by (auto simp: list_all2_conv_all_nth in_set_conv_nth map_outcome_list_all2)
  then show "length row = mp_L p" using list_all2_lengthD [OF row] by simp
  show "canonical_poly w" if "w \<in> set row" for w
    using row that rejNTTPoly_canonical by (auto simp: list_all2_conv_all_nth in_set_conv_nth)
qed

section \<open>Secrets are short\<close>

lemma half_byte_bound: "half_byte eta z = Some c \<Longrightarrow> 0 \<le> z \<Longrightarrow> \<bar>c\<bar> \<le> eta \<and> \<bar>c\<bar> \<le> 4"
  using pos_mod_bound [of 5 z] pos_mod_sign [of 5 z] by (auto simp: half_byte_def smod_nonneg split: if_splits)

lemma short_canon: "\<bar>c\<bar> \<le> 4190208 \<Longrightarrow> canonical (canon c) \<and> centered (canon c) = c"
  by (auto simp: canon_eq canonical_def centered_eq abs_le_iff)

lemma rejBoundedPoly_short:
  assumes "rejBoundedPoly p X rhoPrime nonce = Returns a"
  shows "signed_poly (mp_Eta p) (mp_Eta p) a"
proof -
  let ?Q = "\<lambda>x. canonical x \<and> - mp_Eta p \<le> centered x \<and> centered x \<le> mp_Eta p"
  let ?P = "\<lambda>a. length a \<le> ring_n \<and> (\<forall>x \<in> set a. ?Q x)"
  have one: "?P (bounded_one (mp_Eta p) z a)" if "?P a" "0 \<le> z" for z a
  proof (cases "half_byte (mp_Eta p) z")
    case (Some c)
    have "\<bar>c\<bar> \<le> mp_Eta p" "\<bar>c\<bar> \<le> 4" using half_byte_bound [OF Some that(2)] by simp_all
    then have "?Q (canon c)" using short_canon [of c] by auto
    then show ?thesis using that(1) Some by (auto simp: bounded_one_def)
  qed (use that in \<open>auto simp: bounded_one_def\<close>)
  have run: "read_until (bounded_step (mp_Eta p) (x256 X (rhoPrime @ le16 nonce))) 0 [] = Some a" using assms by (simp add: rejBoundedPoly_def)
  have "?P a" by (rule read_until_invariant(1) [OF run]) (simp, unfold bounded_step_def, intro one, simp_all)
  moreover have "ring_n \<le> length a" by (rule read_until_invariant(2) [OF run, of "\<lambda>_. True"]) simp_all
  ultimately show ?thesis by (auto simp: signed_poly_def canonical_poly_def)
qed

lemma map_outcome_all:
  assumes "map_outcome f xs = Returns ys" "\<And>x y. x \<in> set xs \<Longrightarrow> f x = Returns y \<Longrightarrow> P y"
  shows "length ys = length xs \<and> (\<forall>y \<in> set ys. P y)"
  using assms by (fastforce simp: map_outcome_list_all2 list_all2_conv_all_nth in_set_conv_nth)

lemma expandS_short:
  assumes "expandS p X rhoPrime = Returns (s1, s2)"
  shows "secret_vec p (mp_L p) s1" "secret_vec p (mp_K p) s2"
proof -
  have "map_outcome (rejBoundedPoly p X rhoPrime) [0..<mp_L p] = Returns s1"
    "map_outcome (\<lambda>r. rejBoundedPoly p X rhoPrime (mp_L p + r)) [0..<mp_K p] = Returns s2"
    using assms by (auto simp: expandS_def bind_outcome_Returns)
  then show "secret_vec p (mp_L p) s1" "secret_vec p (mp_K p) s2"
    using map_outcome_all [of _ _ s1 "signed_poly (mp_Eta p) (mp_Eta p)"] map_outcome_all [of _ _ s2 "signed_poly (mp_Eta p) (mp_Eta p)"]
      rejBoundedPoly_short by (fastforce simp: secret_vec_def)+
qed

section \<open>Masks\<close>

lemma expandMask_returns:
  assumes "standard_params p"
  shows "\<exists>y. expandMask p X rhoPP kappa = Returns y \<and> length y = mp_L p \<and> (\<forall>w \<in> set y. canonical_poly w)"
proof -
  have "\<exists>w. bitUnpackSigned (shake256 X (32 * mp_zBits p) [rhoPP, le16 (kappa + r)]) (mp_Gamma1 p - 1) (mp_Gamma1 p) = Returns w \<and> canonical_poly w" for r
    by (rule bitUnpackSigned_returns [OF pack_ranges(3) [OF assms] _ standard_sizes(5) [OF assms]]) simp
  then obtain w where w: "\<And>r. bitUnpackSigned (shake256 X (32 * mp_zBits p) [rhoPP, le16 (kappa + r)]) (mp_Gamma1 p - 1) (mp_Gamma1 p) = Returns (w r) \<and> canonical_poly (w r)"
    by metis
  then have "expandMask p X rhoPP kappa = Returns (map w [0..<mp_L p])" unfolding expandMask_def by (intro map_outcome_Returns) simp
  then show ?thesis using w by auto
qed

section \<open>Challenges\<close>

lemma find_index_Some: "find_index st i pos = Some r \<Longrightarrow> fst r \<le> i \<and> (\<exists>k. unat (st k) \<le> i)"
  by (induction rule: find_index.raw_induct [rotated, consumes 1]) (force simp: not_less split: if_splits)

lemma find_index_returns:
  assumes "unat (st m) \<le> i" "pos \<le> m"
  shows "\<exists>j pos'. find_index st i pos = Some (j, pos') \<and> pos' \<le> m + 1"
  using assms(2)
proof (induction "m - pos" arbitrary: pos)
  case 0
  then show ?case using assms(1) by (simp add: find_index.simps)
next
  case (Suc d)
  then show ?case using Suc.hyps(1) [of "pos + 1"] by (subst find_index.simps) auto
qed

definition unit_coeff :: "int \<Rightarrow> bool" where
  "unit_coeff x \<longleftrightarrow> x = 1 \<or> x = modq - 1"

lemma unit_canon: "unit_coeff (canon (1 - 2 * (h AND 1)))"
proof -
  have "h AND 1 = 0 \<or> h AND 1 = 1" by (simp add: and_one_eq mod2_eq_if)
  then show ?thesis by (auto simp: unit_coeff_def canon_eq)
qed

lemma unit_abs: "unit_coeff x \<Longrightarrow> \<bar>centered x\<bar> = 1" "\<bar>centered 0\<bar> = 0"
  by (auto simp: unit_coeff_def centered_eq canonical_def)

text \<open>The shape of a challenge under construction: position \<open>i\<close> and those after it are still zero.\<close>

definition partial_ball :: "nat \<Rightarrow> poly \<Rightarrow> bool" where
  "partial_ball i c \<longleftrightarrow> length c = ring_n \<and> (\<forall>k < ring_n. c ! k = 0 \<or> unit_coeff (c ! k)) \<and> (\<forall>k. i \<le> k \<longrightarrow> k < ring_n \<longrightarrow> c ! k = 0)"

definition one_norm :: "poly \<Rightarrow> int" where
  "one_norm c = (\<Sum>k<ring_n. \<bar>centered (c ! k)\<bar>)"

lemma ball_step:
  assumes "partial_ball i c" "j \<le> i" "i < ring_n" "unit_coeff u"
  shows "partial_ball (Suc i) ((c[i := c ! j])[j := u])" "one_norm ((c[i := c ! j])[j := u]) = one_norm c + 1"
proof -
  let ?c = "(c[i := c ! j])[j := u]"
  have c: "length c = ring_n" "\<And>k. k < ring_n \<Longrightarrow> c ! k = 0 \<or> unit_coeff (c ! k)" "\<And>k. i \<le> k \<Longrightarrow> k < ring_n \<Longrightarrow> c ! k = 0"
    using assms(1) by (auto simp: partial_ball_def)
  have n: "?c ! k = (if k = j then u else if k = i then c ! j else c ! k)" if "k < ring_n" for k
    using that c(1) assms(2,3) by (auto simp: nth_list_update)
  show "partial_ball (Suc i) ?c"
    unfolding partial_ball_def using c assms by (auto simp: n)
  let ?f = "\<lambda>c k. \<bar>centered (c ! k)\<bar>"
  have split: "one_norm d = (\<Sum>k \<in> {..<ring_n} - {i, j}. ?f d k) + (\<Sum>k \<in> {i, j}. ?f d k)" for d
    unfolding one_norm_def by (rule sum.subset_diff) (use assms(2,3) in auto)
  have "(\<Sum>k \<in> {..<ring_n} - {i, j}. ?f ?c k) = (\<Sum>k \<in> {..<ring_n} - {i, j}. ?f c k)" by (rule sum.cong) (auto simp: n)
  moreover have "(\<Sum>k \<in> {i, j}. ?f ?c k) = (\<Sum>k \<in> {i, j}. ?f c k) + 1"
    using assms(2-4) c(3) [of i] by (cases "i = j") (simp_all add: n unit_abs c(1))
  ultimately show "one_norm ?c = one_norm c + 1" by (simp add: split)
qed

lemma ball_spec:
  assumes "ball st [i..<i + m] h pos c = Some c'" "partial_ball i c" "i + m \<le> ring_n"
  shows "partial_ball (i + m) c' \<and> one_norm c' = one_norm c + int m"
  using assms
proof (induction m arbitrary: i h pos c)
  case (Suc m)
  have u: "[i..<i + Suc m] = i # [Suc i..<Suc i + m]" using upt_conv_Cons [of i "i + Suc m"] by simp
  from Suc.prems(1) [unfolded u] obtain j pos' where f: "find_index st i pos = Some (j, pos')"
    and b: "ball st [Suc i..<Suc i + m] (drop_bit 1 h) pos' ((c[i := c ! j])[j := canon (1 - 2 * (h AND 1))]) = Some c'"
    by (auto split: option.splits)
  have i: "i < ring_n" "Suc i + m \<le> ring_n" using Suc.prems(3) by simp_all
  note s = ball_step [OF Suc.prems(2) find_index_Some [OF f, THEN conjunct1, unfolded fst_conv] i(1) unit_canon, of h]
  show ?case using Suc.IH [OF b s(1) i(2)] s(2) by simp
qed simp

lemma partial_ball_zero: "partial_ball i zero_poly" "one_norm zero_poly = 0"
  by (simp_all add: partial_ball_def zero_poly_def one_norm_def unit_abs)

text \<open>A challenge: canonical, every coefficient 0, 1 or - 1, and \<^verbatim>\<open>Tau\<close> of them not 0.\<close>

lemma sampleInBall_spec:
  assumes "standard_params p" "sampleInBall p X cTilde = Returns c"
  shows "canonical_poly c" "one_norm c = int (mp_Tau p)" "\<And>k. k < ring_n \<Longrightarrow> c ! k = 0 \<or> unit_coeff (c ! k)"
proof -
  have tau: "ring_n - mp_Tau p + mp_Tau p = ring_n" using assms(1)
    by (auto simp: standard_params_def MLDSA44_def MLDSA65_def MLDSA87_def newParams_def)
  have "ball (x256 X cTilde) [ring_n - mp_Tau p..<ring_n - mp_Tau p + mp_Tau p] (sign_bits (x256 X cTilde)) 8 zero_poly = Some c"
    unfolding tau using assms(2) by (simp add: sampleInBall_def Let_def)
  from ball_spec [OF this partial_ball_zero(1)] have s: "partial_ball ring_n c \<and> one_norm c = int (mp_Tau p)"
    by (simp add: tau partial_ball_zero)
  then show "one_norm c = int (mp_Tau p)" "\<And>k. k < ring_n \<Longrightarrow> c ! k = 0 \<or> unit_coeff (c ! k)" by (simp_all add: partial_ball_def)
  have "canonical (c ! k)" if "k < ring_n" for k using s that by (fastforce simp: partial_ball_def unit_coeff_def canonical_def)
  then show "canonical_poly c" using s by (intro canonical_polyI) (simp_all add: partial_ball_def)
qed

lemma ball_returns:
  assumes "infinite {k. unat (st k) \<le> lim}" "\<And>i. i \<in> set is \<Longrightarrow> lim \<le> i"
  shows "\<exists>c'. ball st is h pos c = Some c'"
  using assms(2)
proof (induction "is" arbitrary: h pos c)
  case (Cons i "is")
  obtain m where m: "pos \<le> m" "unat (st m) \<le> lim" using assms(1) unfolding infinite_nat_iff_unbounded_le by blast
  then obtain j pos' where "find_index st i pos = Some (j, pos')" using find_index_returns [of st m i pos] Cons.prems [of i] by auto
  then show ?case using Cons by simp
qed simp

section \<open>Termination\<close>

lemma rejNTTPoly_returns:
  "(\<exists>a. rejNTTPoly X rho s r = Returns a) \<longleftrightarrow>
   (\<exists>m. ring_n \<le> length (filter (\<lambda>k. three_bytes (x128 X (rho @ [s, r])) k < modq) [0..<m]))"
proof -
  let ?step = "ntt_step (x128 X (rho @ [s, r]))"
  have "(\<exists>a. rejNTTPoly X rho s r = Returns a) \<longleftrightarrow> (\<exists>m. ring_n \<le> length (after ?step m))"
    using read_until_returns [of ?step] by (auto simp: rejNTTPoly_def read_until_iff)
  then show ?thesis by (simp add: ntt_step_after)
qed

definition accepted_halves :: "int \<Rightarrow> byte \<Rightarrow> nat" where
  "accepted_halves eta b =
     (if half_byte eta (uint (b AND 0x0F)) = None then 0 else 1) + (if half_byte eta (uint (drop_bit 4 b)) = None then 0 else 1)"

lemma bounded_one_length:
  "length a \<le> ring_n \<Longrightarrow> length (bounded_one eta z a) = min ring_n (length a + (if half_byte eta z = None then 0 else 1))"
  by (auto simp: bounded_one_def split: option.splits)

lemma bounded_after: "length (after (bounded_step eta st) m) = min ring_n (\<Sum>k<m. accepted_halves eta (st k))"
proof (induction m)
  case (Suc m)
  let ?a = "after (bounded_step eta st) m"
  have "length ?a \<le> ring_n" using Suc by simp
  moreover from this have "length (bounded_one eta (uint (st m AND 0x0F)) ?a) \<le> ring_n" by (simp add: bounded_one_length)
  ultimately have "length (after (bounded_step eta st) (Suc m)) = min ring_n (length ?a + accepted_halves eta (st m))"
    by (simp add: bounded_step_def bounded_one_length accepted_halves_def)
  then show ?case using Suc by simp
qed simp

lemma rejBoundedPoly_returns:
  "(\<exists>a. rejBoundedPoly p X seed nonce = Returns a) \<longleftrightarrow>
   (\<exists>m. ring_n \<le> (\<Sum>k<m. accepted_halves (mp_Eta p) (x256 X (seed @ le16 nonce) k)))"
proof -
  let ?step = "bounded_step (mp_Eta p) (x256 X (seed @ le16 nonce))"
  have "(\<exists>a. rejBoundedPoly p X seed nonce = Returns a) \<longleftrightarrow> (\<exists>m. ring_n \<le> length (after ?step m))"
    using read_until_returns [of ?step] by (auto simp: rejBoundedPoly_def read_until_iff)
  then show ?thesis by (simp add: bounded_after)
qed

lemma one_norm_count:
  assumes "length c = ring_n" "\<And>k. k < ring_n \<Longrightarrow> c ! k = 0 \<or> unit_coeff (c ! k)"
  shows "one_norm c = int (length (filter (\<lambda>x. x \<noteq> 0) c))"
proof -
  have "one_norm c = (\<Sum>k \<in> {..<ring_n}. if c ! k \<noteq> 0 then 1 else 0)"
    unfolding one_norm_def by (rule sum.cong) (use assms(2) unit_abs in \<open>fastforce simp: unit_coeff_def\<close>)+
  also have "\<dots> = int (card {k \<in> {..<ring_n}. c ! k \<noteq> 0})" by (simp add: sum.If_cases Int_def conj_commute)
  also have "\<dots> = int (length (filter (\<lambda>x. x \<noteq> 0) c))" by (simp add: length_filter_conv_card assms(1))
  finally show ?thesis .
qed

lemma sampleInBall_returns:
  assumes "infinite {k. unat (x256 X cTilde k) \<le> ring_n - mp_Tau p}"
  shows "\<exists>c. sampleInBall p X cTilde = Returns c"
  using ball_returns [OF assms, of "[ring_n - mp_Tau p..<ring_n]"] by (fastforce simp: sampleInBall_def Let_def)

text \<open>
  C40: When the samplers end, and with what. For each parameter set and all streams the two hash functions may yield: a uniform
  polynomial is returned if and only if the stream holds 256 three-byte groups below the prime (otherwise the loop does not end), a
  secret polynomial if and only if it holds 256 acceptable half bytes; both never panic. If bytes not above \<^verbatim>\<open>256 - Tau\<close> keep
  coming, the challenge is returned, and it has exactly \<^verbatim>\<open>Tau\<close> coefficients that are not 0, each 1 or - 1 modulo the prime.
\<close>

theorem sampling_terminates:
  assumes "standard_params p"
  shows "(if \<exists>m. ring_n \<le> length (filter (\<lambda>k. three_bytes (x128 X (rho @ [s, r])) k < modq) [0..<m])
      then \<exists>a. rejNTTPoly X rho s r = Returns a \<and> canonical_poly a else rejNTTPoly X rho s r = Loops)
    \<and> (if \<exists>m. ring_n \<le> (\<Sum>k<m. accepted_halves (mp_Eta p) (x256 X (seed @ le16 nonce) k))
      then \<exists>a. rejBoundedPoly p X seed nonce = Returns a \<and> canonical_poly a \<and> (\<forall>x \<in> set a. \<bar>centered x\<bar> \<le> mp_Eta p)
      else rejBoundedPoly p X seed nonce = Loops)
    \<and> (infinite {k. unat (x256 X cTilde k) \<le> ring_n - mp_Tau p} \<longrightarrow>
      (\<exists>c. sampleInBall p X cTilde = Returns c \<and> length c = ring_n \<and> length (filter (\<lambda>x. x \<noteq> 0) c) = mp_Tau p \<and> set c \<subseteq> {0, 1, modq - 1}))"
    (is "?ntt \<and> ?bounded \<and> ?ball")
proof (intro conjI)
  have "rejNTTPoly X rho s r \<noteq> Panic" "rejBoundedPoly p X seed nonce \<noteq> Panic" by (simp_all add: rejNTTPoly_def rejBoundedPoly_def)
  then have np: "(\<exists>a. rejNTTPoly X rho s r = Returns a) \<or> rejNTTPoly X rho s r = Loops"
    "(\<exists>a. rejBoundedPoly p X seed nonce = Returns a) \<or> rejBoundedPoly p X seed nonce = Loops"
    by (metis outcome.exhaust)+
  show ?ntt unfolding rejNTTPoly_returns [symmetric] using np(1) rejNTTPoly_canonical by auto
  show ?bounded
    unfolding rejBoundedPoly_returns [symmetric] using np(2) rejBoundedPoly_short [of p X seed nonce]
    by (auto simp: signed_poly_def abs_le_iff minus_le_iff)
  show ?ball
  proof
    assume "infinite {k. unat (x256 X cTilde k) \<le> ring_n - mp_Tau p}"
    then obtain c where c: "sampleInBall p X cTilde = Returns c" using sampleInBall_returns by blast
    note s = sampleInBall_spec [OF assms c]
    have "length c = ring_n" using s(1) by (simp add: canonical_poly_def)
    moreover have "set c \<subseteq> {0, 1, modq - 1}" using s(3) calculation unfolding in_set_conv_nth subset_iff unit_coeff_def by auto
    moreover have "length (filter (\<lambda>x. x \<noteq> 0) c) = mp_Tau p" using s(2) one_norm_count [OF calculation(1) s(3)] by simp
    ultimately show "\<exists>c. sampleInBall p X cTilde = Returns c \<and> length c = ring_n \<and> length (filter (\<lambda>x. x \<noteq> 0) c) = mp_Tau p \<and> set c \<subseteq> {0, 1, modq - 1}"
      using c by blast
  qed
qed

text \<open>A stream of zeros ends every loop; on a stream of ones the uniform sampler does not end.\<close>

theorem sampling_terminates_witness:
  "(\<exists>a. rejNTTPoly \<lparr>x128 = \<lambda>_ _. 0, x256 = \<lambda>_ _. 0\<rparr> [] 0 0 = Returns a) \<and>
   rejNTTPoly \<lparr>x128 = \<lambda>_ _. 255, x256 = \<lambda>_ _. 0\<rparr> [] 0 0 = Loops \<and>
   (\<exists>c. sampleInBall MLDSA44 \<lparr>x128 = \<lambda>_ _. 0, x256 = \<lambda>_ _. 0\<rparr> [] = Returns c \<and> length (filter (\<lambda>x. x \<noteq> 0) c) = 39)"
proof -
  have p: "standard_params MLDSA44" "mp_Tau MLDSA44 = 39" by (simp_all add: standard_params_def) (simp add: MLDSA44_def newParams_def)
  have z: "three_bytes (\<lambda>_. 0) k = 0" "three_bytes (\<lambda>_. 255) k = 8388607" for k by (simp_all add: three_bytes_def)
  have "\<exists>m. ring_n \<le> length (filter (\<lambda>k. three_bytes (\<lambda>_. 0) k < modq) [0..<m])" by (intro exI [of _ ring_n]) (simp add: z)
  moreover have "\<not> (\<exists>m. ring_n \<le> length (filter (\<lambda>k. three_bytes (\<lambda>_. 255) k < modq) [0..<m]))" by (simp add: z)
  ultimately show ?thesis
    using sampling_terminates [OF p(1), of "\<lparr>x128 = \<lambda>_ _. 0, x256 = \<lambda>_ _. 0\<rparr>" "[]" 0 0 "[]" 0 "[]"]
      sampling_terminates [OF p(1), of "\<lparr>x128 = \<lambda>_ _. 255, x256 = \<lambda>_ _. 0\<rparr>" "[]" 0 0 "[]" 0 "[]"] p(2) by auto
qed

end
