(* ===== verification/Mldsa.thy ===== *)
theory Mldsa
  imports MldsaNTT MldsaSample
begin

text \<open>
  The ML-DSA signature scheme (\<^verbatim>\<open>mldsa/mldsa.go\<close>, \<^verbatim>\<open>mldsa/prehash.go\<close>, and the vectors of \<^verbatim>\<open>mldsa/poly.go\<close>): key
  generation, the signing loop and verification. The results: a signature made with a generated key verifies, verification never panics,
  and exactly when the signing loop ends. The vectors the code combines have equal lengths (\<^verbatim>\<open>K\<close> or \<^verbatim>\<open>L\<close>); an
  operation that updates its receiver in place is a function here, since the code uses only the result afterwards.
\<close>

section \<open>Vectors of polynomials\<close>

definition vec_ntt :: "vec \<Rightarrow> vec" where
  "vec_ntt v = map ntt v"

definition vec_invNTT :: "vec \<Rightarrow> vec" where
  "vec_invNTT v = map invNTT v"

definition vec_add :: "vec \<Rightarrow> vec \<Rightarrow> vec" where
  "vec_add v w = map (\<lambda>i. poly_add (v ! i) (w ! i)) [0..<length v]"

definition vec_sub :: "vec \<Rightarrow> vec \<Rightarrow> vec" where
  "vec_sub v w = map (\<lambda>i. poly_sub (v ! i) (w ! i)) [0..<length v]"

definition vec_normExceeds :: "vec \<Rightarrow> int \<Rightarrow> bool" where
  "vec_normExceeds v bound = fold (\<lambda>w bad. poly_normExceeds w bound \<or> bad) v False"

definition row_mul :: "vec \<Rightarrow> vec \<Rightarrow> poly" where
  "row_mul row u = fold (\<lambda>s w. poly_add w (mulHat (row ! s) (u ! s))) [0..<length u] zero_poly"

definition mulMatVecHat :: "vec list \<Rightarrow> vec \<Rightarrow> vec" where
  "mulMatVecHat a u = map (\<lambda>row. row_mul row u) a"

definition scaleD2 :: "vec \<Rightarrow> vec" where
  "scaleD2 v = map (map (\<lambda>x. wrap32 (wrap64 (push_bit drop_d x) smod modq))) v"

definition vecMulHat :: "vec \<Rightarrow> poly \<Rightarrow> vec" where
  "vecMulHat v c = map (\<lambda>t. mulHat t c) v"

section \<open>Key generation\<close>

definition round_t :: "vec \<Rightarrow> vec \<times> vec" where
  "round_t t = (map (map (\<lambda>x. fst (power2Round x))) t, map (map (\<lambda>x. canon (snd (power2Round x)))) t)"

definition KeyGen :: "mldsa_params \<Rightarrow> xof \<Rightarrow> bytes \<Rightarrow> (string + bytes \<times> bytes) outcome" where
  "KeyGen p X xi =
     (if length xi \<noteq> seedB then Returns (Inl ''mldsa: seed must be 32 bytes'')
      else
        (let ext = shake256 X 128 [xi, [word_of_nat (mp_K p), word_of_nat (mp_L p)]];
             rho = take 32 ext; rhoPrime = take 64 (drop 32 ext); key = take 32 (drop 96 ext) in
         bind_outcome (expandA p X rho) (\<lambda>a.
         bind_outcome (expandS p X rhoPrime) (\<lambda>(s1, s2).
         let t = vec_add (vec_invNTT (mulMatVecHat a (vec_ntt s1))) s2; (t1, t0) = round_t t in
         bind_outcome (pkEncode p rho t1) (\<lambda>pk.
         let tr = shake256 X 64 [pk] in
         bind_outcome (skEncode p rho key tr s1 s2 t0) (\<lambda>sk.
         Returns (Inr (pk, sk))))))))"

section \<open>Signing\<close>

definition hint_vec :: "mldsa_params \<Rightarrow> vec \<Rightarrow> vec \<Rightarrow> vec" where
  "hint_vec p r ct0 =
     map (\<lambda>i. map (\<lambda>j. makeHint p (subQ 0 (ct0 ! i ! j)) (addQ (r ! i ! j) (ct0 ! i ! j))) [0..<ring_n]) [0..<mp_K p]"

text \<open>One round of the loop: \<open>None\<close> is \<^verbatim>\<open>continue\<close>.\<close>

definition sign_attempt ::
  "mldsa_params \<Rightarrow> xof \<Rightarrow> vec list \<Rightarrow> vec \<Rightarrow> vec \<Rightarrow> vec \<Rightarrow> bytes \<Rightarrow> bytes \<Rightarrow> nat \<Rightarrow> bytes option outcome" where
  "sign_attempt p X a s1Hat s2Hat t0Hat rhoPP mu kappa =
     bind_outcome (expandMask p X rhoPP kappa) (\<lambda>y.
     let w = vec_invNTT (mulMatVecHat a (vec_ntt y)); w1 = highBitsVec p w in
     bind_outcome (w1Encode p w1) (\<lambda>enc.
     let cTilde = shake256 X (mp_Lambda p div 4) [mu, enc] in
     bind_outcome (sampleInBall p X cTilde) (\<lambda>c.
     let cHat = ntt c;
         z = vec_add y (vec_invNTT (vecMulHat s1Hat cHat));
         r = vec_sub w (vec_invNTT (vecMulHat s2Hat cHat)) in
     if vec_normExceeds z (wrap32 (mp_Gamma1 p - mp_Beta p)) \<or> vec_normExceeds (lowBitsVec p r) (wrap32 (mp_Gamma2 p - mp_Beta p))
     then Returns None
     else
       let ct0 = vec_invNTT (vecMulHat t0Hat cHat) in
       if vec_normExceeds ct0 (mp_Gamma2 p) then Returns None
       else
         let h = hint_vec p r ct0 in
         if sum_list (concat h) > int (mp_Omega p) then Returns None
         else bind_outcome (sigEncode p cTilde z h) (\<lambda>sig. Returns (Some sig)))))"

partial_function (option) sign_loop :: "(nat \<Rightarrow> bytes option outcome) \<Rightarrow> nat \<Rightarrow> nat \<Rightarrow> bytes outcome option" where
  "sign_loop attempt l kappa =
     (case attempt kappa of Panic \<Rightarrow> Some Panic | Loops \<Rightarrow> Some Loops
      | Returns r \<Rightarrow> (case r of None \<Rightarrow> sign_loop attempt l (kappa + l) | Some sig \<Rightarrow> Some (Returns sig)))"

definition signMu :: "mldsa_params \<Rightarrow> xof \<Rightarrow> bytes \<Rightarrow> bytes \<Rightarrow> bytes \<Rightarrow> bytes outcome" where
  "signMu p X sk mu rnd =
     bind_outcome (skDecode p sk) (\<lambda>(rho, key, _, s1, s2, t0).
     bind_outcome (expandA p X rho) (\<lambda>a.
     let rhoPP = shake256 X 64 [key, rnd, mu] in
     case sign_loop (sign_attempt p X a (vec_ntt s1) (vec_ntt s2) (vec_ntt t0) rhoPP mu) (mp_L p) 0 of None \<Rightarrow> Loops | Some r \<Rightarrow> r))"

definition SignInternal :: "mldsa_params \<Rightarrow> xof \<Rightarrow> bytes \<Rightarrow> bytes \<Rightarrow> bytes \<Rightarrow> (string + bytes) outcome" where
  "SignInternal p X sk mPrime rnd =
     (if length sk \<noteq> mp_PrivateKeySize p then Returns (Inl ''mldsa: bad private key size'')
      else if length rnd \<noteq> seedB then Returns (Inl ''mldsa: rnd must be 32 bytes'')
      else bind_outcome (signMu p X sk (shake256 X 64 [take 64 (drop 64 sk), mPrime]) rnd) (\<lambda>sig. Returns (Inr sig)))"

section \<open>Verification\<close>

definition verifyMu :: "mldsa_params \<Rightarrow> xof \<Rightarrow> bytes \<Rightarrow> bytes \<Rightarrow> bytes \<Rightarrow> bool outcome" where
  "verifyMu p X pk mu sig =
     bind_outcome (pkDecode p pk) (\<lambda>(rho, t1).
     bind_outcome (sigDecode p sig) (\<lambda>(cTilde, z, h).
     case h of None \<Rightarrow> Returns False
     | Some h \<Rightarrow>
         if vec_normExceeds z (wrap32 (mp_Gamma1 p - mp_Beta p)) then Returns False
         else
           bind_outcome (expandA p X rho) (\<lambda>a.
           bind_outcome (sampleInBall p X cTilde) (\<lambda>c.
           let cHat = ntt c;
               wApprox = vec_invNTT (vec_sub (mulMatVecHat a (vec_ntt z)) (vecMulHat (vec_ntt (scaleD2 t1)) cHat));
               w1 = map (\<lambda>i. map (\<lambda>j. useHint p (h ! i ! j) (wApprox ! i ! j)) [0..<ring_n]) [0..<mp_K p] in
           bind_outcome (w1Encode p w1) (\<lambda>enc.
           Returns (cTilde = shake256 X (mp_Lambda p div 4) [mu, enc]))))))"

definition VerifyInternal :: "mldsa_params \<Rightarrow> xof \<Rightarrow> bytes \<Rightarrow> bytes \<Rightarrow> bytes \<Rightarrow> bool outcome" where
  "VerifyInternal p X pk mPrime sig =
     (if length pk \<noteq> mp_PublicKeySize p \<or> length sig \<noteq> mp_SignatureSize p then Returns False
      else verifyMu p X pk (shake256 X 64 [shake256 X 64 [pk], mPrime]) sig)"

section \<open>Messages\<close>

definition formatMsg :: "bytes \<Rightarrow> bytes \<Rightarrow> string + bytes" where
  "formatMsg msg ctx =
     (if length ctx > 255 then Inl ''mldsa: context longer than 255 bytes''
      else Inr ([0, word_of_nat (length ctx)] @ ctx @ msg))"

definition mldsa_Sign :: "mldsa_params \<Rightarrow> xof \<Rightarrow> bytes \<Rightarrow> bytes \<Rightarrow> bytes \<Rightarrow> bytes \<Rightarrow> (string + bytes) outcome" where
  "mldsa_Sign p X sk msg ctx rnd = (case formatMsg msg ctx of Inl e \<Rightarrow> Returns (Inl e) | Inr m \<Rightarrow> SignInternal p X sk m rnd)"

definition mldsa_Verify :: "mldsa_params \<Rightarrow> xof \<Rightarrow> bytes \<Rightarrow> bytes \<Rightarrow> bytes \<Rightarrow> bytes \<Rightarrow> bool outcome" where
  "mldsa_Verify p X pk msg sig ctx = (case formatMsg msg ctx of Inl e \<Rightarrow> Returns False | Inr m \<Rightarrow> VerifyInternal p X pk m sig)"

definition SignMu :: "mldsa_params \<Rightarrow> xof \<Rightarrow> bytes \<Rightarrow> bytes \<Rightarrow> bytes \<Rightarrow> (string + bytes) outcome" where
  "SignMu p X sk mu rnd =
     (if length sk \<noteq> mp_PrivateKeySize p then Returns (Inl ''mldsa: bad private key size'')
      else if length mu \<noteq> 64 then Returns (Inl ''mldsa: mu must be 64 bytes'')
      else if length rnd \<noteq> seedB then Returns (Inl ''mldsa: rnd must be 32 bytes'')
      else bind_outcome (signMu p X sk mu rnd) (\<lambda>sig. Returns (Inr sig)))"

definition VerifyMu :: "mldsa_params \<Rightarrow> xof \<Rightarrow> bytes \<Rightarrow> bytes \<Rightarrow> bytes \<Rightarrow> bool outcome" where
  "VerifyMu p X pk mu sig =
     (if length pk \<noteq> mp_PublicKeySize p \<or> length mu \<noteq> 64 \<or> length sig \<noteq> mp_SignatureSize p then Returns False
      else verifyMu p X pk mu sig)"

text \<open>A pre-hash function; its zero value, without a digest function, is invalid.\<close>

record PreHash =
  ph_name :: string
  ph_oid :: bytes
  ph_sum :: "(bytes \<Rightarrow> bytes) option"

definition oidTail :: "byte \<Rightarrow> bytes" where
  "oidTail b = [0x06, 0x09, 0x60, 0x86, 0x48, 0x01, 0x65, 0x03, 0x04, 0x02, b]"

definition shakeSum :: "xof \<Rightarrow> nat \<Rightarrow> bytes \<Rightarrow> bytes" where
  "shakeSum X bits m = map ((if bits = 256 then x128 X else x256 X) m) [0..<bits div 8]"

text \<open>The digest functions of the standard library are parameters.\<close>

record digests =
  sha256_Sum224 :: "bytes \<Rightarrow> bytes"
  sha256_Sum256 :: "bytes \<Rightarrow> bytes"
  sha512_Sum384 :: "bytes \<Rightarrow> bytes"
  sha512_Sum512 :: "bytes \<Rightarrow> bytes"
  sha512_Sum512_224 :: "bytes \<Rightarrow> bytes"
  sha512_Sum512_256 :: "bytes \<Rightarrow> bytes"
  sha3_Sum224 :: "bytes \<Rightarrow> bytes"
  sha3_Sum256 :: "bytes \<Rightarrow> bytes"
  sha3_Sum384 :: "bytes \<Rightarrow> bytes"
  sha3_Sum512 :: "bytes \<Rightarrow> bytes"

definition PreHashes :: "digests \<Rightarrow> xof \<Rightarrow> PreHash list" where
  "PreHashes D X =
    [\<lparr>ph_name = ''SHA2-224'', ph_oid = oidTail 4, ph_sum = Some (sha256_Sum224 D)\<rparr>,
     \<lparr>ph_name = ''SHA2-256'', ph_oid = oidTail 1, ph_sum = Some (sha256_Sum256 D)\<rparr>,
     \<lparr>ph_name = ''SHA2-384'', ph_oid = oidTail 2, ph_sum = Some (sha512_Sum384 D)\<rparr>,
     \<lparr>ph_name = ''SHA2-512'', ph_oid = oidTail 3, ph_sum = Some (sha512_Sum512 D)\<rparr>,
     \<lparr>ph_name = ''SHA2-512/224'', ph_oid = oidTail 5, ph_sum = Some (sha512_Sum512_224 D)\<rparr>,
     \<lparr>ph_name = ''SHA2-512/256'', ph_oid = oidTail 6, ph_sum = Some (sha512_Sum512_256 D)\<rparr>,
     \<lparr>ph_name = ''SHA3-224'', ph_oid = oidTail 7, ph_sum = Some (sha3_Sum224 D)\<rparr>,
     \<lparr>ph_name = ''SHA3-256'', ph_oid = oidTail 8, ph_sum = Some (sha3_Sum256 D)\<rparr>,
     \<lparr>ph_name = ''SHA3-384'', ph_oid = oidTail 9, ph_sum = Some (sha3_Sum384 D)\<rparr>,
     \<lparr>ph_name = ''SHA3-512'', ph_oid = oidTail 10, ph_sum = Some (sha3_Sum512 D)\<rparr>,
     \<lparr>ph_name = ''SHAKE-128'', ph_oid = oidTail 11, ph_sum = Some (shakeSum X 256)\<rparr>,
     \<lparr>ph_name = ''SHAKE-256'', ph_oid = oidTail 12, ph_sum = Some (shakeSum X 512)\<rparr>]"

definition formatPreHash :: "PreHash \<Rightarrow> bytes \<Rightarrow> bytes \<Rightarrow> string + bytes" where
  "formatPreHash ph msg ctx =
     (case ph_sum ph of None \<Rightarrow> Inl ''mldsa: invalid pre-hash function''
      | Some digest \<Rightarrow>
          if length ctx > 255 then Inl ''mldsa: context longer than 255 bytes''
          else Inr ([1, word_of_nat (length ctx)] @ ctx @ ph_oid ph @ digest msg))"

definition SignPreHash :: "mldsa_params \<Rightarrow> xof \<Rightarrow> bytes \<Rightarrow> bytes \<Rightarrow> bytes \<Rightarrow> PreHash \<Rightarrow> bytes \<Rightarrow> (string + bytes) outcome" where
  "SignPreHash p X sk msg ctx ph rnd = (case formatPreHash ph msg ctx of Inl e \<Rightarrow> Returns (Inl e) | Inr m \<Rightarrow> SignInternal p X sk m rnd)"

definition VerifyPreHash :: "mldsa_params \<Rightarrow> xof \<Rightarrow> bytes \<Rightarrow> bytes \<Rightarrow> bytes \<Rightarrow> bytes \<Rightarrow> PreHash \<Rightarrow> bool outcome" where
  "VerifyPreHash p X pk msg sig ctx ph = (case formatPreHash ph msg ctx of Inl e \<Rightarrow> Returns False | Inr m \<Rightarrow> VerifyInternal p X pk m sig)"

section \<open>Vectors modulo the prime\<close>

definition canonical_vec :: "nat \<Rightarrow> vec \<Rightarrow> bool" where
  "canonical_vec c v \<longleftrightarrow> length v = c \<and> (\<forall>w \<in> set v. canonical_poly w)"

lemma canonical_vec_nth: "canonical_vec c v \<Longrightarrow> i < c \<Longrightarrow> canonical_poly (v ! i)"
  by (simp add: canonical_vec_def)

lemma canonical_vec_length: "canonical_vec c v \<Longrightarrow> length v = c"
  by (simp add: canonical_vec_def)

lemma canonical_vec_ops:
  assumes "canonical_vec c v"
  shows "canonical_vec c (vec_ntt v)" "canonical_vec c (vec_invNTT v)"
    "canonical_vec c w \<Longrightarrow> canonical_vec c (vec_add v w)" "canonical_vec c w \<Longrightarrow> canonical_vec c (vec_sub v w)"
    "canonical_poly u \<Longrightarrow> canonical_vec c (vecMulHat v u)"
  using assms by (auto simp: canonical_vec_def vec_ntt_def vec_invNTT_def vec_add_def vec_sub_def vecMulHat_def ntt_zqp(1) invNTT_zqp(1))

lemma vec_nth:
  assumes "canonical_vec c v" "i < c"
  shows "vec_ntt v ! i = ntt (v ! i)" "vec_invNTT v ! i = invNTT (v ! i)" "vec_add v w ! i = poly_add (v ! i) (w ! i)"
    "vec_sub v w ! i = poly_sub (v ! i) (w ! i)" "vecMulHat v u ! i = mulHat (v ! i) u"
  using assms by (simp_all add: canonical_vec_def vec_ntt_def vec_invNTT_def vec_add_def vec_sub_def vecMulHat_def)

lemma vec_normExceeds_iff:
  assumes "canonical_vec c v" "0 \<le> bound" "bound < 2 ^ 30"
  shows "vec_normExceeds v bound \<longleftrightarrow> (\<exists>w \<in> set v. \<exists>x \<in> set w. bound \<le> \<bar>centered x\<bar>)"
proof -
  have "fold (\<lambda>w bad. poly_normExceeds w bound \<or> bad) v b \<longleftrightarrow> (\<exists>w \<in> set v. poly_normExceeds w bound) \<or> b" for b
    by (induction v arbitrary: b) auto
  moreover have "poly_normExceeds w bound \<longleftrightarrow> (\<exists>x \<in> set w. bound \<le> \<bar>centered x\<bar>)" if "w \<in> set v" for w
    using that assms by (intro poly_normExceeds_iff) (auto simp: canonical_vec_def canonical_poly_def)
  ultimately show ?thesis by (auto simp: vec_normExceeds_def)
qed

text \<open>The transform of a canonical polynomial, as a function into the ring, is linear.\<close>

definition hat :: "poly \<Rightarrow> nat \<Rightarrow> zq" where
  "hat a i = zqp (ntt a) i"

lemma hat_evaluate: "canonical_poly a \<Longrightarrow> i < ring_n \<Longrightarrow> hat a i = (\<Sum>r<ring_n. zqp a r * node (ring_n + i) ^ r)"
  by (simp add: hat_def ntt_zqp(2) fwd_all_evaluate evaluate_def)

lemma hat_ops:
  assumes "canonical_poly a" "i < ring_n"
  shows "canonical_poly b \<Longrightarrow> hat (poly_add a b) i = hat a i + hat b i" "canonical_poly b \<Longrightarrow> hat (poly_sub a b) i = hat a i - hat b i"
    "hat (invNTT a) i = zqp a i"
proof -
  assume b: "canonical_poly b"
  note e = hat_evaluate [OF _ assms(2)]
  have "hat (poly_add a b) i = (\<Sum>r<ring_n. (zqp a r + zqp b r) * node (ring_n + i) ^ r)"
    unfolding e [OF canonical_poly_ops(1) [OF assms(1) b]] by (rule sum.cong [OF refl]) (simp only: zqp_ops assms(1) b lessThan_iff)
  then show "hat (poly_add a b) i = hat a i + hat b i" unfolding e [OF assms(1)] e [OF b] distrib_right sum.distrib .
  have "hat (poly_sub a b) i = (\<Sum>r<ring_n. (zqp a r - zqp b r) * node (ring_n + i) ^ r)"
    unfolding e [OF canonical_poly_ops(2) [OF assms(1) b]] by (rule sum.cong [OF refl]) (simp only: zqp_ops assms(1) b lessThan_iff)
  then show "hat (poly_sub a b) i = hat a i - hat b i" unfolding e [OF assms(1)] e [OF b] left_diff_distrib sum_subtractf .
next
  show "hat (invNTT a) i = zqp a i" using assms by (simp add: hat_def ntt_invNTT)
qed

lemma hat_inject:
  assumes "canonical_poly a" "canonical_poly b" "\<And>i. i < ring_n \<Longrightarrow> hat a i = hat b i"
  shows "a = b"
proof -
  have "ntt a = ntt b"
    by (rule zqp_inject [OF ntt_zqp(1) [OF assms(1)] ntt_zqp(1) [OF assms(2)]]) (rule assms(3) [unfolded hat_def])
  then have "invNTT (ntt a) = invNTT (ntt b)" by (rule arg_cong)
  then show ?thesis unfolding invNTT_ntt [OF assms(1)] invNTT_ntt [OF assms(2)] .
qed

lemma canonical_zero: "canonical_poly zero_poly"
  by (simp add: canonical_poly_def zero_poly_def canonical_def)

lemma row_mul_spec:
  assumes "canonical_vec l u" "canonical_vec l row"
  shows "canonical_poly (row_mul row u)" "i < ring_n \<Longrightarrow> zqp (row_mul row u) i = (\<Sum>s<l. zqp (row ! s) i * zqp (u ! s) i)"
proof -
  let ?f = "\<lambda>m. fold (\<lambda>s w. poly_add w (mulHat (row ! s) (u ! s))) [0..<m] zero_poly"
  have "canonical_poly (?f m) \<and> (\<forall>i < ring_n. zqp (?f m) i = (\<Sum>s<m. zqp (row ! s) i * zqp (u ! s) i))" if "m \<le> l" for m
    using that
  proof (induction m)
    case 0
    show ?case using canonical_zero by (simp add: zqp_def zero_poly_def)
  next
    case (Suc m)
    have c: "canonical_poly (?f m)" "canonical_poly (mulHat (row ! m) (u ! m))" "canonical_poly (row ! m)" "canonical_poly (u ! m)"
      using Suc assms canonical_vec_nth [of l _ m] by simp_all
    then show ?case using Suc by simp
  qed
  from this [of l] show "canonical_poly (row_mul row u)" "i < ring_n \<Longrightarrow> zqp (row_mul row u) i = (\<Sum>s<l. zqp (row ! s) i * zqp (u ! s) i)"
    using assms(1) by (simp_all add: row_mul_def canonical_vec_def)
qed

definition canonical_matrix :: "nat \<Rightarrow> nat \<Rightarrow> vec list \<Rightarrow> bool" where
  "canonical_matrix k l a \<longleftrightarrow> length a = k \<and> (\<forall>row \<in> set a. canonical_vec l row)"

lemma expandA_matrix: "expandA p X rho = Returns a \<Longrightarrow> canonical_matrix (mp_K p) (mp_L p) a"
  using expandA_canonical [of p X rho a] by (auto simp: canonical_matrix_def canonical_vec_def)

lemma mulMatVecHat_spec:
  assumes "canonical_matrix k l a" "canonical_vec l u"
  shows "canonical_vec k (mulMatVecHat a u)" "r < k \<Longrightarrow> mulMatVecHat a u ! r = row_mul (a ! r) u"
  using assms row_mul_spec(1) [OF assms(2)] by (auto simp: canonical_matrix_def canonical_vec_def mulMatVecHat_def)

section \<open>The rounded public key\<close>

lemma scale_eq:
  assumes r1: "0 \<le> r1" "r1 < 2 ^ 10"
  shows "wrap32 (wrap64 (push_bit drop_d r1) smod modq) = r1 * 8192 mod modq"
proof -
  have "push_bit drop_d r1 = r1 * 8192" by (simp add: push_bit_eq_mult)
  moreover have "wrap64 (r1 * 8192) = r1 * 8192" using r1 by (intro wrap64_id) (simp add: is_int64_def)
  moreover have "r1 * 8192 smod modq = r1 * 8192 mod modq" using r1 by (intro smod_nonneg) simp_all
  moreover have "wrap32 (r1 * 8192 mod modq) = r1 * 8192 mod modq"
  proof (rule wrap32_id)
    have "is_int32 m" if "0 \<le> m" "m < modq" for m using that by (simp add: is_int32_def)
    then show "is_int32 (r1 * 8192 mod modq)" by simp
  qed
  ultimately show "wrap32 (wrap64 (push_bit drop_d r1) smod modq) = r1 * 8192 mod modq" by simp
qed

lemma round_coeff:
  assumes "canonical x" "power2Round x = (r1, r0)"
  shows "0 \<le> r1" "r1 < 2 ^ 10" "canonical (canon r0)" "centered (canon r0) = r0" "- (2 ^ 12 - 1) \<le> r0" "r0 \<le> 2 ^ 12"
    "wrap32 (wrap64 (push_bit drop_d r1) smod modq) = subQ x (canon r0)"
proof -
  note s = power2Round_spec [OF assms]
  show r1: "0 \<le> r1" "r1 < 2 ^ 10" and "- (2 ^ 12 - 1) \<le> r0" "r0 \<le> 2 ^ 12" using s by simp_all
  have "\<bar>r0\<bar> \<le> 4190208" using s by simp
  then show c: "canonical (canon r0)" "centered (canon r0) = r0" using short_canon by simp_all
  have l: "wrap32 (wrap64 (push_bit drop_d r1) smod modq) = r1 * 8192 mod modq" using r1 by (rule scale_eq)
  have "(of_int (canon r0) :: zq) = of_int r0" using zq_centered [OF c(1)] c(2) by simp
  then have "(of_int (subQ x (canon r0)) :: zq) = of_int (r1 * 8192)" using zq_ops(2) [OF assms(1) c(1)] s(1) by simp
  then show "wrap32 (wrap64 (push_bit drop_d r1) smod modq) = subQ x (canon r0)"
    unfolding l using zq_canonical canonical_ops(2) [OF assms(1) c(1)] by metis
qed

lemma round_t_spec:
  assumes "canonical_vec k t" "round_t t = (t1, t0)"
  shows "length t1 = k" "\<And>w. w \<in> set t1 \<Longrightarrow> width_poly 10 w" "canonical_vec k t0" "\<And>w. w \<in> set t0 \<Longrightarrow> signed_poly (2 ^ 12 - 1) (2 ^ 12) w"
    "scaleD2 t1 = vec_sub t t0"
proof -
  have t1: "t1 = map (map (\<lambda>x. fst (power2Round x))) t" and t0: "t0 = map (map (\<lambda>x. canon (snd (power2Round x)))) t"
    using assms(2) by (simp_all add: round_t_def)
  have t: "length t = k" "\<And>w. w \<in> set t \<Longrightarrow> length w = ring_n" "\<And>w x. w \<in> set t \<Longrightarrow> x \<in> set w \<Longrightarrow> canonical x"
    using assms(1) by (auto simp: canonical_vec_def canonical_poly_def)
  note rc = round_coeff [OF _ prod.collapse [symmetric]]
  show "length t1 = k" using t by (simp add: t1)
  show "width_poly 10 w" if "w \<in> set t1" for w
    using that t rc(1,2) by (auto simp: t1 width_poly_def)
  show "signed_poly (2 ^ 12 - 1) (2 ^ 12) w" if "w \<in> set t0" for w
    using that t rc(3-6) by (auto simp: t0 signed_poly_def canonical_poly_def)
  then show "canonical_vec k t0" using t by (auto simp: t0 canonical_vec_def signed_poly_def)
  have "map (\<lambda>x. wrap32 (wrap64 (push_bit drop_d x) smod modq)) (t1 ! i) = poly_sub (t ! i) (t0 ! i)" if "i < k" for i
  proof (rule nth_equalityI)
    have i: "t ! i \<in> set t" using that t by simp
    show "length (map (\<lambda>x. wrap32 (wrap64 (push_bit drop_d x) smod modq)) (t1 ! i)) = length (poly_sub (t ! i) (t0 ! i))"
      using that t(1) t(2) [OF i] by (simp add: t1 poly_sub_def)
    fix j assume "j < length (map (\<lambda>x. wrap32 (wrap64 (push_bit drop_d x) smod modq)) (t1 ! i))"
    then have j: "j < ring_n" using that t(1) t(2) [OF i] by (simp add: t1)
    then have "canonical (t ! i ! j)" using t(2) [OF i] t(3) [OF i] by simp
    from rc(7) [OF this] show "map (\<lambda>x. wrap32 (wrap64 (push_bit drop_d x) smod modq)) (t1 ! i) ! j = poly_sub (t ! i) (t0 ! i) ! j"
      using that t(1) t(2) [OF i] j by (simp add: t1 t0 poly_sub_def)
  qed
  then show "scaleD2 t1 = vec_sub t t0"
    unfolding scaleD2_def vec_sub_def by (intro nth_equalityI) (simp_all add: t1 t(1))
qed

section \<open>The verifier's approximation\<close>

lemma hat_scaled:
  assumes "canonical_poly s" "canonical_poly c"
  shows "canonical_poly (invNTT (mulHat (ntt s) (ntt c)))" "j < ring_n \<Longrightarrow> hat (invNTT (mulHat (ntt s) (ntt c))) j = hat s j * hat c j"
proof -
  note h = ntt_zqp(1) [OF assms(1)] ntt_zqp(1) [OF assms(2)]
  show "canonical_poly (invNTT (mulHat (ntt s) (ntt c)))" by (rule invNTT_zqp(1) [OF canonical_poly_ops(3) [OF h]])
  assume "j < ring_n"
  then show "hat (invNTT (mulHat (ntt s) (ntt c))) j = hat s j * hat c j"
    using hat_ops(3) [OF canonical_poly_ops(3) [OF h]] zqp_ops(3) [OF h] by (simp add: hat_def)
qed

lemma hat_row:
  assumes "canonical_vec l u" "canonical_vec l row" "j < ring_n"
  shows "zqp (row_mul row (vec_ntt u)) j = (\<Sum>s<l. zqp (row ! s) j * hat (u ! s) j)"
  using row_mul_spec(2) [OF canonical_vec_ops(1) [OF assms(1)] assms(2,3)] vec_nth(1) [OF assms(1)] by (simp add: hat_def)

text \<open>
  Signer and verifier meet: what the verifier computes from the response is the commitment less the challenge times the second secret,
  plus the challenge times the dropped bits of the public key.
\<close>

lemma difference: "y + s - (s + b - t) = y - b + t" for y :: "'a::ab_group_add"
  by simp

lemma wApprox_eq:
  assumes "canonical_matrix k l a" "canonical_vec l y" "canonical_vec l s1" "canonical_vec k s2" "canonical_poly c" "i < k"
    and "t = vec_add (vec_invNTT (mulMatVecHat a (vec_ntt s1))) s2" "round_t t = (t1, t0)"
    and "z = vec_add y (vec_invNTT (vecMulHat (vec_ntt s1) (ntt c)))"
    and "r = vec_sub (vec_invNTT (mulMatVecHat a (vec_ntt y))) (vec_invNTT (vecMulHat (vec_ntt s2) (ntt c)))"
  shows "vec_invNTT (vec_sub (mulMatVecHat a (vec_ntt z)) (vecMulHat (vec_ntt (scaleD2 t1)) (ntt c))) ! i
    = poly_add (r ! i) (vec_invNTT (vecMulHat (vec_ntt t0) (ntt c)) ! i)"
proof -
  note cv = canonical_vec_ops and n = canonical_vec_nth and hc = ntt_zqp(1) [OF assms(5)]
  note m = mulMatVecHat_spec [OF assms(1)]
  have row: "canonical_vec l (a ! i)" using assms(1,6) by (simp add: canonical_matrix_def)
  have t: "canonical_vec k t" unfolding assms(7) using m(1) cv assms(3,4) by simp
  note rt = round_t_spec [OF t assms(8)]
  have z: "canonical_vec l z" unfolding assms(9) using cv assms(2,3) hc by simp
  have r: "canonical_vec k r" unfolding assms(10) using m(1) cv assms(2,4) hc by simp
  define t1' where "t1' = scaleD2 t1"
  have t1': "canonical_vec k t1'" "t1' ! i = poly_sub (t ! i) (t0 ! i)"
    using rt(3,5) t cv(4) vec_nth(4) [OF t assms(6)] by (simp_all add: t1'_def)
  define L where "L = poly_sub (row_mul (a ! i) (vec_ntt z)) (mulHat (ntt (t1' ! i)) (ntt c))"
  have Lc: "canonical_poly L" unfolding L_def
    using row_mul_spec(1) [OF cv(1) [OF z] row] ntt_zqp(1) [OF n [OF t1'(1) assms(6)]] hc by simp
  have lhs: "vec_invNTT (vec_sub (mulMatVecHat a (vec_ntt z)) (vecMulHat (vec_ntt t1') (ntt c))) ! i = invNTT L"
    unfolding L_def using m [OF cv(1) [OF z]] cv t1'(1) hc assms(6) by (simp add: vec_nth [where c = k])
  define R where "R = poly_add (r ! i) (invNTT (mulHat (ntt (t0 ! i)) (ntt c)))"
  have c0: "canonical_poly (mulHat (ntt (t0 ! i)) (ntt c))" using ntt_zqp(1) [OF n [OF rt(3) assms(6)]] hc by simp
  have Rc: "canonical_poly R" unfolding R_def using n [OF r assms(6)] invNTT_zqp(1) [OF c0] by simp
  have rhs: "poly_add (r ! i) (vec_invNTT (vecMulHat (vec_ntt t0) (ntt c)) ! i) = R"
    unfolding R_def using cv rt(3) hc assms(6) by (simp add: vec_nth [where c = k])
  have "invNTT L = R"
  proof (rule hat_inject [OF invNTT_zqp(1) [OF Lc] Rc])
    fix j :: nat assume j: "j < ring_n"
    let ?A = "\<lambda>u. \<Sum>s<l. zqp (a ! i ! s) j * u s"
    have hz: "hat (z ! s) j = hat (y ! s) j + hat (s1 ! s) j * hat c j" if s: "s < l" for s
    proof -
      note y = n [OF assms(2) s] and s1 = n [OF assms(3) s]
      have "z ! s = poly_add (y ! s) (invNTT (mulHat (ntt (s1 ! s)) (ntt c)))"
        unfolding assms(9) using cv assms(2,3) hc s by (simp add: vec_nth [where c = l])
      then show ?thesis using hat_ops(1) [OF y j hat_scaled(1) [OF s1 assms(5)]] hat_scaled(2) [OF s1 assms(5) j] by simp
    qed
    have product: "mulMatVecHat a (vec_ntt u) ! i = row_mul (a ! i) (vec_ntt u)" "canonical_poly (row_mul (a ! i) (vec_ntt u))"
      "canonical_vec k (vec_invNTT (mulMatVecHat a (vec_ntt u)))" "canonical_vec k (mulMatVecHat a (vec_ntt u))" if "canonical_vec l u" for u
      using m [OF cv(1) [OF that]] row_mul_spec(1) [OF cv(1) [OF that] row] cv(2) assms(6) by simp_all
    have ht: "hat (t ! i) j = ?A (\<lambda>s. hat (s1 ! s) j) + hat (s2 ! i) j"
    proof -
      note p = product [OF assms(3)]
      have "t ! i = poly_add (invNTT (row_mul (a ! i) (vec_ntt s1))) (s2 ! i)"
        unfolding assms(7) vec_nth(3) [OF p(3) assms(6)] vec_nth(2) [OF p(4) assms(6)] p(1) ..
      then show ?thesis using hat_ops(1) [OF invNTT_zqp(1) [OF p(2)] j n [OF assms(4,6)]] hat_ops(3) [OF p(2) j] hat_row [OF assms(3) row j] by simp
    qed
    have hr: "hat (r ! i) j = ?A (\<lambda>s. hat (y ! s) j) - hat (s2 ! i) j * hat c j"
    proof -
      note p = product [OF assms(2)] and s2 = n [OF assms(4,6)]
      have "r ! i = poly_sub (invNTT (row_mul (a ! i) (vec_ntt y))) (invNTT (mulHat (ntt (s2 ! i)) (ntt c)))"
        unfolding assms(10) vec_nth(4) [OF p(3) assms(6)] vec_nth(2) [OF p(4) assms(6)] p(1)
        using cv assms(4,6) hc by (simp add: vec_nth [where c = k])
      then show ?thesis
        using hat_ops(2) [OF invNTT_zqp(1) [OF p(2)] j hat_scaled(1) [OF s2 assms(5)]] hat_ops(3) [OF p(2) j] hat_row [OF assms(2) row j]
          hat_scaled(2) [OF s2 assms(5) j] by simp
    qed
    have h1: "hat (t1' ! i) j = hat (t ! i) j - hat (t0 ! i) j"
      unfolding t1'(2) by (rule hat_ops(2) [OF n [OF t assms(6)] j n [OF rt(3) assms(6)]])
    have "hat (invNTT L) j = zqp L j" by (rule hat_ops(3) [OF Lc j])
    also have "\<dots> = ?A (\<lambda>s. hat (z ! s) j) - hat (t1' ! i) j * hat c j"
      unfolding L_def hat_def
      using zqp_ops(2) [OF product(2) [OF z] canonical_poly_ops(3) [OF ntt_zqp(1) [OF n [OF t1'(1) assms(6)]] hc] j]
        zqp_ops(3) [OF ntt_zqp(1) [OF n [OF t1'(1) assms(6)]] hc j] hat_row [OF z row j] by (simp add: hat_def)
    also have "\<dots> = ?A (\<lambda>s. hat (y ! s) j + hat (s1 ! s) j * hat c j) - (?A (\<lambda>s. hat (s1 ! s) j) + hat (s2 ! i) j - hat (t0 ! i) j) * hat c j"
      unfolding h1 ht using hz by simp
    also have "\<dots> = ?A (\<lambda>s. hat (y ! s) j) - hat (s2 ! i) j * hat c j + hat (t0 ! i) j * hat c j"
      unfolding distrib_left sum.distrib mult.assoc [symmetric] sum_distrib_right [symmetric] left_diff_distrib distrib_right
      by (rule difference)
    also have "\<dots> = hat R j"
      unfolding R_def hr [symmetric] hat_ops(1) [OF n [OF r assms(6)] j hat_scaled(1) [OF n [OF rt(3) assms(6)] assms(5)]]
        hat_scaled(2) [OF n [OF rt(3) assms(6)] assms(5) j] ..
    finally show "hat (invNTT L) j = hat R j" .
  qed
  then show ?thesis using lhs rhs by (simp add: t1'_def)
qed

section \<open>A signature verifies\<close>

lemma standard_ranges:
  assumes "standard_params p"
  shows "wrap32 (mp_Gamma1 p - mp_Beta p) = mp_Gamma1 p - mp_Beta p" "wrap32 (mp_Gamma2 p - mp_Beta p) = mp_Gamma2 p - mp_Beta p"
    "mp_Beta p = int (mp_Tau p) * mp_Eta p" "0 < mp_Beta p" "mp_Beta p < mp_Gamma2 p" "mp_Beta p < mp_Gamma1 p" "0 \<le> mp_Eta p"
    "mp_Gamma1 p < 2 ^ 30" "mp_Gamma2 p < 2 ^ 30" "int (mp_Tau p) * 2 ^ 12 < mp_Gamma2 p \<or> mp_Tau p \<le> 60" "0 < mp_w1Bits p" "mp_w1Bits p < 32"
    "\<exists>m. rounding_params p (mp_Gamma2 p) m \<and> m \<le> 2 ^ mp_w1Bits p" "mp_Gamma2 p \<le> 4190208" "mp_Gamma1 p \<le> 4190208"
  using assms
  by (auto simp: standard_params_def MLDSA44_def MLDSA65_def MLDSA87_def newParams_def wrap32_id is_int32_def rounding_params_def)

lemma challenge_product_small:
  assumes "standard_params p" "sampleInBall p X cTilde = Returns c" "signed_poly (mp_Eta p) (mp_Eta p) s" "j < ring_n"
  shows "\<bar>centered (invNTT (mulHat (ntt s) (ntt c)) ! j)\<bar> \<le> mp_Beta p"
proof -
  note cs = sampleInBall_spec [OF assms(1,2)] and sr = standard_ranges [OF assms(1)]
  have s: "canonical_poly s" using assms(3) by (simp add: signed_poly_def)
  have b: "\<bar>centered (s ! i)\<bar> \<le> mp_Eta p" if "i < ring_n" for i
  proof -
    have "s ! i \<in> set s" using that s by (simp add: canonical_poly_def)
    then have "- mp_Eta p \<le> centered (s ! i)" "centered (s ! i) \<le> mp_Eta p" using assms(3) by (simp_all add: signed_poly_def)
    then show ?thesis by simp
  qed
  have "mulHat (ntt s) (ntt c) = mulHat (ntt c) (ntt s)" by (simp add: mulHat_def mulQ_def mult.commute)
  moreover have "\<bar>centered (invNTT (mulHat (ntt c) (ntt s)) ! j)\<bar> \<le> int (mp_Tau p) * mp_Eta p"
    by (rule ntt_product_small [OF cs(1) s b])
       (use cs(2) sr(3,5,7,14) assms(4) in \<open>simp_all add: one_norm_def\<close>)
  ultimately show ?thesis using sr(3) by simp
qed

lemma highBits_width:
  assumes "standard_params p" "canonical_vec (mp_K p) w"
  shows "\<exists>enc. w1Encode p (highBitsVec p w) = Returns enc"
proof -
  note sr = standard_ranges [OF assms(1)]
  obtain m where m: "rounding_params p (mp_Gamma2 p) m" "m \<le> 2 ^ mp_w1Bits p" using sr(13) by blast
  have "width_poly (mp_w1Bits p) v" if "v \<in> set (highBitsVec p w)" for v
  proof -
    have "0 \<le> highBits p x \<and> highBits p x < 2 ^ mp_w1Bits p" if "canonical x" for x
      using decompose_spec [OF m(1) that prod.collapse [symmetric]] m(2) by (auto simp: nearest_def highBits_def)
    then show ?thesis using that assms(2) by (auto simp: highBitsVec_def width_poly_def canonical_vec_def canonical_poly_def)
  qed
  moreover have "length (highBitsVec p w) = mp_K p" using assms(2) by (simp add: highBitsVec_def canonical_vec_def)
  ultimately show ?thesis using w1Encode_eq [OF sr(11,12)] by blast
qed

lemma lowBits_canon:
  assumes "standard_params p" "canonical r"
  shows "canonical (canon (lowBits p r)) \<and> centered (canon (lowBits p r)) = lowBits p r"
proof -
  note sr = standard_ranges [OF assms(1)]
  obtain m where m: "rounding_params p (mp_Gamma2 p) m" using sr(13) by blast
  have "\<bar>lowBits p r\<bar> \<le> mp_Gamma2 p"
    using decompose_spec [OF m assms(2) prod.collapse [symmetric]] by (auto simp: nearest_def lowBits_def)
  then show ?thesis using short_canon sr(14) by simp
qed

lemma lowBitsVec_canonical: "standard_params p \<Longrightarrow> canonical_vec c v \<Longrightarrow> canonical_vec c (lowBitsVec p v)"
  using lowBits_canon by (auto simp: canonical_vec_def canonical_poly_def lowBitsVec_def)

lemma hint_recovers:
  assumes "standard_params p" "canonical r" "canonical w2" "canonical ct" "\<bar>centered w2\<bar> \<le> mp_Beta p"
    and "\<bar>centered (canon (lowBits p r))\<bar> < mp_Gamma2 p - mp_Beta p" "\<bar>centered ct\<bar> < mp_Gamma2 p" "w = addQ r w2"
  shows "useHint p (makeHint p (subQ 0 ct) (addQ r ct)) (addQ r ct) = highBits p w"
proof -
  note sr = standard_ranges [OF assms(1)]
  obtain m where m: "rounding_params p (mp_Gamma2 p) m" using sr(13) by blast
  have z: "canonical 0" by (simp add: canonical_def)
  have neg: "canonical (subQ 0 ct)" "\<bar>centered (subQ 0 ct)\<bar> < mp_Gamma2 p"
  proof -
    show c: "canonical (subQ 0 ct)" using z assms(4) by simp
    have "subQ 0 ct = (- centered ct) mod modq"
      using zq_canonical [OF c, of "- centered ct"] zq_ops(2) [OF z assms(4)] zq_centered [OF assms(4)] by simp
    moreover have "\<bar>- centered ct\<bar> \<le> 4190208" using assms(7) sr(14) by simp
    ultimately have "centered (subQ 0 ct) = - centered ct" using centered_mod by metis
    then show "\<bar>centered (subQ 0 ct)\<bar> < mp_Gamma2 p" using assms(7) by simp
  qed
  have a: "canonical (addQ r ct)" using assms(2,4) by simp
  have undo: "addQ (addQ r ct) (subQ 0 ct) = r"
  proof -
    have "(of_int (addQ (addQ r ct) (subQ 0 ct)) :: zq) = of_int r"
      using zq_ops(1) [OF a neg(1)] zq_ops(1) [OF assms(2,4)] zq_ops(2) [OF z assms(4)] by simp
    then show ?thesis using zq_inject canonical_ops(1) [OF a neg(1)] assms(2) by blast
  qed
  have low: "centered (canon (lowBits p r)) = lowBits p r" using lowBits_canon [OF assms(1,2)] by simp
  have "useHint p (makeHint p (subQ 0 ct) (addQ r ct)) (addQ r ct) = highBits p r"
    using useHint_makeHint [OF m a neg] undo by simp
  also have "\<dots> = highBits p w"
    using highBits_stable [OF m assms(2,3)] assms(5,6,8) low by simp
  finally show ?thesis .
qed

lemma not_norm:
  assumes "canonical_vec c v" "\<not> vec_normExceeds v bound" "0 \<le> bound" "bound < 2 ^ 30" "i < c" "j < ring_n"
  shows "\<bar>centered (v ! i ! j)\<bar> < bound"
proof -
  have "v ! i \<in> set v" "v ! i ! j \<in> set (v ! i)" using assms(1,5,6) by (simp_all add: canonical_vec_def canonical_poly_def)
  then show ?thesis using assms(2) unfolding vec_normExceeds_iff [OF assms(1,3,4)] by (meson not_le)
qed

lemma response_bounded:
  assumes "canonical_vec (mp_L p) z" "\<And>i j. i < mp_L p \<Longrightarrow> j < ring_n \<Longrightarrow> \<bar>centered (z ! i ! j)\<bar> < mp_Gamma1 p"
  shows "response_vec p z"
proof -
  have "- (mp_Gamma1 p - 1) \<le> centered x \<and> centered x \<le> mp_Gamma1 p" if w: "w \<in> set z" and x: "x \<in> set w" for w x
  proof -
    obtain i where i: "i < mp_L p" "w = z ! i" 
      using w canonical_vec_length [OF assms(1)] unfolding in_set_conv_nth by auto
    then obtain j where "j < ring_n" "x = z ! i ! j" using x canonical_vec_nth [OF assms(1) i(1)] by (auto simp: in_set_conv_nth canonical_poly_def)
    then have "\<bar>centered x\<bar> < mp_Gamma1 p" using assms(2) [OF i(1)] by simp
    then show ?thesis by (simp add: abs_less_iff)
  qed
  then show ?thesis using assms(1) by (auto simp: response_vec_def signed_poly_def canonical_vec_def)
qed

lemma hint_vec_spec:
  "length (hint_vec p r ct0) = mp_K p" "\<forall>h \<in> set (hint_vec p r ct0). hint_poly h"
  by (auto simp: hint_vec_def hint_poly_def makeHint_def)

lemma weight_sum: "\<forall>r \<in> set h. hint_poly r \<Longrightarrow> int (weight h) = sum_list (concat h)"
proof -
  have "int (length (positions_from j r)) = sum_list r" if "set r \<subseteq> {0, 1}" for j and r :: poly
    using that by (induction r arbitrary: j) auto
  then show "\<forall>r \<in> set h. hint_poly r \<Longrightarrow> int (weight h) = sum_list (concat h)"
    by (induction h) (simp_all add: hint_poly_def)
qed

lemma sigEncode_response:
  assumes p: "standard_params p" and zc: "canonical_vec (mp_L p) z" and nz: "\<not> vec_normExceeds z (wrap32 (mp_Gamma1 p - mp_Beta p))"
    and om: "sum_list (concat (hint_vec p r ct0)) \<le> int (mp_Omega p)" and cT: "length cTilde = mp_Lambda p div 4"
  shows "\<exists>sig. sigEncode p cTilde z (hint_vec p r ct0) = Returns sig \<and> length sig = mp_SignatureSize p
    \<and> sigDecode p sig = Returns (cTilde, z, Some (hint_vec p r ct0))"
proof -
  note sr = standard_ranges [OF p]
  have "\<bar>centered (z ! i ! j)\<bar> < mp_Gamma1 p - mp_Beta p" if "i < mp_L p" "j < ring_n" for i j
    using not_norm [OF zc nz [unfolded sr(1)] _ _ that] sr(4,6,8) by simp
  then have resp: "response_vec p z" using response_bounded [OF zc] sr(4) by fastforce
  have "weight (hint_vec p r ct0) \<le> mp_Omega p" using weight_sum [OF hint_vec_spec(2), of p r ct0] om by simp
  then show ?thesis by (rule sigEncode_roundtrip [OF p cT resp hint_vec_spec])
qed

text \<open>What a signing round that produces a signature went through.\<close>

lemma attempt_cases:
  assumes "sign_attempt p X a s1Hat s2Hat t0Hat rhoPP mu kappa = Returns (Some sig)"
  obtains y w enc cTilde c z r ct0 where "expandMask p X rhoPP kappa = Returns y" "w = vec_invNTT (mulMatVecHat a (vec_ntt y))"
    "w1Encode p (highBitsVec p w) = Returns enc" "cTilde = shake256 X (mp_Lambda p div 4) [mu, enc]" "sampleInBall p X cTilde = Returns c"
    "z = vec_add y (vec_invNTT (vecMulHat s1Hat (ntt c)))" "r = vec_sub w (vec_invNTT (vecMulHat s2Hat (ntt c)))"
    "\<not> vec_normExceeds z (wrap32 (mp_Gamma1 p - mp_Beta p))" "\<not> vec_normExceeds (lowBitsVec p r) (wrap32 (mp_Gamma2 p - mp_Beta p))"
    "ct0 = vec_invNTT (vecMulHat t0Hat (ntt c))" "\<not> vec_normExceeds ct0 (mp_Gamma2 p)"
    "sum_list (concat (hint_vec p r ct0)) \<le> int (mp_Omega p)" "sigEncode p cTilde z (hint_vec p r ct0) = Returns sig"
  using assms unfolding sign_attempt_def Let_def bind_outcome_Returns by (auto simp: bind_outcome_Returns not_less split: if_splits)

definition key_pair :: "mldsa_params \<Rightarrow> xof \<Rightarrow> bytes \<Rightarrow> bytes \<Rightarrow> bytes \<Rightarrow> bytes \<Rightarrow> vec list \<Rightarrow> vec \<Rightarrow> vec \<Rightarrow> vec \<Rightarrow> vec \<Rightarrow> bool" where
  "key_pair p X pk sk rho key a s1 s2 t1 t0 \<longleftrightarrow>
     expandA p X rho = Returns a \<and> secret_vec p (mp_L p) s1 \<and> secret_vec p (mp_K p) s2
     \<and> round_t (vec_add (vec_invNTT (mulMatVecHat a (vec_ntt s1))) s2) = (t1, t0)
     \<and> length pk = mp_PublicKeySize p \<and> pkDecode p pk = Returns (rho, t1)
     \<and> length sk = mp_PrivateKeySize p \<and> skDecode p sk = Returns (rho, key, shake256 X 64 [pk], s1, s2, t0)"

lemma secret_canonical: "secret_vec p c s \<Longrightarrow> canonical_vec c s"
  by (auto simp: secret_vec_def canonical_vec_def signed_poly_def)

lemma key_pair_canonical:
  assumes "key_pair p X pk sk rho key a s1 s2 t1 t0"
  shows "canonical_matrix (mp_K p) (mp_L p) a" "canonical_vec (mp_L p) s1" "canonical_vec (mp_K p) s2" "canonical_vec (mp_K p) t0"
proof -
  note kp = assms [unfolded key_pair_def]
  show a: "canonical_matrix (mp_K p) (mp_L p) a" using kp expandA_matrix by blast
  show sc: "canonical_vec (mp_L p) s1" "canonical_vec (mp_K p) s2" using kp secret_canonical by blast+
  have "canonical_vec (mp_K p) (vec_add (vec_invNTT (mulMatVecHat a (vec_ntt s1))) s2)"
    by (intro canonical_vec_ops(3) canonical_vec_ops(2) mulMatVecHat_spec(1) [OF a] canonical_vec_ops(1) sc)
  then show "canonical_vec (mp_K p) t0" using round_t_spec(3) kp by blast
qed

lemma KeyGen_pair:
  assumes "standard_params p" "KeyGen p X xi = Returns (Inr (pk, sk))"
  shows "\<exists>rho key a s1 s2 t1 t0. key_pair p X pk sk rho key a s1 s2 t1 t0"
proof -
  define ext where "ext = shake256 X 128 [xi, [word_of_nat (mp_K p), word_of_nat (mp_L p)]]"
  define rho where "rho = take 32 ext"
  define key where "key = take 32 (drop 96 ext)"
  have len: "length rho = 32" "length key = 32" by (simp_all add: rho_def key_def ext_def)
  define T where "T = (\<lambda>a s1 s2. round_t (vec_add (vec_invNTT (mulMatVecHat a (vec_ntt s1))) s2))"
  obtain a s1 s2 where a: "expandA p X rho = Returns a" and s: "expandS p X (take 64 (drop 32 ext)) = Returns (s1, s2)"
    and pk: "pkEncode p rho (fst (T a s1 s2)) = Returns pk"
    and sk: "skEncode p rho key (shake256 X 64 [pk]) s1 s2 (snd (T a s1 s2)) = Returns sk"
    using assms(2) unfolding KeyGen_def Let_def rho_def key_def ext_def T_def
    by (auto simp: bind_outcome_Returns case_prod_beta split: if_split_asm)
  obtain t1 t0 where t: "round_t (vec_add (vec_invNTT (mulMatVecHat a (vec_ntt s1))) s2) = (t1, t0)" by fastforce
  have pk: "pkEncode p rho t1 = Returns pk" and sk: "skEncode p rho key (shake256 X 64 [pk]) s1 s2 t0 = Returns sk"
    using pk sk by (simp_all add: T_def t)
  note sv = expandS_short [OF s]
  have "canonical_vec (mp_K p) (vec_add (vec_invNTT (mulMatVecHat a (vec_ntt s1))) s2)"
    using mulMatVecHat_spec(1) [OF expandA_matrix [OF a]] canonical_vec_ops secret_canonical [OF sv(1)] secret_canonical [OF sv(2)] by simp
  note rt = round_t_spec [OF this t]
  have "rest_vec p t0" using rt(3,4) by (simp add: rest_vec_def canonical_vec_def)
  then obtain sk' where "skEncode p rho key (shake256 X 64 [pk]) s1 s2 t0 = Returns sk'" "length sk' = mp_PrivateKeySize p"
    "skDecode p sk' = Returns (rho, key, shake256 X 64 [pk], s1, s2, t0)"
    using skEncode_roundtrip [OF assms(1) len length_shake256 [of X 64 "[pk]"] sv] by blast
  moreover obtain pk' where "pkEncode p rho t1 = Returns pk'" "length pk' = mp_PublicKeySize p" "pkDecode p pk' = Returns (rho, t1)"
    using pkEncode_roundtrip [OF assms(1) len(1) rt(1,2)] by blast
  ultimately have "key_pair p X pk sk rho key a s1 s2 t1 t0" using a sv t pk sk by (simp add: key_pair_def)
  then show ?thesis by blast
qed

lemma sub_add: "canonical w \<Longrightarrow> canonical c \<Longrightarrow> r = subQ w c \<Longrightarrow> w = addQ r c"
proof -
  assume c: "canonical w" "canonical c" "r = subQ w c"
  then have "(of_int (addQ r c) :: zq) = of_int w" using zq_ops(1) [of r c] zq_ops(2) [of w c] by simp
  then show ?thesis using zq_inject [of "addQ r c" w] c by simp
qed

lemma vec_eqI:
  assumes "canonical_vec c w" "\<And>i j. i < c \<Longrightarrow> j < ring_n \<Longrightarrow> f i j = highBits p (w ! i ! j)"
  shows "map (\<lambda>i. map (f i) [0..<ring_n]) [0..<c] = highBitsVec p w"
proof -
  have "map (f i) [0..<ring_n] = map (highBits p) (w ! i)" if "i < c" for i
    using canonical_vec_nth [OF assms(1) that] assms(2) [OF that] by (intro nth_equalityI) (simp_all add: canonical_poly_def)
  then show ?thesis using canonical_vec_length [OF assms(1)] by (intro nth_equalityI) (simp_all add: highBitsVec_def)
qed

text \<open>The high bits that the verifier recovers with the hint are those of the commitment.\<close>

lemma verifier_recovers:
  assumes p: "standard_params p" and k: "key_pair p X pk sk rho key a s1 s2 t1 t0" and yc: "canonical_vec (mp_L p) y"
    and c: "sampleInBall p X cTilde = Returns c" and w: "w = vec_invNTT (mulMatVecHat a (vec_ntt y))"
    and z: "z = vec_add y (vec_invNTT (vecMulHat (vec_ntt s1) (ntt c)))" and r: "r = vec_sub w (vec_invNTT (vecMulHat (vec_ntt s2) (ntt c)))"
    and nr: "\<not> vec_normExceeds (lowBitsVec p r) (wrap32 (mp_Gamma2 p - mp_Beta p))"
    and ct0: "ct0 = vec_invNTT (vecMulHat (vec_ntt t0) (ntt c))" and nt: "\<not> vec_normExceeds ct0 (mp_Gamma2 p)"
    and i: "i < mp_K p" and j: "j < ring_n"
  shows "useHint p (hint_vec p r ct0 ! i ! j)
      (vec_invNTT (vec_sub (mulMatVecHat a (vec_ntt z)) (vecMulHat (vec_ntt (scaleD2 t1)) (ntt c))) ! i ! j) = highBits p (w ! i ! j)"
    (is "useHint p _ (?wA ! i ! j) = _")
proof -
  note sr = standard_ranges [OF p] and kp = k [unfolded key_pair_def] and cv = canonical_vec_ops and hc = ntt_zqp(1) [OF sampleInBall_spec(1) [OF p c]]
  note kc = key_pair_canonical [OF k]
  note a = kc(1) and sc = kc(2,3)
  have wc: "canonical_vec (mp_K p) w" unfolding w by (intro cv(2) mulMatVecHat_spec(1) [OF a] cv(1) yc)
  have rc: "canonical_vec (mp_K p) r" unfolding r by (intro cv(4) wc cv(2) cv(5) cv(1) sc hc)
  have ct0c: "canonical_vec (mp_K p) ct0" unfolding ct0 by (intro cv(2) cv(5) cv(1) kc(4) hc)
  have wA: "?wA ! i = poly_add (r ! i) (ct0 ! i)"
    unfolding ct0 by (rule wApprox_eq [OF a yc sc sampleInBall_spec(1) [OF p c] i refl]) (use kp z r w in auto)
  let ?c2 = "invNTT (mulHat (ntt (s2 ! i)) (ntt c)) ! j"
  have "vec_invNTT (vecMulHat (vec_ntt s2) (ntt c)) ! i = invNTT (mulHat (ntt (s2 ! i)) (ntt c))"
    using cv sc(2) hc i by (simp add: vec_nth [where c = "mp_K p"])
  then have "r ! i ! j = subQ (w ! i ! j) ?c2" using vec_nth(4) [OF wc i] j by (simp add: r poly_sub_def)
  moreover have cc: "canonical (r ! i ! j)" "canonical (w ! i ! j)" "canonical (ct0 ! i ! j)"
    using canonical_vec_nth [OF _ i] canonical_poly_nth [OF _ j] rc wc ct0c by blast+
  moreover have s2: "signed_poly (mp_Eta p) (mp_Eta p) (s2 ! i)" using kp i by (simp add: secret_vec_def)
  moreover have c2: "canonical ?c2"
    using hat_scaled(1) [OF canonical_vec_nth [OF sc(2) i] sampleInBall_spec(1) [OF p c]] canonical_poly_nth [OF _ j] by blast
  ultimately have wr: "w ! i ! j = addQ (r ! i ! j) ?c2" using sub_add by metis
  have "lowBitsVec p r ! i ! j = canon (lowBits p (r ! i ! j))"
    using i j canonical_vec_length [OF rc] canonical_vec_nth [OF rc i] by (simp add: lowBitsVec_def canonical_poly_def)
  then have low: "\<bar>centered (canon (lowBits p (r ! i ! j)))\<bar> < mp_Gamma2 p - mp_Beta p"
    using not_norm [OF lowBitsVec_canonical [OF p rc] nr [unfolded sr(2)] _ _ i j] sr(4,5,9) by simp
  have ct: "\<bar>centered (ct0 ! i ! j)\<bar> < mp_Gamma2 p" using not_norm [OF ct0c nt _ _ i j] sr(4,5,9) by simp
  have "hint_vec p r ct0 ! i ! j = makeHint p (subQ 0 (ct0 ! i ! j)) (addQ (r ! i ! j) (ct0 ! i ! j))" using i j by (simp add: hint_vec_def)
  moreover have "?wA ! i ! j = addQ (r ! i ! j) (ct0 ! i ! j)" using j by (simp add: wA poly_add_def)
  ultimately show ?thesis
    using hint_recovers [OF p cc(1) c2 cc(3) challenge_product_small [OF p c s2 j] low ct wr] by simp
qed

lemma attempt_verifies:
  assumes p: "standard_params p" and k: "key_pair p X pk sk rho key a s1 s2 t1 t0"
    and att: "sign_attempt p X a (vec_ntt s1) (vec_ntt s2) (vec_ntt t0) rhoPP mu kappa = Returns (Some sig)"
  shows "length sig = mp_SignatureSize p \<and> verifyMu p X pk mu sig = Returns True"
proof -
  obtain y w enc cTilde c z r ct0 where y: "expandMask p X rhoPP kappa = Returns y" and w: "w = vec_invNTT (mulMatVecHat a (vec_ntt y))"
    and enc: "w1Encode p (highBitsVec p w) = Returns enc" and cT: "cTilde = shake256 X (mp_Lambda p div 4) [mu, enc]"
    and c: "sampleInBall p X cTilde = Returns c"
    and z: "z = vec_add y (vec_invNTT (vecMulHat (vec_ntt s1) (ntt c)))" and r: "r = vec_sub w (vec_invNTT (vecMulHat (vec_ntt s2) (ntt c)))"
    and nz: "\<not> vec_normExceeds z (wrap32 (mp_Gamma1 p - mp_Beta p))" and nr: "\<not> vec_normExceeds (lowBitsVec p r) (wrap32 (mp_Gamma2 p - mp_Beta p))"
    and ct0: "ct0 = vec_invNTT (vecMulHat (vec_ntt t0) (ntt c))" and nt: "\<not> vec_normExceeds ct0 (mp_Gamma2 p)"
    and om: "sum_list (concat (hint_vec p r ct0)) \<le> int (mp_Omega p)" and sig: "sigEncode p cTilde z (hint_vec p r ct0) = Returns sig"
    using att by (rule attempt_cases)
  note sr = standard_ranges [OF p] and kp = k [unfolded key_pair_def] and cv = canonical_vec_ops and hc = ntt_zqp(1) [OF sampleInBall_spec(1) [OF p c]]
  note kc = key_pair_canonical [OF k]
  have yc: "canonical_vec (mp_L p) y" using expandMask_returns [OF p, of X rhoPP kappa] y by (auto simp: canonical_vec_def)
  have wc: "canonical_vec (mp_K p) w" unfolding w by (intro cv(2) mulMatVecHat_spec(1) [OF kc(1)] cv(1) yc)
  have zc: "canonical_vec (mp_L p) z" unfolding z by (intro cv(3) cv(2) cv(5) cv(1) yc kc hc)
  have "\<exists>sig. sigEncode p cTilde z (hint_vec p r ct0) = Returns sig \<and> length sig = mp_SignatureSize p
      \<and> sigDecode p sig = Returns (cTilde, z, Some (hint_vec p r ct0))"
    by (rule sigEncode_response [OF p zc nz om]) (simp add: cT)
  then have dec: "length sig = mp_SignatureSize p" "sigDecode p sig = Returns (cTilde, z, Some (hint_vec p r ct0))" using sig by auto
  note w1 = vec_eqI [OF wc verifier_recovers [OF p k yc c w z r nr ct0 nt]]
  have "verifyMu p X pk mu sig = Returns True"
    unfolding verifyMu_def Let_def using kp dec nz c w1 enc cT by simp
  then show ?thesis using dec by simp
qed

section \<open>The signing loop\<close>

definition attempt_result :: "bytes option outcome \<Rightarrow> bytes outcome" where
  "attempt_result r = bind_outcome r (\<lambda>s. case s of None \<Rightarrow> Loops | Some sig \<Rightarrow> Returns sig)"

lemma sign_loop_reaches:
  assumes "\<forall>i < m. attempt (kappa + i * l) = Returns None" "attempt (kappa + m * l) \<noteq> Returns None"
  shows "sign_loop attempt l kappa = Some (attempt_result (attempt (kappa + m * l)))"
  using assms
proof (induction m arbitrary: kappa)
  case 0
  then show ?case by (subst sign_loop.simps) (auto simp: attempt_result_def split: outcome.splits option.splits)
next
  case (Suc m)
  have "attempt kappa = Returns None" using Suc.prems(1) by force
  moreover have "attempt (kappa + l + i * l) = Returns None" if "i < m" for i
    using Suc.prems(1) [rule_format, of "Suc i"] that by (simp add: add.assoc)
  ultimately show ?case using Suc.IH [of "kappa + l"] Suc.prems(2) by (subst sign_loop.simps) (simp add: add.assoc)
qed

lemma sign_loop_Some:
  "sign_loop attempt l kappa = Some r \<Longrightarrow>
   \<exists>m. (\<forall>i < m. attempt (kappa + i * l) = Returns None) \<and> attempt (kappa + m * l) \<noteq> Returns None \<and> r = attempt_result (attempt (kappa + m * l))"
proof (induction rule: sign_loop.raw_induct [rotated, consumes 1])
  case (1 sign_loop attempt l kappa r)
  show ?case
  proof (cases "attempt kappa = Returns None")
    case True
    then have "sign_loop attempt l (kappa + l) = Some r" using 1(2) by simp
    from 1(1) [OF this] obtain m where m: "\<forall>i < m. attempt (kappa + l + i * l) = Returns None" "attempt (kappa + l + m * l) \<noteq> Returns None"
      "r = attempt_result (attempt (kappa + l + m * l))" by blast
    have "attempt (kappa + i * l) = Returns None" if "i < Suc m" for i
      using that m(1) True by (cases i) (auto simp: add.assoc)
    then show ?thesis using m(2,3) by (intro exI [of _ "Suc m"]) (simp add: add.assoc)
  next
    case False
    then show ?thesis using 1(2)
      by (intro exI [of _ 0]) (auto simp: attempt_result_def split: outcome.splits option.splits)
  qed
qed

lemma sign_attempt_no_panic:
  assumes p: "standard_params p" and a: "canonical_matrix (mp_K p) (mp_L p) a"
    and s: "canonical_vec (mp_L p) s1" "canonical_vec (mp_K p) s2" "canonical_vec (mp_K p) t0"
  shows "sign_attempt p X a (vec_ntt s1) (vec_ntt s2) (vec_ntt t0) rhoPP mu kappa \<noteq> Panic"
proof
  assume panic: "sign_attempt p X a (vec_ntt s1) (vec_ntt s2) (vec_ntt t0) rhoPP mu kappa = Panic"
  note cv = canonical_vec_ops
  obtain y where y: "expandMask p X rhoPP kappa = Returns y" and yc: "canonical_vec (mp_L p) y"
    using expandMask_returns [OF p, of X rhoPP kappa] by (auto simp: canonical_vec_def)
  define w where "w = vec_invNTT (mulMatVecHat a (vec_ntt y))"
  have wc: "canonical_vec (mp_K p) w" unfolding w_def by (intro cv(2) mulMatVecHat_spec(1) [OF a] cv(1) yc)
  obtain enc where enc: "w1Encode p (highBitsVec p w) = Returns enc" using highBits_width [OF p wc] by blast
  define cTilde where "cTilde = shake256 X (mp_Lambda p div 4) [mu, enc]"
  have "sampleInBall p X cTilde \<noteq> Panic" by (simp add: sampleInBall_def Let_def)
  moreover have "sampleInBall p X cTilde \<noteq> Loops" using panic y enc unfolding sign_attempt_def Let_def by (auto simp: w_def cTilde_def)
  ultimately obtain c where c: "sampleInBall p X cTilde = Returns c" by (cases "sampleInBall p X cTilde") auto
  note hc = ntt_zqp(1) [OF sampleInBall_spec(1) [OF p c]] and sr = standard_ranges [OF p]
  define z where "z = vec_add y (vec_invNTT (vecMulHat (vec_ntt s1) (ntt c)))"
  have zc: "canonical_vec (mp_L p) z" unfolding z_def by (intro cv(3) cv(2) cv(5) cv(1) yc s hc)
  have "\<exists>sig. sigEncode p cTilde z (hint_vec p r ct0) = Returns sig"
    if "\<not> vec_normExceeds z (wrap32 (mp_Gamma1 p - mp_Beta p))" "\<not> sum_list (concat (hint_vec p r ct0)) > int (mp_Omega p)" for r ct0
    using sigEncode_response [OF p zc that(1), of r ct0 cTilde] that(2) by (auto simp: cTilde_def)
  then show False using panic y enc c unfolding sign_attempt_def Let_def
    by (fastforce simp: w_def [symmetric] cTilde_def [symmetric] z_def [symmetric] split: if_split_asm)
qed

lemma signMu_eq:
  assumes "skDecode p sk = Returns (rho, key, tr, s1, s2, t0)" "expandA p X rho = Returns a"
  shows "signMu p X sk mu rnd =
    (case sign_loop (sign_attempt p X a (vec_ntt s1) (vec_ntt s2) (vec_ntt t0) (shake256 X 64 [key, rnd, mu]) mu) (mp_L p) 0 of
       None \<Rightarrow> Loops | Some r \<Rightarrow> r)"
  by (simp add: signMu_def assms)

lemma key_pair_tr:
  assumes "standard_params p" "key_pair p X pk sk rho key a s1 s2 t1 t0"
  shows "take 64 (drop 64 sk) = shake256 X 64 [pk]"
  using skDecode_returns [OF assms(1), of sk] assms(2) by (auto simp: key_pair_def)

lemma signMu_verifies:
  assumes "standard_params p" "key_pair p X pk sk rho key a s1 s2 t1 t0" "signMu p X sk mu rnd = Returns sig"
  shows "length sig = mp_SignatureSize p \<and> verifyMu p X pk mu sig = Returns True"
proof -
  let ?att = "sign_attempt p X a (vec_ntt s1) (vec_ntt s2) (vec_ntt t0) (shake256 X 64 [key, rnd, mu]) mu"
  note kp = assms(2) [unfolded key_pair_def]
  have "sign_loop ?att (mp_L p) 0 = Some (Returns sig)"
    using assms(3) signMu_eq [of p sk rho key _ s1 s2 t0 X a mu rnd] kp by (auto split: option.splits)
  from sign_loop_Some [OF this] obtain m where "?att (m * mp_L p) = Returns (Some sig)"
    by (auto simp: attempt_result_def bind_outcome_Returns dest!: sym [of "Returns sig"] split: option.splits)
  then show ?thesis by (rule attempt_verifies [OF assms(1,2)])
qed

text \<open>
  C9: A signature verifies. For each of the three parameter sets, every seed, message, context, randomness and all behaviour of the two hash
  functions: if key generation returns a key pair, then whatever \<^verbatim>\<open>Sign\<close> returns with the private key is accepted by
  \<^verbatim>\<open>Verify\<close> with the public key; the same for the pre-hash variant and for signing an external message representative.
\<close>

theorem mldsa_sign_verify:
  assumes "standard_params p" and "KeyGen p X xi = Returns (Inr (pk, sk))"
  shows "(mldsa_Sign p X sk msg ctx rnd = Returns (Inr sig) \<longrightarrow> mldsa_Verify p X pk msg sig ctx = Returns True)
    \<and> (SignPreHash p X sk msg ctx ph rnd = Returns (Inr sig) \<longrightarrow> VerifyPreHash p X pk msg sig ctx ph = Returns True)
    \<and> (SignMu p X sk mu rnd = Returns (Inr sig) \<longrightarrow> VerifyMu p X pk mu sig = Returns True)"
proof -
  obtain rho key a s1 s2 t1 t0 where k: "key_pair p X pk sk rho key a s1 s2 t1 t0" using KeyGen_pair [OF assms] by blast
  note v = signMu_verifies [OF assms(1) k] and pk = k [unfolded key_pair_def]
  have "VerifyInternal p X pk m sig = Returns True" if "SignInternal p X sk m rnd = Returns (Inr sig)" for m
    using that v key_pair_tr [OF assms(1) k] pk by (auto simp: SignInternal_def VerifyInternal_def bind_outcome_Returns split: if_splits)
  moreover have "SignMu p X sk mu rnd = Returns (Inr sig) \<longrightarrow> VerifyMu p X pk mu sig = Returns True"
    using v pk by (auto simp: SignMu_def VerifyMu_def bind_outcome_Returns split: if_splits)
  ultimately show ?thesis
    by (auto simp: mldsa_Sign_def mldsa_Verify_def SignPreHash_def VerifyPreHash_def split: sum.splits)
qed

text \<open>
  C10: When signing ends. For every private key of the right size whose public matrix can be sampled, signing never panics; it returns a
  signature if and only if some round of the rejection loop accepts and no round before it fails to return, and then it returns the signature of
  the first round that accepts; and if every round rejects, it does not return.
\<close>

theorem mldsa_signing_terminates:
  assumes "standard_params p" and "length sk = mp_PrivateKeySize p" and "skDecode p sk = Returns (rho, key, tr, s1, s2, t0)"
    and "expandA p X rho = Returns a"
    and "attempt = (\<lambda>m. sign_attempt p X a (vec_ntt s1) (vec_ntt s2) (vec_ntt t0) (shake256 X 64 [key, rnd, mu]) mu (m * mp_L p))"
  shows "signMu p X sk mu rnd \<noteq> Panic
    \<and> (signMu p X sk mu rnd = Returns sig \<longleftrightarrow> (\<exists>m. (\<forall>i < m. attempt i = Returns None) \<and> attempt m = Returns (Some sig)))
    \<and> ((\<forall>m. attempt m = Returns None) \<longrightarrow> signMu p X sk mu rnd = Loops)"
proof -
  let ?att = "sign_attempt p X a (vec_ntt s1) (vec_ntt s2) (vec_ntt t0) (shake256 X 64 [key, rnd, mu]) mu"
  have att: "attempt m = ?att (m * mp_L p)" for m by (simp add: assms(5))
  note eq = signMu_eq [OF assms(3,4), of mu rnd]
  have "canonical_vec (mp_L p) s1" "canonical_vec (mp_K p) s2" "canonical_vec (mp_K p) t0"
    using skDecode_returns [OF assms(1,2)] assms(3) by (auto simp: canonical_vec_def)
  then have np: "?att n \<noteq> Panic" for n by (rule sign_attempt_no_panic [OF assms(1) expandA_matrix [OF assms(4)]])
  have some: "\<exists>m. (\<forall>i < m. attempt i = Returns None) \<and> attempt m \<noteq> Returns None \<and> r = attempt_result (attempt m)"
    if "sign_loop ?att (mp_L p) 0 = Some r" for r
    using sign_loop_Some [OF that] by (simp add: att)
  have reach: "signMu p X sk mu rnd = Returns sig" if "\<forall>i < m. attempt i = Returns None" "attempt m = Returns (Some sig)" for m
    using sign_loop_reaches [of m ?att 0 "mp_L p"] that eq by (simp add: att attempt_result_def)
  show ?thesis
  proof (intro conjI iffI impI)
    show "signMu p X sk mu rnd \<noteq> Panic"
    proof (cases "sign_loop ?att (mp_L p) 0")
      case (Some r)
      from some [OF this] obtain m where m: "r = attempt_result (attempt m)" by blast
      have "attempt_result x \<noteq> Panic" if "x \<noteq> Panic" for x using that by (cases x) (auto simp: attempt_result_def split: option.splits)
      then show ?thesis using eq Some m np by (simp add: att)
    qed (simp add: eq)
    show "\<exists>m. (\<forall>i < m. attempt i = Returns None) \<and> attempt m = Returns (Some sig)" if "signMu p X sk mu rnd = Returns sig"
    proof -
      have "sign_loop ?att (mp_L p) 0 = Some (Returns sig)" using that eq by (simp split: option.splits)
      from some [OF this] obtain m where "\<forall>i < m. attempt i = Returns None" "Returns sig = attempt_result (attempt m)" by blast
      moreover have "x = Returns (Some sig)" if "Returns sig = attempt_result x" for x
        using that by (cases x) (auto simp: attempt_result_def split: option.splits)
      ultimately show ?thesis by blast
    qed
    show "signMu p X sk mu rnd = Loops" if "\<forall>m. attempt m = Returns None"
      using eq some that by (cases "sign_loop ?att (mp_L p) 0") auto
  qed (use reach in blast)
qed

lemma map_outcome_no_panic: "(\<And>x. f x \<noteq> Panic) \<Longrightarrow> map_outcome f xs \<noteq> Panic"
  by (induction xs) (auto simp: bind_outcome_def split: outcome.splits)

lemma useHint_range:
  assumes "rounding_params p g m" "canonical r"
  shows "0 \<le> useHint p h r \<and> useHint p h r < m"
proof -
  obtain r1 r0 where d: "decompose p r = (r1, r0)" by fastforce
  have n: "0 \<le> r1" "r1 < m" using decompose_spec [OF assms d] by (simp_all add: nearest_def)
  have m: "(modq - 1) sdiv (2 * mp_Gamma2 p) = m" "1 < m" "m \<le> 44" using assms(1) by (auto simp: rounding_params_def sdiv_nonneg)
  have w: "wrap32 (r1 + 1) = r1 + 1" "wrap32 (wrap32 (r1 - 1) + m) = r1 - 1 + m" using n m by (simp_all add: wrap32_id is_int32_def)
  have "useHint p h r = (if h = 0 then r1 else if r0 > 0 then (r1 + 1) smod m else (r1 - 1 + m) smod m)"
    unfolding useHint_def Let_def d m prod.case w by (rule refl)
  then show ?thesis using n m(2) by (simp add: smod_nonneg)
qed

lemma verifyMu_total:
  assumes p: "standard_params p" and len: "length pk = mp_PublicKeySize p" "length sig = mp_SignatureSize p"
  shows "verifyMu p X pk mu sig \<noteq> Panic
    \<and> (expandA p X (take seedB pk) \<noteq> Loops \<longrightarrow> sampleInBall p X (take (mp_Lambda p div 4) sig) \<noteq> Loops \<longrightarrow> (\<exists>b. verifyMu p X pk mu sig = Returns b))"
proof -
  obtain t1 where t1: "pkDecode p pk = Returns (take seedB pk, t1)" "length t1 = mp_K p" "\<forall>w \<in> set t1. width_poly 10 w"
    using pkDecode_returns [OF p len(1)] by blast
  obtain z h where zh: "sigDecode p sig = Returns (take (mp_Lambda p div 4) sig, z, h)" "canonical_vec (mp_L p) z"
    using sigDecode_returns [OF p len(2)] by (auto simp: canonical_vec_def)
  obtain m where m: "rounding_params p (mp_Gamma2 p) m" "m \<le> 2 ^ mp_w1Bits p" using standard_ranges(13) [OF p] by blast
  have t1c: "canonical_vec (mp_K p) (scaleD2 t1)" using t1(2,3)
    by (auto simp: canonical_vec_def canonical_poly_def scaleD2_def width_poly_def canonical_def scale_eq)
  have enc: "\<exists>enc. w1Encode p (map (\<lambda>i. map (\<lambda>j. useHint p (h' ! i ! j) (wA ! i ! j)) [0..<ring_n]) [0..<mp_K p]) = Returns enc"
    if "canonical_vec (mp_K p) wA" for wA h'
  proof -
    have u: "0 \<le> useHint p b (wA ! i ! j) \<and> useHint p b (wA ! i ! j) < 2 ^ mp_w1Bits p" if "i < mp_K p" "j < ring_n" for b i j
      using useHint_range [OF m(1) canonical_poly_nth [OF canonical_vec_nth [OF \<open>canonical_vec (mp_K p) wA\<close> that(1)] that(2)], of b] m(2) by simp
    show ?thesis by (rule exI, rule w1Encode_eq [OF standard_ranges(11,12) [OF p]]) (use u in \<open>auto simp: width_poly_def\<close>)
  qed
  have vc: "canonical_vec (mp_K p) (vec_invNTT (vec_sub (mulMatVecHat a (vec_ntt z)) (vecMulHat (vec_ntt (scaleD2 t1)) (ntt c))))"
    if "expandA p X (take seedB pk) = Returns a" "sampleInBall p X (take (mp_Lambda p div 4) sig) = Returns c" for a c
    by (intro canonical_vec_ops(2,4,5,1) mulMatVecHat_spec(1) [OF expandA_matrix [OF that(1)]] zh(2) t1c ntt_zqp(1) sampleInBall_spec(1) [OF p that(2)])
  have np: "expandA p X rho \<noteq> Panic" for rho
    unfolding expandA_def by (intro map_outcome_no_panic) (simp add: rejNTTPoly_def)
  have nb: "sampleInBall p X cTilde \<noteq> Panic" for cTilde by (simp add: sampleInBall_def Let_def)
  show ?thesis
  proof (cases "h = None \<or> vec_normExceeds z (wrap32 (mp_Gamma1 p - mp_Beta p))")
    case True
    then show ?thesis using t1(1) zh(1) by (auto simp: verifyMu_def split: option.splits)
  next
    case False
    then obtain h' where h': "h = Some h'" "\<not> vec_normExceeds z (wrap32 (mp_Gamma1 p - mp_Beta p))" by auto
    show ?thesis
    proof (cases "expandA p X (take seedB pk)"; cases "sampleInBall p X (take (mp_Lambda p div 4) sig)")
      fix a c assume ac: "expandA p X (take seedB pk) = Returns a" "sampleInBall p X (take (mp_Lambda p div 4) sig) = Returns c"
      from enc [OF vc [OF ac], of h'] show ?thesis using t1(1) zh(1) h' ac by (auto simp: verifyMu_def Let_def)
    qed (use t1(1) zh(1) h' np nb in \<open>auto simp: verifyMu_def\<close>)
  qed
qed

text \<open>
  C36: Verification is total. For each parameter set and public key, message, context and signature of any length, none of the three
  verification functions panics; a key or signature of the wrong size or a context of more than 255 bytes is rejected; and if
  the public matrix and the challenge can be sampled, \<^verbatim>\<open>Verify\<close> returns.
\<close>

theorem mldsa_verify_total:
  assumes "standard_params p"
  shows "mldsa_Verify p X pk msg sig ctx \<noteq> Panic \<and> VerifyPreHash p X pk msg sig ctx ph \<noteq> Panic \<and> VerifyMu p X pk mu sig \<noteq> Panic
    \<and> (length pk \<noteq> mp_PublicKeySize p \<or> length sig \<noteq> mp_SignatureSize p \<or> length ctx > 255 \<longrightarrow> mldsa_Verify p X pk msg sig ctx = Returns False)
    \<and> (expandA p X (take seedB pk) \<noteq> Loops \<longrightarrow> sampleInBall p X (take (mp_Lambda p div 4) sig) \<noteq> Loops \<longrightarrow>
       (\<exists>b. mldsa_Verify p X pk msg sig ctx = Returns b))"
proof -
  have v: "VerifyInternal p X pk m sig \<noteq> Panic"
    "expandA p X (take seedB pk) \<noteq> Loops \<Longrightarrow> sampleInBall p X (take (mp_Lambda p div 4) sig) \<noteq> Loops \<Longrightarrow> \<exists>b. VerifyInternal p X pk m sig = Returns b" for m
    using verifyMu_total [OF assms, of pk sig X] by (auto simp: VerifyInternal_def)
  moreover have "VerifyMu p X pk mu sig \<noteq> Panic" using verifyMu_total [OF assms, of pk sig X] by (auto simp: VerifyMu_def)
  ultimately show ?thesis
    by (auto simp: mldsa_Verify_def VerifyPreHash_def formatMsg_def VerifyInternal_def split: sum.splits)
qed

theorem mldsa_verify_total_witness:
  "mldsa_Verify MLDSA65 \<lparr>x128 = \<lambda>_ _. 0, x256 = \<lambda>_ _. 0\<rparr> [] [] [1, 2, 3] [] = Returns False"
  using mldsa_verify_total [of MLDSA65 "\<lparr>x128 = \<lambda>_ _. 0, x256 = \<lambda>_ _. 0\<rparr>" "[]" "[]" "[1, 2, 3]" "[]"]
  by (simp add: standard_params_def) (simp add: MLDSA65_def newParams_def)

text \<open>
  What is signed determines the message. The formatted message of pure ML-DSA determines message and context; that of the pre-hash variant
  determines the context, which of the twelve approved functions was used, and the digest; and a formatted message of the one
  variant is never one of the other.
\<close>

lemma mldsa_messages_separated:
  assumes "ph \<in> set (PreHashes D X)" and "ph' \<in> set (PreHashes D X)" and "length ctx \<le> 255"
  shows "(formatMsg msg ctx = formatMsg msg' ctx' \<longrightarrow> msg = msg' \<and> ctx = ctx')
    \<and> (formatPreHash ph msg ctx = formatPreHash ph' msg' ctx' \<longrightarrow>
         ctx = ctx' \<and> ph = ph' \<and> map_option (\<lambda>f. f msg) (ph_sum ph) = map_option (\<lambda>f. f msg') (ph_sum ph'))
    \<and> formatMsg msg ctx \<noteq> formatPreHash ph' msg' ctx'"
proof -
  have len: "ctx = ctx' \<and> a = b" if "(word_of_nat (length ctx) :: byte) = word_of_nat (length ctx')" "length ctx' \<le> 255" "ctx @ a = ctx' @ b"
    for a b :: bytes
  proof -
    have "unat (word_of_nat (length ctx) :: byte) = unat (word_of_nat (length ctx') :: byte)" using that(1) by simp
    then have "length ctx = length ctx'" using assms(3) that(2) by (simp add: unat_of_nat)
    then show ?thesis using that(3) by simp
  qed
  have oid: "\<exists>b digest. q = \<lparr>ph_name = ph_name q, ph_oid = oidTail b, ph_sum = Some digest\<rparr>" if "q \<in> set (PreHashes D X)" for q
    using that by (auto simp: PreHashes_def)
  have tail: "length (oidTail b) = 11" for b by (simp add: oidTail_def)
  have "distinct (map ph_oid (PreHashes D X))" by (simp add: PreHashes_def oidTail_def)
  then have distinct: "q = q'" if "q \<in> set (PreHashes D X)" "q' \<in> set (PreHashes D X)" "ph_oid q = ph_oid q'" for q q'
    using that by (auto simp only: distinct_map inj_on_def)
  have m: "formatMsg msg ctx = formatMsg msg' ctx' \<longrightarrow> msg = msg' \<and> ctx = ctx'"
    using len [of msg msg'] assms(3) by (auto simp: formatMsg_def split: if_splits)
  obtain b f where ph: "ph_oid ph = oidTail b" "ph_sum ph = Some f" using oid [OF assms(1)] by (metis PreHash.select_convs(2,3))
  obtain b' f' where ph': "ph_oid ph' = oidTail b'" "ph_sum ph' = Some f'" using oid [OF assms(2)] by (metis PreHash.select_convs(2,3))
  have "ctx = ctx' \<and> ph = ph' \<and> f msg = f' msg'" if "formatPreHash ph msg ctx = formatPreHash ph' msg' ctx'"
  proof -
    have "ctx = ctx' \<and> oidTail b @ f msg = oidTail b' @ f' msg'"
      using that len [of "oidTail b @ f msg" "oidTail b' @ f' msg'"] assms(3) ph ph' by (auto simp: formatPreHash_def split: if_splits)
    then have "ctx = ctx'" "oidTail b = oidTail b'" "f msg = f' msg'" using tail by (simp_all add: append_eq_append_conv)
    then show ?thesis using distinct [OF assms(1,2)] ph ph' by simp
  qed
  moreover have "formatMsg msg ctx \<noteq> formatPreHash ph' msg' ctx'" using ph' assms(3) by (simp add: formatMsg_def formatPreHash_def)
  ultimately show ?thesis using m ph ph' by auto
qed

section \<open>A run\<close>

text \<open>
  A complete run with concrete hash functions, all of whose rounds can be followed: SHAKE128 yields zeros, so that the public matrix is zero, and
  SHAKE256 yields the byte 0x55. The first round of the signing loop accepts.
\<close>

lemma centered_sum:
  assumes "canonical a" "canonical b" "\<bar>centered a\<bar> + \<bar>centered b\<bar> \<le> 4190208"
  shows "\<bar>centered (addQ a b)\<bar> \<le> \<bar>centered a\<bar> + \<bar>centered b\<bar>" "\<bar>centered (subQ a b)\<bar> \<le> \<bar>centered a\<bar> + \<bar>centered b\<bar>"
proof -
  have "addQ a b = (centered a + centered b) mod modq"
    using zq_canonical [OF canonical_ops(1) [OF assms(1,2)], of "centered a + centered b"] zq_ops(1) [OF assms(1,2)] assms(1,2) by simp
  then show "\<bar>centered (addQ a b)\<bar> \<le> \<bar>centered a\<bar> + \<bar>centered b\<bar>" using centered_mod [of "centered a + centered b"] assms(3) by simp
  have "subQ a b = (centered a - centered b) mod modq"
    using zq_canonical [OF canonical_ops(2) [OF assms(1,2)], of "centered a - centered b"] zq_ops(2) [OF assms(1,2)] assms(1,2) by simp
  then show "\<bar>centered (subQ a b)\<bar> \<le> \<bar>centered a\<bar> + \<bar>centered b\<bar>" using centered_mod [of "centered a - centered b"] assms(3) by simp
qed

lemma decompose_small:
  assumes "standard_params p" "canonical r" "\<bar>centered r\<bar> < mp_Gamma2 p"
  shows "highBits p r = 0" "lowBits p r = centered r"
proof -
  note sr = standard_ranges [OF assms(1)]
  obtain m where m: "rounding_params p (mp_Gamma2 p) m" using sr(13) by blast
  have r: "r = centered r mod modq" using zq_canonical [OF assms(2), of "centered r"] assms(2) by simp
  have "nearest (mp_Gamma2 p) m 0 (centered r)" using assms(3) rounding_modulus [OF m] by (auto simp: nearest_def)
  from highBits_unique [OF m this] show h: "highBits p r = 0" using r by simp
  obtain r1 r0 where d: "decompose p r = (r1, r0)" by fastforce
  have "r1 = 0" using h d by (simp add: highBits_def)
  then have "nearest (mp_Gamma2 p) m 0 r0" "r = r0 mod modq" using decompose_spec [OF m assms(2) d] by simp_all
  then have "\<bar>r0\<bar> \<le> 4190208" "r = r0 mod modq" using sr(14) by (auto simp: nearest_def)
  then have "centered r = r0" using centered_mod by metis
  then show "lowBits p r = centered r" using d by (simp add: lowBits_def)
qed

lemma makeHint_small:
  assumes "standard_params p" "canonical r" "canonical ct" "\<bar>centered r\<bar> \<le> b" "\<bar>centered ct\<bar> \<le> b" "3 * b < mp_Gamma2 p"
  shows "makeHint p (subQ 0 ct) (addQ r ct) = 0"
proof -
  note sr = standard_ranges [OF assms(1)]
  have z: "canonical 0" "centered 0 = 0" by (simp_all add: canonical_def centered_eq)
  have a: "canonical (addQ r ct)" "\<bar>centered (addQ r ct)\<bar> \<le> 2 * b"
    using assms(2,3) centered_sum(1) [OF assms(2,3)] assms(4-6) sr(14) by simp_all
  have n: "canonical (subQ 0 ct)" "\<bar>centered (subQ 0 ct)\<bar> \<le> b"
    using z assms(3) centered_sum(2) [OF z(1) assms(3)] assms(4-6) sr(14) by simp_all
  have "\<bar>centered (addQ (addQ r ct) (subQ 0 ct))\<bar> \<le> 3 * b" using centered_sum(1) [OF a(1) n(1)] a(2) n(2) assms(6) sr(14) by simp
  then have "highBits p (addQ (addQ r ct) (subQ 0 ct)) = 0" "highBits p (addQ r ct) = 0"
    using decompose_small(1) [OF assms(1)] a n assms(4,6) by simp_all
  then show ?thesis by (simp add: makeHint_def)
qed

lemma sum_list_zero: "(\<And>x. x \<in> set xs \<Longrightarrow> x = 0) \<Longrightarrow> sum_list xs = (0 :: int)"
  by (induction xs) auto

lemma norm_within:
  assumes "canonical_vec c v" "\<And>i j. i < c \<Longrightarrow> j < ring_n \<Longrightarrow> \<bar>centered (v ! i ! j)\<bar> < bound" "0 \<le> bound" "bound < 2 ^ 30"
  shows "\<not> vec_normExceeds v bound"
proof -
  have "\<not> bound \<le> \<bar>centered x\<bar>" if "w \<in> set v" "x \<in> set w" for w x
  proof -
    from that(1) obtain i where i: "i < c" "w = v ! i" using canonical_vec_length [OF assms(1)] unfolding in_set_conv_nth by auto
    obtain j where "j < ring_n" "x = v ! i ! j"
      using \<open>x \<in> set w\<close> i canonical_vec_nth [OF assms(1) i(1)] unfolding in_set_conv_nth canonical_poly_def by auto
    then show ?thesis using assms(2) [OF i(1)] by fastforce
  qed
  then show ?thesis unfolding vec_normExceeds_iff [OF assms(1,3,4)] by blast
qed

lemma challenge_vec_small:
  assumes "standard_params p" "sampleInBall p X cTilde = Returns c" "secret_vec p k s" "i < k" "j < ring_n"
  shows "canonical (vec_invNTT (vecMulHat (vec_ntt s) (ntt c)) ! i ! j)" "\<bar>centered (vec_invNTT (vecMulHat (vec_ntt s) (ntt c)) ! i ! j)\<bar> \<le> mp_Beta p"
proof -
  have s: "canonical_vec k s" "signed_poly (mp_Eta p) (mp_Eta p) (s ! i)" using assms(3,4) secret_canonical by (auto simp: secret_vec_def)
  note hc = ntt_zqp(1) [OF sampleInBall_spec(1) [OF assms(1,2)]]
  have e: "vec_invNTT (vecMulHat (vec_ntt s) (ntt c)) ! i = invNTT (mulHat (ntt (s ! i)) (ntt c))"
    using canonical_vec_ops s(1) hc assms(4) by (simp add: vec_nth [where c = k])
  show "canonical (vec_invNTT (vecMulHat (vec_ntt s) (ntt c)) ! i ! j)" unfolding e
    by (rule canonical_poly_nth [OF hat_scaled(1) [OF canonical_vec_nth [OF s(1) assms(4)] sampleInBall_spec(1) [OF assms(1,2)]] assms(5)])
  show "\<bar>centered (vec_invNTT (vecMulHat (vec_ntt s) (ntt c)) ! i ! j)\<bar> \<le> mp_Beta p" unfolding e
    by (rule challenge_product_small [OF assms(1,2) s(2) assms(5)])
qed

text \<open>A round with a zero commitment and a mask well inside its range accepts, if the dropped bits of the public key are short.\<close>

lemma attempt_accepts:
  assumes p: "standard_params p" "3 * mp_Beta p < mp_Gamma2 p" and y: "expandMask p X rhoPP kappa = Returns y" "canonical_vec (mp_L p) y"
    and yb: "\<And>i j. i < mp_L p \<Longrightarrow> j < ring_n \<Longrightarrow> \<bar>centered (y ! i ! j)\<bar> + 2 * mp_Beta p < mp_Gamma1 p"
    and w: "vec_invNTT (mulMatVecHat a (vec_ntt y)) = replicate (mp_K p) zero_poly"
    and s: "secret_vec p (mp_L p) s1" "secret_vec p (mp_K p) s2" "secret_vec p (mp_K p) t0"
    and ball: "\<And>cT. \<exists>c. sampleInBall p X cT = Returns c"
  shows "\<exists>sig. sign_attempt p X a (vec_ntt s1) (vec_ntt s2) (vec_ntt t0) rhoPP mu kappa = Returns (Some sig)"
proof -
  note sr = standard_ranges [OF p(1)] and cv = canonical_vec_ops
  let ?w = "replicate (mp_K p) zero_poly"
  have wc: "canonical_vec (mp_K p) ?w" using canonical_zero by (simp add: canonical_vec_def)
  obtain enc where enc: "w1Encode p (highBitsVec p ?w) = Returns enc" using highBits_width [OF p(1) wc] by blast
  define cT where "cT = shake256 X (mp_Lambda p div 4) [mu, enc]"
  obtain c where c: "sampleInBall p X cT = Returns c" using ball by blast
  note hc = ntt_zqp(1) [OF sampleInBall_spec(1) [OF p(1) c]] and small = challenge_vec_small [OF p(1) c]
  have mul: "canonical_vec k (vec_invNTT (vecMulHat (vec_ntt v) (ntt c)))" if "secret_vec p k v" for k v
    by (intro cv(2) cv(5) cv(1) secret_canonical [OF that] hc)
  define z where "z = vec_add y (vec_invNTT (vecMulHat (vec_ntt s1) (ntt c)))"
  define r where "r = vec_sub ?w (vec_invNTT (vecMulHat (vec_ntt s2) (ntt c)))"
  define ct0 where "ct0 = vec_invNTT (vecMulHat (vec_ntt t0) (ntt c))"
  have zc: "canonical_vec (mp_L p) z" unfolding z_def by (intro cv(3) y mul s)
  have rc: "canonical_vec (mp_K p) r" unfolding r_def by (intro cv(4) wc mul s)
  have zb: "\<bar>centered (z ! i ! j)\<bar> < mp_Gamma1 p - mp_Beta p" if ij: "i < mp_L p" "j < ring_n" for i j
  proof -
    have "z ! i ! j = addQ (y ! i ! j) (vec_invNTT (vecMulHat (vec_ntt s1) (ntt c)) ! i ! j)"
      unfolding z_def using vec_nth(3) [OF y(2) ij(1)] ij(2) by (simp add: poly_add_def)
    then show ?thesis
      using centered_sum(1) [OF canonical_poly_nth [OF canonical_vec_nth [OF y(2) ij(1)] ij(2)] small(1) [OF s(1) ij]] small(2) [OF s(1) ij] yb [OF ij]
        sr(4,15) by simp
  qed
  have rb: "canonical (r ! i ! j)" "\<bar>centered (r ! i ! j)\<bar> \<le> mp_Beta p" if ij: "i < mp_K p" "j < ring_n" for i j
  proof -
    show "canonical (r ! i ! j)" by (rule canonical_poly_nth [OF canonical_vec_nth [OF rc ij(1)] ij(2)])
    have "r ! i ! j = subQ 0 (vec_invNTT (vecMulHat (vec_ntt s2) (ntt c)) ! i ! j)"
      unfolding r_def using vec_nth(4) [OF wc ij(1)] ij by (simp add: poly_sub_def zero_poly_def)
    then show "\<bar>centered (r ! i ! j)\<bar> \<le> mp_Beta p"
      using centered_sum(2) [OF _ small(1) [OF s(2) ij], of 0] small(2) [OF s(2) ij] sr(5,14) unit_abs(2) by (simp add: canonical_def)
  qed
  have nz: "\<not> vec_normExceeds z (wrap32 (mp_Gamma1 p - mp_Beta p))"
    unfolding sr(1) by (rule norm_within [OF zc zb]) (use sr(4,6,8) in simp_all)
  have nr: "\<not> vec_normExceeds (lowBitsVec p r) (wrap32 (mp_Gamma2 p - mp_Beta p))" unfolding sr(2)
  proof (rule norm_within [OF lowBitsVec_canonical [OF p(1) rc]])
    fix i j :: nat assume ij: "i < mp_K p" "j < ring_n"
    have "lowBitsVec p r ! i ! j = canon (lowBits p (r ! i ! j))"
      using ij canonical_vec_length [OF rc] canonical_vec_nth [OF rc ij(1)] by (simp add: lowBitsVec_def canonical_poly_def)
    then show "\<bar>centered (lowBitsVec p r ! i ! j)\<bar> < mp_Gamma2 p - mp_Beta p"
      using lowBits_canon [OF p(1) rb(1) [OF ij]] decompose_small(2) [OF p(1) rb(1) [OF ij]] rb(2) [OF ij] p(2) sr(4) by simp
  qed (use sr(4,5,9) in simp_all)
  have nt: "\<not> vec_normExceeds ct0 (mp_Gamma2 p)" unfolding ct0_def
    by (rule norm_within [OF mul [OF s(3)]]) (use small(2) [OF s(3)] sr(4,5,9) in fastforce)+
  have "sum_list (concat (hint_vec p r ct0)) = 0"
    using makeHint_small [OF p(1) rb(1) small(1) [OF s(3)] rb(2) small(2) [OF s(3)] p(2)]
    by (intro sum_list_zero) (auto simp: hint_vec_def ct0_def split: if_splits)
  moreover from this have "\<exists>sig. sigEncode p cT z (hint_vec p r ct0) = Returns sig"
    using sigEncode_response [OF p(1) zc nz, of r ct0 cT] by (auto simp: cT_def)
  ultimately show ?thesis
    using y(1) w enc c nz nr nt unfolding sign_attempt_def Let_def by (auto simp: cT_def [symmetric] z_def [symmetric] r_def [symmetric] ct0_def [symmetric])
qed

definition X55 :: xof where
  "X55 = \<lparr>x128 = \<lambda>_ _. 0, x256 = \<lambda>_ _. 0x55\<rparr>"

abbreviation two_poly :: poly where "two_poly \<equiv> replicate ring_n 2"

lemma MLDSA44_fields [simp]:
  "mp_K MLDSA44 = 4" "mp_L MLDSA44 = 4" "mp_Eta MLDSA44 = 2" "mp_Tau MLDSA44 = 39" "mp_Beta MLDSA44 = 78" "mp_Gamma1 MLDSA44 = 131072"
  "mp_Gamma2 MLDSA44 = 95232" "mp_zBits MLDSA44 = 18"
  by (simp_all add: MLDSA44_def newParams_def wrap32_def)

lemma MLDSA44_standard: "standard_params MLDSA44"
  by (simp add: standard_params_def)

lemma constant_list: "set a \<subseteq> {x} \<Longrightarrow> length a = n \<Longrightarrow> a = replicate n x"
  by (auto intro!: replicate_eqI)

lemma run_matrix: "expandA MLDSA44 X55 rho = Returns (replicate 4 (replicate 4 zero_poly))"
proof -
  have z: "three_bytes (\<lambda>_. 0) k = 0" for k by (simp add: three_bytes_def)
  have "rejNTTPoly X55 rho s r = Returns zero_poly" for s r
  proof -
    have "\<exists>m. ring_n \<le> length (filter (\<lambda>k. three_bytes (x128 X55 (rho @ [s, r])) k < modq) [0..<m])"
      by (intro exI [of _ ring_n]) (simp add: X55_def z)
    then obtain a where a: "rejNTTPoly X55 rho s r = Returns a" using rejNTTPoly_returns by blast
    then have "read_until (ntt_step (\<lambda>_. 0)) 0 [] = Some a" by (simp add: rejNTTPoly_def X55_def)
    then have "set a \<subseteq> {0}" by (rule read_until_invariant(1)) (auto simp: ntt_step_def z)
    then have "a = zero_poly" using rejNTTPoly_canonical [OF a] constant_list [of a 0 ring_n] by (simp add: canonical_poly_def zero_poly_def)
    then show ?thesis using a by simp
  qed
  then show ?thesis by (simp add: expandA_def map_outcome_Returns [where g = "\<lambda>_. zero_poly"]
    map_outcome_Returns [where g = "\<lambda>_. replicate 4 zero_poly"] map_replicate_const)
qed

lemma run_secrets: "expandS MLDSA44 X55 seed = Returns (replicate 4 two_poly, replicate 4 two_poly)"
proof -
  have h: "half_byte 2 5 = Some 2" by (simp add: half_byte_def smod_nonneg)
  have b: "(0x55 :: byte) AND 0x0F = 5" "drop_bit 4 (0x55 :: byte) = 5" by code_simp+
  have "rejBoundedPoly MLDSA44 X55 seed nonce = Returns two_poly" for nonce
  proof -
    have "\<exists>m. ring_n \<le> (\<Sum>k<m. accepted_halves (mp_Eta MLDSA44) (x256 X55 (seed @ le16 nonce) k))"
      by (intro exI [of _ 128]) (simp add: X55_def accepted_halves_def b h)
    then obtain a where a: "rejBoundedPoly MLDSA44 X55 seed nonce = Returns a" using rejBoundedPoly_returns by blast
    then have "read_until (bounded_step 2 (\<lambda>_. 0x55)) 0 [] = Some a" by (simp add: rejBoundedPoly_def X55_def)
    then have "set a \<subseteq> {2}" by (rule read_until_invariant(1)) (auto simp: bounded_step_def bounded_one_def b h canon_eq)
    then have "a = two_poly" using rejBoundedPoly_short [OF a] constant_list [of a 2 ring_n] by (simp add: signed_poly_def canonical_poly_def)
    then show ?thesis using a by simp
  qed
  then show ?thesis by (simp add: expandS_def map_outcome_Returns [where g = "\<lambda>_. two_poly"] map_replicate_const)
qed

lemma invNTT_zero: "invNTT zero_poly = zero_poly"
proof (rule hat_inject [OF invNTT_zqp(1) [OF canonical_zero] canonical_zero])
  fix i :: nat assume i: "i < ring_n"
  have z: "zqp zero_poly r = 0" if "r < ring_n" for r using that by (simp add: zqp_def zero_poly_def)
  have "hat zero_poly i = (\<Sum>r<ring_n. 0)"
    unfolding hat_evaluate [OF canonical_zero i] by (rule sum.cong [OF refl]) (simp only: z lessThan_iff mult_zero_left)
  then show "hat (invNTT zero_poly) i = hat zero_poly i" using hat_ops(3) [OF canonical_zero i] z [OF i] by simp
qed

lemma zero_commitment:
  assumes "canonical_vec l u"
  shows "vec_invNTT (mulMatVecHat (replicate k (replicate l zero_poly)) (vec_ntt u)) = replicate k zero_poly"
proof -
  have u: "canonical_vec l (vec_ntt u)" by (rule canonical_vec_ops(1) [OF assms])
  have z: "canonical_vec l (replicate l zero_poly)" using canonical_zero by (simp add: canonical_vec_def)
  have "row_mul (replicate l zero_poly) (vec_ntt u) = zero_poly"
    by (rule zqp_inject [OF row_mul_spec(1) [OF u z] canonical_zero]) (simp add: row_mul_spec(2) [OF u z], simp add: zqp_def zero_poly_def)
  then show ?thesis by (simp add: vec_invNTT_def mulMatVecHat_def invNTT_zero)
qed

lemma two_secret: "secret_vec MLDSA44 4 (replicate 4 two_poly)" "canonical_vec 4 (replicate 4 two_poly)"
  by (auto simp: secret_vec_def signed_poly_def canonical_poly_def canonical_vec_def canonical_def centered_eq)

lemma run_t: "round_t (vec_add (vec_invNTT (mulMatVecHat (replicate 4 (replicate 4 zero_poly)) (vec_ntt (replicate 4 two_poly)))) (replicate 4 two_poly)) =
    (replicate 4 zero_poly, replicate 4 two_poly)"
proof -
  have "addQ 0 2 = 2" by (simp add: addQ_eq canonical_def)
  then have "poly_add zero_poly two_poly = two_poly"
    by (intro nth_equalityI) (simp_all add: poly_add_def zero_poly_def)
  then have "vec_add (replicate 4 zero_poly) (replicate 4 two_poly) = replicate 4 two_poly" by (intro nth_equalityI) (simp_all add: vec_add_def)
  moreover have "power2Round 2 = (0, 2)" by code_simp
  ultimately show ?thesis unfolding zero_commitment [OF two_secret(2)] by (simp add: round_t_def zero_poly_def canon_eq)
qed

text \<open>The mask: the number with 18-bit digits 0x15555 is the one with bytes 0x55.\<close>

lemma run_bytes: "3 * bval (replicate n 0x55) + 1 = 256 ^ n"
  by (induction n) simp_all

lemma run_digits: "3 * v + 1 = 2 ^ (18 * c) \<Longrightarrow> digits 18 c v = replicate c 87381"
proof (induction c arbitrary: v)
  case (Suc c)
  obtain u :: int where u: "3 * u + 1 = 2 ^ (18 * c)"
  proof -
    have "(2 :: int) ^ (18 * c) mod 3 = (262144 mod 3) ^ c mod 3" unfolding power_mod by (simp add: power_mult)
    then have "(2 :: int) ^ (18 * c) mod 3 = 1" by simp
    then have "3 * (2 ^ (18 * c) div 3) + 1 = (2 :: int) ^ (18 * c)" using mult_div_mod_eq [of 3 "(2 :: int) ^ (18 * c)"] by simp
    then show thesis by (rule that)
  qed
  have "3 * v + 1 = 2 ^ 18 * (3 * u + 1)" using Suc.prems u by (simp add: power_add)
  then have "v = 87381 + 2 ^ 18 * u" by simp
  then show ?case using Suc.IH [OF u] by simp
qed simp

lemma run_mask: "expandMask MLDSA44 X55 rhoPP kappa = Returns (replicate 4 (replicate ring_n 43691))"
proof -
  have r: "bitLen (take_bit 32 (wrap32 262143)) = 18" using pack_ranges(3) [OF MLDSA44_standard] by (simp add: pack_range_def)
  have "shake256 X55 576 ins = replicate 576 0x55" for ins by (simp add: shake256_def X55_def map_replicate_const)
  moreover have "3 * bval (replicate 576 0x55) + 1 = 2 ^ (18 * ring_n)"
  proof -
    have "(256 :: int) ^ 576 = (2 ^ 8) ^ 576" by simp
    also have "\<dots> = 2 ^ (8 * 576)" by (simp only: power_mult)
    finally show ?thesis using run_bytes [of 576] by simp
  qed
  then have "bitUnpack (replicate 576 0x55) 18 = Returns (replicate ring_n 87381)" using run_digits bitUnpack_digits [of 18 "replicate 576 0x55"] by simp
  moreover have "canon (wrap32 (131072 - 87381)) = 43691" by (simp add: wrap32_id is_int32_def canon_eq)
  ultimately show ?thesis unfolding expandMask_def
    by (simp add: bitUnpackSigned_def r map_outcome_Returns [where g = "\<lambda>_. replicate ring_n 43691"] map_replicate_const)
qed

lemma run_ball: "\<exists>c. sampleInBall MLDSA44 X55 cT = Returns c"
  by (rule sampleInBall_returns) (simp add: X55_def)

lemma run_keys:
  assumes "length xi = 32"
  shows "\<exists>pk sk rho key tr. KeyGen MLDSA44 X55 xi = Returns (Inr (pk, sk)) \<and> length sk = mp_PrivateKeySize MLDSA44
    \<and> skDecode MLDSA44 sk = Returns (rho, key, tr, replicate 4 two_poly, replicate 4 two_poly, replicate 4 two_poly)"
proof -
  note p = MLDSA44_standard
  define ext where "ext = shake256 X55 128 [xi, [4, 4]]"
  let ?rho = "take 32 ext" and ?key = "take 32 (drop 96 ext)"
  have len: "length ?rho = 32" "length ?key = 32" by (simp_all add: ext_def)
  have w: "width_poly 10 zero_poly" by (simp add: width_poly_def zero_poly_def)
  obtain pk where pk: "pkEncode MLDSA44 ?rho (replicate 4 zero_poly) = Returns pk"
    using pkEncode_roundtrip [OF p len(1), of "replicate 4 zero_poly"] w by auto
  have t0: "rest_vec MLDSA44 (replicate 4 two_poly)"
    by (auto simp: rest_vec_def signed_poly_def canonical_poly_def canonical_def centered_eq)
  have s: "secret_vec MLDSA44 (mp_L MLDSA44) (replicate 4 two_poly)" "secret_vec MLDSA44 (mp_K MLDSA44) (replicate 4 two_poly)"
    using two_secret(1) by simp_all
  obtain sk where sk: "skEncode MLDSA44 ?rho ?key (shake256 X55 64 [pk]) (replicate 4 two_poly) (replicate 4 two_poly) (replicate 4 two_poly) = Returns sk"
    "length sk = mp_PrivateKeySize MLDSA44"
    "skDecode MLDSA44 sk = Returns (?rho, ?key, shake256 X55 64 [pk], replicate 4 two_poly, replicate 4 two_poly, replicate 4 two_poly)"
    using skEncode_roundtrip [OF p len length_shake256 [of X55 64 "[pk]"] s t0] by blast
  have "KeyGen MLDSA44 X55 xi = Returns (Inr (pk, sk))"
    unfolding KeyGen_def Let_def using assms pk sk(1) by (simp add: run_matrix run_secrets run_t ext_def)
  then show ?thesis using sk by blast
qed

lemma run_signs:
  "\<exists>sig. sign_attempt MLDSA44 X55 (replicate 4 (replicate 4 zero_poly)) (vec_ntt (replicate 4 two_poly)) (vec_ntt (replicate 4 two_poly))
      (vec_ntt (replicate 4 two_poly)) rhoPP mu 0 = Returns (Some sig)"
proof (rule attempt_accepts [OF MLDSA44_standard _ run_mask])
  have y: "canonical_vec 4 (replicate 4 (replicate ring_n 43691))" by (simp add: canonical_vec_def canonical_poly_def canonical_def)
  then show "canonical_vec (mp_L MLDSA44) (replicate 4 (replicate ring_n 43691))" by simp
  show "vec_invNTT (mulMatVecHat (replicate 4 (replicate 4 zero_poly)) (vec_ntt (replicate 4 (replicate ring_n 43691)))) = replicate (mp_K MLDSA44) zero_poly"
    using zero_commitment [OF y, of 4] by simp
qed (use two_secret(1) run_ball in \<open>simp_all add: centered_eq canonical_def\<close>)

theorem mldsa_signing_terminates_witness:
  "\<exists>pk sk sig. KeyGen MLDSA44 X55 (replicate 32 0) = Returns (Inr (pk, sk)) \<and> signMu MLDSA44 X55 sk (replicate 64 1) (replicate 32 2) = Returns sig"
proof -
  obtain pk sk rho key tr where k: "KeyGen MLDSA44 X55 (replicate 32 0) = Returns (Inr (pk, sk))" "length sk = mp_PrivateKeySize MLDSA44"
    "skDecode MLDSA44 sk = Returns (rho, key, tr, replicate 4 two_poly, replicate 4 two_poly, replicate 4 two_poly)"
    using run_keys [of "replicate 32 0"] by auto
  obtain sig where "sign_attempt MLDSA44 X55 (replicate 4 (replicate 4 zero_poly)) (vec_ntt (replicate 4 two_poly)) (vec_ntt (replicate 4 two_poly))
      (vec_ntt (replicate 4 two_poly)) (shake256 X55 64 [key, replicate 32 2, replicate 64 1]) (replicate 64 1) 0 = Returns (Some sig)"
    using run_signs by blast
  then have "signMu MLDSA44 X55 sk (replicate 64 1) (replicate 32 2) = Returns sig"
    using mldsa_signing_terminates [OF MLDSA44_standard k(2,3) run_matrix refl, of "replicate 64 1" "replicate 32 2" sig] by (metis mult_0 not_less0)
  then show ?thesis using k(1) by blast
qed

theorem mldsa_sign_verify_witness:
  "\<exists>pk sk sig. KeyGen MLDSA44 X55 (replicate 32 0) = Returns (Inr (pk, sk)) \<and> mldsa_Sign MLDSA44 X55 sk [1, 2, 3] [4] (replicate 32 5) = Returns (Inr sig)
     \<and> mldsa_Verify MLDSA44 X55 pk [1, 2, 3] sig [4] = Returns True"
proof -
  obtain pk sk rho key tr where k: "KeyGen MLDSA44 X55 (replicate 32 0) = Returns (Inr (pk, sk))" "length sk = mp_PrivateKeySize MLDSA44"
    "skDecode MLDSA44 sk = Returns (rho, key, tr, replicate 4 two_poly, replicate 4 two_poly, replicate 4 two_poly)"
    using run_keys [of "replicate 32 0"] by auto
  define mu where "mu = shake256 X55 64 [take 64 (drop 64 sk), [0, 1, 4, 1, 2, 3]]"
  obtain sig where s: "sign_attempt MLDSA44 X55 (replicate 4 (replicate 4 zero_poly)) (vec_ntt (replicate 4 two_poly)) (vec_ntt (replicate 4 two_poly))
      (vec_ntt (replicate 4 two_poly)) (shake256 X55 64 [key, replicate 32 5, mu]) mu 0 = Returns (Some sig)"
    using run_signs by blast
  have "sign_loop (sign_attempt MLDSA44 X55 (replicate 4 (replicate 4 zero_poly)) (vec_ntt (replicate 4 two_poly)) (vec_ntt (replicate 4 two_poly))
      (vec_ntt (replicate 4 two_poly)) (shake256 X55 64 [key, replicate 32 5, mu]) mu) 4 0 = Some (Returns sig)"
    by (subst sign_loop.simps) (simp add: s)
  then have "signMu MLDSA44 X55 sk mu (replicate 32 5) = Returns sig" using signMu_eq [OF k(3) run_matrix, of mu "replicate 32 5"] by simp
  then have "mldsa_Sign MLDSA44 X55 sk [1, 2, 3] [4] (replicate 32 5) = Returns (Inr sig)"
    using k(2) by (simp add: mldsa_Sign_def formatMsg_def SignInternal_def mu_def)
  then show ?thesis using k(1) mldsa_sign_verify [OF MLDSA44_standard k(1), of "[1, 2, 3]" "[4]" "replicate 32 5" sig] by blast
qed

end
