(* ===== verification/Spec2Isabelle.thy ===== *)
theory Spec2Isabelle
  imports Mailbox Budget Policy Authorize Envelope TokenProfile EmailToken TokenService Transparency Journal Cli Serve Evp Issuerd Mldsa
begin

text \<open>
  A verification development of Tamayo, an issuer of anonymous and e-mail-bound tokens with post-quantum signatures, written in Go
  (file names below are relative to \<^verbatim>\<open>src/\<close>). The definitions are shallow translations of the Go code; the theorems state what makes each
  part correct, and how the parts rely on each other.

  \<^bold>\<open>The program and its parts.\<close> A user proves something to a gate (control of a mailbox, say); the gate yields an opaque bucket. A
  compiled policy decides which tokens that bucket may be issued, and a budget store counts what was issued per window. A mint decision binds a
  batch of blinded targets; the token profile signs them; a verifier checks a presented token, marks its nonce as spent and refuses it
  the second time. Keys are published in an append-only transparency log. The command-line tool, the reference runtime, the e-mail
  verification rail and the mailbox-gated issuer are four programs built from these parts. ML-DSA is the signature scheme of the post-quantum e-mail tokens.

  \<^bold>\<open>Theories, and what they model.\<close>
  \<^item> \<^verbatim>\<open>Prelude\<close>: the result type, byte codecs of integers, 64-bit wrap-around, shared lemmas on lists, options and maps, and the
    \<open>named_theorems\<close> of the development. \<^verbatim>\<open>GoStd\<close>: what the code uses of Go's standard library (strings, hexadecimal and base64
    encodings, time), with the round trips that the formats rely on. \<^verbatim>\<open>Machine\<close>: sequences of operations on a component with state,
    with invariants and counting arguments along a run as locales.
  \<^item> \<^verbatim>\<open>Mailbox\<close> (\<^verbatim>\<open>mailbox/mailbox.go\<close>): canonical addresses, bucket identities, challenge creation and verification.
    Each code is compared at most three times, and each challenge accepted at most once.
  \<^item> \<^verbatim>\<open>Budget\<close> (\<^verbatim>\<open>tokenauth/budget.go\<close>), \<^verbatim>\<open>Policy\<close> (\<^verbatim>\<open>tokenauth/compile.go\<close>, \<^verbatim>\<open>types.go\<close>),
    \<^verbatim>\<open>Authorize\<close> (\<^verbatim>\<open>evaluate.go\<close>) and \<^verbatim>\<open>Envelope\<close> (\<^verbatim>\<open>authorization.go\<close>, \<^verbatim>\<open>sidecar.go\<close>): the counter, the policy
    compiler with every check, the mint decision with its check log, and the two signed documents. A compiled policy is well formed and does not depend on
    the order of Go's maps; a mint is allowed exactly under the stated conditions; over any sequence of mints the limit of a window holds.
  \<^item> \<^verbatim>\<open>TokenProfile\<close> (\<^verbatim>\<open>tokenprofile/\<close>), \<^verbatim>\<open>EmailToken\<close> (\<^verbatim>\<open>emailtoken/\<close>) and \<^verbatim>\<open>TokenService\<close>
    (\<^verbatim>\<open>tokenservice/\<close>): wire formats, blind issuance, presentations, the JSON-based e-mail tokens, and the facades with the
    spent-token store. Parsers accept exactly what the printers print, minted tokens verify, no string is accepted as two kinds of token, no nonce is accepted twice.
  \<^item> \<^verbatim>\<open>Transparency\<close> (\<^verbatim>\<open>transparency/transparency.go\<close>): the hash-chained key log. What the operator builds is accepted, and an accepted
    extension keeps the old records unless the hash collides.
  \<^item> \<^verbatim>\<open>Journal\<close>, \<^verbatim>\<open>Cli\<close>, \<^verbatim>\<open>Serve\<close>, \<^verbatim>\<open>Evp\<close> (\<^verbatim>\<open>cmd/tamayo/\<close>): the state file with crashes and restarts,
    the commands over a file system, the HTTP server with its handlers, and the e-mail verification rail inside it. The guarantees of the
    parts hold over any sequence of requests, crashes and restarts.
  \<^item> \<^verbatim>\<open>Issuerd\<close> (\<^verbatim>\<open>services/issuerd/\<close>): the mailbox-gated issuer with its session table and both ways of proving a mailbox.
  \<^item> \<^verbatim>\<open>MldsaArith\<close>, \<^verbatim>\<open>MldsaNTT\<close>, \<^verbatim>\<open>MldsaRounding\<close>, \<^verbatim>\<open>MldsaPack\<close>, \<^verbatim>\<open>MldsaSample\<close> and \<^verbatim>\<open>Mldsa\<close>
    (\<^verbatim>\<open>mldsa/\<close>): the whole package, from 32-bit coefficient arithmetic to \<^verbatim>\<open>Sign\<close> and \<^verbatim>\<open>Verify\<close>. The transforms
    compute products in the ring, rounding and hints follow FIPS 204, the encodings round-trip and hints have one encoding, a signature made with a
    generated key verifies, verification never panics, and it is stated exactly when the samplers and the signing loop return.

  \<^bold>\<open>Correspondence.\<close> A Go struct is a \<^theory_text>\<open>record\<close>, an enumeration or error a \<^theory_text>\<open>datatype\<close>; a function that may fail returns a sum whose left part
    is the error; a function that may panic or not return has the value \<open>Panic\<close> or \<open>Loops\<close>, and a loop that may run forever is a
    \<^theory_text>\<open>partial_function\<close>. State is passed explicitly; each handler is one atomic step, as the code's mutexes make it.
    Machine integers keep their width wherever an overflow could matter (\<open>wrap64\<close>, \<open>wrap32\<close>, words). There is no fuel: every other loop is
    structural or has a termination proof.

  \<^bold>\<open>Parameters.\<close> Code outside the repository, and cryptography that a part only calls, is an argument of the definitions: SHA-256, HMAC, SHAKE, the
    JSON codec, Ed25519, the blind signature scheme, FAEST, the Unicode tables, the DKIM verifier, randomness and the clock. What a theorem needs of
    them is a hypothesis with a name (a signature made verifies, decoding inverts encoding), and each such theorem has a witness with concrete functions.

  \<^bold>\<open>Interfaces.\<close> The contracts between the parts are locales, each interpreted on the definitions of the model: \<open>guarded_machine\<close>,
    \<open>io_machine\<close> and \<open>simulation\<close> (\<^verbatim>\<open>Machine\<close>) for the servers and stores as state machines, \<open>budget_backend\<close> and
    \<open>prunable_budget\<close> (\<^verbatim>\<open>Budget\<close>) with \<open>budget_group\<close> (\<^verbatim>\<open>Authorize\<close>) for counting permits, \<open>challenge_client\<close> (\<^verbatim>\<open>Mailbox\<close>)
    for the programs that use the mailbox gate, \<open>spent_store\<close> (\<^verbatim>\<open>TokenService\<close>), \<open>text_codec\<close> (\<^verbatim>\<open>GoStd\<close>) for the
    encodings of bytes as text, and \<open>butterfly\<close> (\<^verbatim>\<open>MldsaNTT\<close>) for the layers of the two transforms.

  \<^bold>\<open>Not modelled.\<close> The signature schemes MAYO, PoMFRIT and FAEST with their field arithmetic (\<^verbatim>\<open>mayo/\<close>, \<^verbatim>\<open>gf16/\<close>, \<^verbatim>\<open>field/\<close>,
    \<^verbatim>\<open>pomfrit/\<close>, \<^verbatim>\<open>faest/\<close>) beyond the constants the token profile uses: they are parameters of the theories that call them.
    HTTP framing, flag parsing, logging, the demonstrations under \<^verbatim>\<open>examples/\<close> and \<^verbatim>\<open>cmd/qemudemo/\<close>, timing, and memory reuse
    are outside the model.
\<close>

end
